(* ===== verification/Prelude.thy ===== *)
theory Prelude
  imports Main "HOL-Library.Word" "HOL-Library.Monad_Syntax"
begin

text \<open>
  What the components share: bytes and fixed-width integers on the wire (the functions of
  Go's \<open>encoding/binary\<close>), Go slices (\<open>copy\<close>, writing a range of a buffer), and the
  contents of a ring buffer as a list. A Go value that may panic at run time is an
  \<open>option\<close>, \<open>None\<close> being the panic; an error a Go function returns is a value.
\<close>

unbundle bit_operations_syntax

named_theorems wire_simps \<open>encoders and decoders of integers on the wire\<close>
named_theorems ring_simps \<open>contents of ring buffers\<close>

type_synonym byte = "8 word"
type_synonym bytes = "8 word list"
type_synonym u16 = "16 word"
type_synonym u32 = "32 word"
type_synonym u64 = "64 word"

section \<open>Integers on the wire\<close>

text \<open>Little-endian and big-endian encodings in \<open>n\<close> bytes, as \<open>PutUint16/32/64\<close> write
  them and \<open>Uint16/32/64\<close> read them.\<close>

definition le_bytes :: "nat \<Rightarrow> 'a::len word \<Rightarrow> bytes" where
  "le_bytes n w = map (\<lambda>i. ucast (drop_bit (8 * i) w)) [0..<n]"

fun le_word :: "bytes \<Rightarrow> 'a::len word" where
  "le_word [] = 0"
| "le_word (b # bs) = ucast b OR push_bit 8 (le_word bs)"

definition be_bytes :: "nat \<Rightarrow> 'a::len word \<Rightarrow> bytes" where
  "be_bytes n w = rev (le_bytes n w)"

definition be_word :: "bytes \<Rightarrow> 'a::len word" where
  "be_word bs = le_word (rev bs)"

lemma length_le_bytes [simp]: "length (le_bytes n w) = n"
  by (simp add: le_bytes_def)

lemma length_be_bytes [simp]: "length (be_bytes n w) = n"
  by (simp add: be_bytes_def)

lemma bit_le_word:
  "bit (le_word bs :: 'a::len word) k \<longleftrightarrow>
     k < LENGTH('a) \<and> k div 8 < length bs \<and> bit (bs ! (k div 8)) (k mod 8)"
proof (induction bs arbitrary: k)
  case Nil
  then show ?case by simp
next
  case (Cons b bs)
  show ?case
  proof (cases "k < 8")
    case True
    then show ?thesis by (auto simp: bit_simps dest: bit_imp_le_length)
  next
    case False
    then obtain j where j: "k = 8 + j" by (metis add_diff_inverse)
    have "bit b (8 + j) = False" by (auto dest: bit_imp_le_length)
    moreover have "(8 + j) div 8 = Suc (j div 8)" by simp
    ultimately show ?thesis using j by (auto simp: bit_simps Cons.IH)
  qed
qed

lemma le_word_bytes [wire_simps]:
  fixes w :: "'a::len word"
  assumes "LENGTH('a) \<le> 8 * n"
  shows "le_word (le_bytes n w) = w"
proof (rule bit_word_eqI)
  fix k assume k: "k < LENGTH('a)"
  then have "k div 8 < n" using assms by simp
  moreover have "8 * (k div 8) + k mod 8 = k" by simp
  ultimately show "bit (le_word (le_bytes n w) :: 'a word) k \<longleftrightarrow> bit w k"
    using k by (simp add: bit_le_word le_bytes_def bit_simps)
qed

lemma le_bytes_word:
  assumes "length bs = n" "8 * n \<le> LENGTH('a)"
  shows "le_bytes n (le_word bs :: 'a::len word) = bs"
proof (rule nth_equalityI)
  show "length (le_bytes n (le_word bs :: 'a word)) = length bs" by (simp add: assms)
next
  fix i assume i: "i < length (le_bytes n (le_word bs :: 'a word))"
  show "le_bytes n (le_word bs :: 'a word) ! i = bs ! i"
  proof (rule bit_word_eqI)
    fix k assume "k < LENGTH(8)"
    then have k: "k < 8" by simp
    have "8 * i + k < LENGTH('a)" using i k assms by simp
    then show "bit (le_bytes n (le_word bs :: 'a word) ! i) k = bit (bs ! i) k"
      using i k assms by (simp add: le_bytes_def bit_simps bit_le_word add.commute)
  qed
qed

lemma be_word_bytes [wire_simps]:
  fixes w :: "'a::len word"
  assumes "LENGTH('a) \<le> 8 * n"
  shows "be_word (be_bytes n w) = w"
  using assms by (simp add: be_word_def be_bytes_def le_word_bytes)

lemma be_bytes_word:
  assumes "length bs = n" "8 * n \<le> LENGTH('a)"
  shows "be_bytes n (be_word bs :: 'a::len word) = bs"
  using le_bytes_word [of "rev bs" n, where 'a = 'a] assms by (simp add: be_word_def be_bytes_def)

lemma be_bytes_inj:
  assumes "be_bytes n v = be_bytes n w" "LENGTH('a) \<le> 8 * n"
  shows "(v :: 'a::len word) = w"
  using arg_cong [OF assms(1), of "be_word :: bytes \<Rightarrow> 'a word"] assms(2) by (simp add: be_word_bytes)

text \<open>A value that fits the width survives the conversion from and to \<open>int\<close> that the code
  makes around the wire (\<open>uint16(l.size)\<close>, \<open>int(binary.BigEndian.Uint16(..))\<close>).\<close>

lemma unat_of_nat_fits [wire_simps]: "n < 2 ^ LENGTH('a) \<Longrightarrow> unat (of_nat n :: 'a::len word) = n"
  by (simp add: unat_of_nat)

section \<open>Blocking operations\<close>

text \<open>An operation that waits for the outside is given what the outside does as a list; it is
  blocked when the list runs out.\<close>

datatype 'a outcome = Done 'a | Blocked

section \<open>Slices\<close>

text \<open>\<open>copy(dst, src)\<close>: the new contents of \<open>dst\<close>; the number of bytes copied is
  \<open>min (length dst) (length src)\<close>.\<close>

definition go_copy :: "'a list \<Rightarrow> 'a list \<Rightarrow> 'a list" where
  "go_copy dst src = take (length dst) src @ drop (length src) dst"

text \<open>The buffer \<open>buf\<close> after the bytes \<open>xs\<close> are stored from index \<open>i\<close> on (within range).\<close>

definition put_at :: "nat \<Rightarrow> 'a list \<Rightarrow> 'a list \<Rightarrow> 'a list" where
  "put_at i xs buf = take i buf @ xs @ drop (i + length xs) buf"

lemma length_go_copy [simp]: "length (go_copy dst src) = length dst"
  by (simp add: go_copy_def)

lemma take_go_copy [simp]: "length src \<le> length dst \<Longrightarrow> take (length src) (go_copy dst src) = src"
  by (simp add: go_copy_def)

lemma go_copy_fits: "length src \<le> length dst \<Longrightarrow> go_copy dst src = src @ drop (length src) dst"
  by (simp add: go_copy_def)

lemma length_put_at [simp]: "i + length xs \<le> length buf \<Longrightarrow> length (put_at i xs buf) = length buf"
  by (simp add: put_at_def)

lemma take_put_at: "i + length xs \<le> length buf \<Longrightarrow>
  take (i + length xs) (put_at i xs buf) = take i buf @ xs"
  by (simp add: put_at_def)

lemma take_put_at_before [simp]: "j \<le> i \<Longrightarrow> i \<le> length buf \<Longrightarrow> take j (put_at i xs buf) = take j buf"
  by (simp add: put_at_def min_def)

section \<open>Ring buffers\<close>

text \<open>The \<open>n\<close> elements of a ring that starts at index \<open>b\<close> of its buffer.\<close>

definition ring :: "'a list \<Rightarrow> nat \<Rightarrow> nat \<Rightarrow> 'a list" where
  "ring buf b n = map (\<lambda>i. buf ! ((b + i) mod length buf)) [0..<n]"

lemma length_ring [simp]: "length (ring buf b n) = n"
  by (simp add: ring_def)

lemma ring_0 [simp]: "ring buf b 0 = []"
  by (simp add: ring_def)

lemma mod_add_inj:
  assumes "(b + i) mod m = (b + j) mod m" "i < m" "j < (m::nat)"
  shows "i = j"
proof -
  have *: "k = l" if "k \<le> l" "(b + k) mod m = (b + l) mod m" "l < m" for k l
  proof -
    have "m dvd l - k" using mod_eq_dvd_iff_nat [of "b + k" "b + l" m] that by simp
    then show ?thesis using that by (auto dest: dvd_imp_le)
  qed
  show ?thesis using *[of i j] *[of j i] assms by (cases "i \<le> j") auto
qed

lemma ring_push [ring_simps]:
  assumes "n < length buf"
  shows "ring (buf[(b + n) mod length buf := x]) b (Suc n) = ring buf b n @ [x]"
proof -
  have "(b + n) mod length buf \<noteq> (b + i) mod length buf" if "i < n" for i
    using mod_add_inj [of b n "length buf" i] that assms by auto
  moreover have "(b + n) mod length buf < length buf" using assms by (intro mod_less_divisor) linarith
  ultimately show ?thesis by (simp add: ring_def)
qed

lemma ring_hd [ring_simps]: "b < length buf \<Longrightarrow> hd (ring buf b (Suc n)) = buf ! b"
  by (simp add: ring_def upt_rec)

lemma ring_pop [ring_simps]:
  assumes "b < length buf" "Suc n \<le> length buf"
  shows "ring (buf[b := z]) (Suc b mod length buf) n = tl (ring buf b (Suc n))"
proof (rule nth_equalityI)
  fix i assume "i < length (ring (buf[b := z]) (Suc b mod length buf) n)"
  then have i: "i < n" by simp
  have "(b + Suc i) mod length buf \<noteq> (b + 0) mod length buf"
    using mod_add_inj [of b "Suc i" "length buf" 0] i assms by (metis less_le_trans nat.distinct(1) not_less_eq zero_less_Suc Suc_less_eq)
  then have "(Suc b + i) mod length buf \<noteq> b" using assms by simp
  then have "((Suc b mod length buf) + i) mod length buf \<noteq> b" by (simp only: mod_add_left_eq not_False_eq_True)
  then show "ring (buf[b := z]) (Suc b mod length buf) n ! i = tl (ring buf b (Suc n)) ! i"
    using i by (simp add: ring_def nth_tl mod_add_left_eq del: upt_Suc)
qed simp

lemma ring_linear [ring_simps]: "b + n \<le> length buf \<Longrightarrow> ring buf b n = take n (drop b buf)"
  by (rule nth_equalityI) (auto simp: ring_def)

lemma ring_wrap [ring_simps]:
  assumes "b \<le> length buf" "length buf \<le> b + n" "n \<le> length buf"
  shows "ring buf b n = drop b buf @ take (b + n - length buf) buf"
proof (rule nth_equalityI)
  fix i assume "i < length (ring buf b n)"
  then have i: "i < n" by simp
  show "ring buf b n ! i = (drop b buf @ take (b + n - length buf) buf) ! i"
  proof (cases "b + i < length buf")
    case True
    then show ?thesis using i assms by (auto simp: ring_def nth_append)
  next
    case False
    then have "(b + i) mod length buf = b + i - length buf"
      using assms i by (simp add: mod_if)
    then show ?thesis using False i assms by (auto simp: ring_def nth_append add.commute)
  qed
qed (use assms in auto)

lemma ring_start [ring_simps]: "n \<le> length buf \<Longrightarrow> ring buf 0 n = take n buf"
  by (simp add: ring_linear)

section \<open>Words as counters\<close>

text \<open>Sequence numbers: a difference below the window size says how far ahead a number is.\<close>

lemma word_diff_unat_less:
  fixes a b :: "'a::len word"
  assumes "b \<le> a"
  shows "unat (a - b) = unat a - unat b"
  using assms by (simp add: unat_sub)

lemma add_diff_word [simp]: "(q :: 'a::len word) + (s - q) = s"
  by simp

lemma unat_add_of_nat:
  "unat (s :: 'a::len word) + n < 2 ^ LENGTH('a) \<Longrightarrow> unat (s + of_nat n) = unat s + n"
  by (simp add: unat_word_ariths unat_of_nat)

end
