(* ===== verification/Fifo.thy ===== *)
theory Fifo
  imports Prelude
begin

text \<open>
  The interface every queue of the engine promises: pushing and popping never panic on a
  well-formed queue and act on the abstract contents as on a list, first in first out.
  The client facts (what a whole script of operations does) are proved once, in the locale
  \<open>fifo\<close>; the queues of \<open>xcontainer/queue\<close>, \<open>xnet/expandqueue.go\<close> and the channels
  interpret it.
\<close>

datatype 'a fifo_op = FPush 'a | FPop

text \<open>A script run against a queue (\<open>None\<close>: some operation panicked) and against a list. A
  pop of an empty queue is skipped, as the clients test the length first.\<close>

fun run_fifo :: "('q \<Rightarrow> 'a \<Rightarrow> 'q option) \<Rightarrow> ('q \<Rightarrow> ('a \<times> 'q) option) \<Rightarrow> ('q \<Rightarrow> nat) \<Rightarrow>
    'a fifo_op list \<Rightarrow> 'q \<Rightarrow> ('a list \<times> 'q) option" where
  "run_fifo push pop len [] q = Some ([], q)"
| "run_fifo push pop len (FPush x # ops) q =
     do { q' \<leftarrow> push q x; run_fifo push pop len ops q' }"
| "run_fifo push pop len (FPop # ops) q =
     (if len q = 0 then run_fifo push pop len ops q
      else do { (x, q') \<leftarrow> pop q;
                (xs, q'') \<leftarrow> run_fifo push pop len ops q';
                Some (x # xs, q'') })"

fun run_list :: "'a fifo_op list \<Rightarrow> 'a list \<Rightarrow> 'a list \<times> 'a list" where
  "run_list [] xs = ([], xs)"
| "run_list (FPush x # ops) xs = run_list ops (xs @ [x])"
| "run_list (FPop # ops) [] = run_list ops []"
| "run_list (FPop # ops) (x # xs) = (let (ys, zs) = run_list ops xs in (x # ys, zs))"

fun pushed :: "'a fifo_op list \<Rightarrow> 'a list" where
  "pushed [] = []"
| "pushed (FPush x # ops) = x # pushed ops"
| "pushed (FPop # ops) = pushed ops"

text \<open>What comes out of a list queue, followed by what stays in it, is what was there followed
  by what was pushed: nothing is lost, duplicated or reordered.\<close>

lemma run_list_conserves: "fst (run_list ops xs) @ snd (run_list ops xs) = xs @ pushed ops"
  by (induction ops xs rule: run_list.induct) (auto simp: Let_def split: prod.splits)

locale fifo =
  fixes push :: "'q \<Rightarrow> 'a \<Rightarrow> 'q option"
    and pop :: "'q \<Rightarrow> ('a \<times> 'q) option"
    and len :: "'q \<Rightarrow> nat"
    and contents :: "'q \<Rightarrow> 'a list"
    and invar :: "'q \<Rightarrow> bool"
  assumes push_spec: "invar q \<Longrightarrow> \<exists>q'. push q x = Some q' \<and> invar q' \<and> contents q' = contents q @ [x]"
    and pop_spec: "invar q \<Longrightarrow> contents q \<noteq> [] \<Longrightarrow>
      \<exists>q'. pop q = Some (hd (contents q), q') \<and> invar q' \<and> contents q' = tl (contents q)"
    and len_spec: "invar q \<Longrightarrow> len q = length (contents q)"
begin

lemma run_refines:
  "invar q \<Longrightarrow> \<exists>q'. run_fifo push pop len ops q = Some (fst (run_list ops (contents q)), q') \<and>
     invar q' \<and> contents q' = snd (run_list ops (contents q))"
proof (induction ops arbitrary: q)
  case Nil
  then show ?case by simp
next
  case (Cons op ops)
  show ?case
  proof (cases op)
    case (FPush x)
    from push_spec [OF Cons.prems, of x] obtain q1
      where q1: "push q x = Some q1" "invar q1" "contents q1 = contents q @ [x]" by blast
    from Cons.IH [OF q1(2)] show ?thesis using q1 FPush by auto
  next
    case FPop
    show ?thesis
    proof (cases "contents q")
      case Nil
      with Cons.IH [OF Cons.prems] len_spec [OF Cons.prems] FPop show ?thesis by simp
    next
      case (Cons y ys)
      with pop_spec [OF \<open>invar q\<close>] obtain q1
        where q1: "pop q = Some (y, q1)" "invar q1" "contents q1 = ys" by auto
      from Cons.IH [OF q1(2)] show ?thesis
        using q1 FPop Cons len_spec [OF \<open>invar q\<close>] by (auto simp: Let_def split: prod.splits)
    qed
  qed
qed

lemma run_never_panics: "invar q \<Longrightarrow> run_fifo push pop len ops q \<noteq> None"
  using run_refines [of q ops] by auto

lemma run_conserves:
  assumes "invar q" "run_fifo push pop len ops q = Some (out, q')"
  shows "out @ contents q' = contents q @ pushed ops"
  using run_refines [OF assms(1), of ops] assms(2) run_list_conserves [of ops "contents q"] by auto

end

end
