(* ===== verification/Queue_Ring.thy ===== *)
theory Queue_Ring
  imports Fifo
begin

text \<open>
  \<open>xcontainer/queue/queue.go\<close>: a growing and shrinking ring buffer of \<open>interface{}\<close>
  values (\<open>None\<close> is \<open>nil\<close>). The head, tail and count of the Go struct are natural
  numbers; the buffer sizes are far below the range of \<open>int\<close>.
\<close>

record 'a Queue =
  q_buf :: "'a option list"
  q_head :: nat
  q_tail :: nat
  q_count :: nat
  q_initLen :: nat

definition initQueueLen :: nat where
  "initQueueLen = 16"

definition Queue_New :: "'a Queue" where
  "Queue_New = \<lparr>q_buf = replicate initQueueLen None, q_head = 0, q_tail = 0, q_count = 0,
     q_initLen = initQueueLen\<rparr>"

definition Queue_NewWithSize :: "nat \<Rightarrow> 'a Queue" where
  "Queue_NewWithSize sz = \<lparr>q_buf = replicate sz None, q_head = 0, q_tail = 0, q_count = 0,
     q_initLen = sz\<rparr>"

definition Queue_resize :: "'a Queue \<Rightarrow> 'a Queue" where
  "Queue_resize q =
     (let newBuf = replicate (q_count q * 2) None;
          newBuf' =
            (if q_tail q > q_head q
             then go_copy newBuf (drop (q_head q) (take (q_tail q) (q_buf q)))
             else let src = drop (q_head q) (q_buf q);
                      n = min (length newBuf) (length src);
                      b1 = go_copy newBuf src
                  in take n b1 @ go_copy (drop n b1) (take (q_tail q) (q_buf q)))
      in q\<lparr>q_head := 0, q_tail := q_count q, q_buf := newBuf'\<rparr>)"

definition Queue_Push :: "'a Queue \<Rightarrow> 'a option \<Rightarrow> 'a Queue option" where
  "Queue_Push q0 ele =
     (let q = (if q_count q0 = length (q_buf q0) then Queue_resize q0 else q0)
      in if q_tail q < length (q_buf q)
         then Some (q\<lparr>q_buf := (q_buf q)[q_tail q := ele],
                      q_tail := (q_tail q + 1) mod length (q_buf q),
                      q_count := q_count q + 1\<rparr>)
         else None)"

definition Queue_Pop :: "'a Queue \<Rightarrow> ('a option \<times> 'a Queue) option" where
  "Queue_Pop q =
     (if q_count q = 0 then Some (None, q)
      else if q_head q < length (q_buf q)
      then let ret = q_buf q ! q_head q;
               q1 = q\<lparr>q_buf := (q_buf q)[q_head q := None],
                      q_head := (q_head q + 1) mod length (q_buf q),
                      q_count := q_count q - 1\<rparr>
           in Some (ret, if length (q_buf q1) > q_initLen q1 \<and> q_count q1 * 4 = length (q_buf q1)
                         then Queue_resize q1 else q1)
      else None)"

text \<open>\<open>Get\<close> masks the index with the buffer length (\<open>&\<close>), as the source does.\<close>

definition Queue_Get :: "'a Queue \<Rightarrow> int \<Rightarrow> 'a option option" where
  "Queue_Get q i0 =
     (let i = (if i0 < 0 then i0 + int (q_count q) else i0)
      in if i < 0 \<or> i \<ge> int (q_count q) then Some None
         else let k = (q_head q + nat i) AND length (q_buf q)
              in if k < length (q_buf q) then Some (q_buf q ! k) else None)"

definition Queue_Peek :: "'a Queue \<Rightarrow> 'a option option" where
  "Queue_Peek q =
     (if q_count q = 0 then Some None
      else if q_head q < length (q_buf q) then Some (q_buf q ! q_head q) else None)"

definition Queue_Length :: "'a Queue \<Rightarrow> nat" where
  "Queue_Length q = q_count q"

section \<open>Invariant and contents\<close>

definition Queue_inv :: "'a Queue \<Rightarrow> bool" where
  "Queue_inv q \<longleftrightarrow> 0 < length (q_buf q) \<and> q_head q < length (q_buf q) \<and>
     q_count q \<le> length (q_buf q) \<and> q_tail q = (q_head q + q_count q) mod length (q_buf q)"

definition Queue_list :: "'a Queue \<Rightarrow> 'a option list" where
  "Queue_list q = ring (q_buf q) (q_head q) (q_count q)"

lemma Queue_inv_New [simp]: "Queue_inv Queue_New" "Queue_list Queue_New = []"
  by (simp_all add: Queue_inv_def Queue_list_def Queue_New_def initQueueLen_def)

lemma Queue_inv_NewWithSize: "0 < sz \<Longrightarrow> Queue_inv (Queue_NewWithSize sz)"
  "Queue_list (Queue_NewWithSize sz) = []"
  by (simp_all add: Queue_inv_def Queue_list_def Queue_NewWithSize_def)

text \<open>The tail is past the head exactly when the contents do not wrap around.\<close>

lemma Queue_tail_cases:
  assumes "Queue_inv q" "0 < q_count q"
  shows "q_head q < q_tail q \<longleftrightarrow> q_head q + q_count q < length (q_buf q)"
    and "q_head q + q_count q < length (q_buf q) \<Longrightarrow> q_tail q = q_head q + q_count q"
    and "length (q_buf q) \<le> q_head q + q_count q \<Longrightarrow> q_tail q = q_head q + q_count q - length (q_buf q)"
  using assms by (auto simp: Queue_inv_def mod_if)

lemma Queue_resize_buf:
  assumes "Queue_inv q" "0 < q_count q"
  shows "q_buf (Queue_resize q) = Queue_list q @ replicate (q_count q) None"
proof (cases "q_head q < q_tail q")
  case True
  with Queue_tail_cases [OF assms] have t: "q_tail q = q_head q + q_count q"
    "q_head q + q_count q < length (q_buf q)" by auto
  with True show ?thesis
    by (simp add: Queue_resize_def Queue_list_def ring_linear go_copy_def drop_take)
next
  case False
  with Queue_tail_cases [OF assms] have t: "q_tail q = q_head q + q_count q - length (q_buf q)"
    "length (q_buf q) \<le> q_head q + q_count q" by auto
  moreover have h: "q_head q < length (q_buf q)" "q_count q \<le> length (q_buf q)"
    using assms by (auto simp: Queue_inv_def)
  ultimately show ?thesis using False
    by (simp add: Queue_resize_def Queue_list_def ring_wrap go_copy_def Let_def)
qed

lemma Queue_resize_simps [simp]:
  "q_head (Queue_resize q) = 0" "q_tail (Queue_resize q) = q_count q"
  "q_count (Queue_resize q) = q_count q" "q_initLen (Queue_resize q) = q_initLen q"
  by (simp_all add: Queue_resize_def Let_def)

lemma length_Queue_list [simp]: "length (Queue_list q) = q_count q"
  by (simp add: Queue_list_def)

lemma Queue_resize_correct:
  assumes "Queue_inv q" "0 < q_count q"
  shows "Queue_inv (Queue_resize q)" "Queue_list (Queue_resize q) = Queue_list q"
    "length (q_buf (Queue_resize q)) = 2 * q_count q"
  using Queue_resize_buf [OF assms] assms
  by (simp_all add: Queue_inv_def Queue_list_def [of "Queue_resize q"] ring_start)

section \<open>Push and Pop\<close>

text \<open>One push when there is room.\<close>

lemma Queue_push_room:
  fixes q :: "'a Queue" and ele :: "'a option"
  assumes "Queue_inv q" "q_count q < length (q_buf q)"
  defines "q' \<equiv> q\<lparr>q_buf := (q_buf q)[q_tail q := ele], q_tail := (q_tail q + 1) mod length (q_buf q),
                 q_count := q_count q + 1\<rparr>"
  shows "q_tail q < length (q_buf q)" "Queue_inv q'" "Queue_list q' = Queue_list q @ [ele]"
  using assms by (simp_all add: Queue_inv_def Queue_list_def ring_push mod_Suc_eq)

lemma Queue_Push_spec:
  assumes "Queue_inv q"
  shows "\<exists>q'. Queue_Push q ele = Some q' \<and> Queue_inv q' \<and> Queue_list q' = Queue_list q @ [ele]"
proof -
  define p where "p = (if q_count q = length (q_buf q) then Queue_resize q else q)"
  have p: "Queue_inv p" "q_count p < length (q_buf p)" "Queue_list p = Queue_list q"
    using Queue_resize_correct [OF assms] assms by (auto simp: p_def Queue_inv_def)
  show ?thesis using Queue_push_room(1) [OF p(1,2)] Queue_push_room(2,3) [OF p(1,2), of ele] p(3)
    by (simp add: Queue_Push_def p_def [symmetric] Let_def)
qed

lemma Queue_pop_step:
  assumes "Queue_inv q" "0 < q_count q"
  defines "q' \<equiv> q\<lparr>q_buf := (q_buf q)[q_head q := None], q_head := (q_head q + 1) mod length (q_buf q),
                 q_count := q_count q - 1\<rparr>"
  shows "Queue_inv q'" "Queue_list q' = tl (Queue_list q)" "q_buf q ! q_head q = hd (Queue_list q)"
proof -
  obtain n where n: "q_count q = Suc n" using assms(2) by (cases "q_count q") auto
  show "Queue_inv q'" using assms n by (simp add: Queue_inv_def mod_simps)
  show "Queue_list q' = tl (Queue_list q)" using assms n
    by (simp add: Queue_list_def Queue_inv_def ring_pop)
  show "q_buf q ! q_head q = hd (Queue_list q)" using assms n
    by (simp add: Queue_list_def Queue_inv_def ring_hd)
qed

lemma Queue_Pop_spec:
  assumes "Queue_inv q" "Queue_list q \<noteq> []"
  shows "\<exists>q'. Queue_Pop q = Some (hd (Queue_list q), q') \<and> Queue_inv q' \<and>
    Queue_list q' = tl (Queue_list q)"
proof -
  have c: "0 < q_count q" using assms(2) by (metis length_Queue_list length_greater_0_conv)
  note step = Queue_pop_step [OF assms(1) c]
  let ?q1 = "q\<lparr>q_buf := (q_buf q)[q_head q := None], q_head := (q_head q + 1) mod length (q_buf q),
                 q_count := q_count q - 1\<rparr>"
  have "0 < q_count ?q1" if "q_count ?q1 * 4 = length (q_buf ?q1)"
    using that assms(1) by (cases "q_count ?q1") (auto simp: Queue_inv_def)
  then show ?thesis using Queue_resize_correct [OF step(1)] step c assms(1)
    by (auto simp: Queue_Pop_def Let_def Queue_inv_def)
qed

lemma Queue_Length_spec: "Queue_Length q = length (Queue_list q)"
  by (simp add: Queue_Length_def)

interpretation ringq: fifo Queue_Push Queue_Pop Queue_Length Queue_list Queue_inv
  by unfold_locales (simp_all add: Queue_Push_spec Queue_Pop_spec Queue_Length_spec)

lemma Queue_Pop_empty: "Queue_list q = [] \<Longrightarrow> Queue_Pop q = Some (None, q)"
  using length_Queue_list [of q] by (simp add: Queue_Pop_def)

lemma Queue_Peek_spec:
  "Queue_inv q \<Longrightarrow> Queue_Peek q = Some (if Queue_list q = [] then None else hd (Queue_list q))"
  using Queue_pop_step(3) [of q] length_Queue_list [of q]
  by (auto simp: Queue_Peek_def Queue_inv_def simp del: length_Queue_list)

section \<open>Get\<close>

lemma and_16_nat: "k < 32 \<Longrightarrow> (k::nat) AND 16 = (if k < 16 then 0 else 16)"
proof -
  assume "k < 32"
  moreover have "\<forall>k\<in>set [0..<32]. (k::nat) AND 16 = (if k < 16 then 0 else 16)" by code_simp
  ultimately show ?thesis by auto
qed

text \<open>On a queue with the initial capacity, \<open>Get\<close> returns the first slot of the buffer or
  panics, whatever position it is asked for.\<close>

lemma Queue_Get_16:
  assumes "Queue_inv q" "length (q_buf q) = 16" "0 \<le> i" "i < int (q_count q)"
  shows "Queue_Get q i = (if q_head q + nat i < 16 then Some (q_buf q ! 0) else None)"
proof -
  have "q_head q + nat i < 32" using assms by (auto simp: Queue_inv_def)
  then show ?thesis using assms by (auto simp: Queue_Get_def Let_def and_16_nat)
qed

section \<open>Properties\<close>

text \<open>C15: On a queue made by \<open>New\<close>, every script of \<open>Push\<close> and \<open>Pop\<close> runs without
  a panic, gives the elements in the order in which they were pushed and keeps the rest, through
  every growth and shrinking of the buffer.\<close>

theorem queue_is_fifo:
  "\<exists>q'. run_fifo Queue_Push Queue_Pop Queue_Length ops Queue_New = Some (fst (run_list ops []), q') \<and>
     Queue_inv q' \<and> Queue_list q' = snd (run_list ops [])"
  using ringq.run_refines [of Queue_New ops] by simp

end
