(* ===== verification/Expand_Queue.thy ===== *)
theory Expand_Queue
  imports Fifo
begin

text \<open>
  \<open>xnet/expandqueue.go\<close>: the expanding ring queues of link events and of packets (the same
  code for two element types, here one polymorphic model whose \<open>zero\<close> is the element
  type's zero value), and the two-queue buffer \<open>SingleConsumerSafePacket\<close> between the
  logic thread that sends and the link's write thread.
\<close>

record 'a ExpandQueue =
  x_buf :: "'a list"
  x_count :: nat
  x_begin :: nat

definition ExpandQueue_empty :: "'a ExpandQueue" where
  "ExpandQueue_empty = \<lparr>x_buf = [], x_count = 0, x_begin = 0\<rparr>"

text \<open>\<open>make([]T, count, size)\<close> panics when \<open>size < count\<close>.\<close>

definition ExpandQueue_resize :: "'a \<Rightarrow> nat \<Rightarrow> 'a ExpandQueue \<Rightarrow> 'a ExpandQueue option" where
  "ExpandQueue_resize zero sz q =
     (if sz < x_count q then None
      else let slice = replicate (x_count q) zero;
               src = drop (x_begin q) (x_buf q);
               n = min (length slice) (length src);
               s1 = go_copy slice src;
               s2 = (if n < x_count q then take n s1 @ go_copy (drop n s1) (x_buf q) else s1)
           in Some (q\<lparr>x_buf := s2 @ replicate (sz - x_count q) zero, x_begin := 0\<rparr>))"

definition ExpandQueue_Push :: "'a \<Rightarrow> 'a ExpandQueue \<Rightarrow> 'a \<Rightarrow> 'a ExpandQueue option" where
  "ExpandQueue_Push zero q0 elem = do {
     q \<leftarrow> (if x_count q0 = length (x_buf q0) then ExpandQueue_resize zero ((x_count q0 + 1) * 2) q0
           else Some q0);
     (if length (x_buf q) = 0 then None
      else Some (q\<lparr>x_buf := (x_buf q)[(x_begin q + x_count q) mod length (x_buf q) := elem],
                   x_count := x_count q + 1\<rparr>)) }"

definition ExpandQueue_Pop :: "'a \<Rightarrow> 'a ExpandQueue \<Rightarrow> ('a \<times> 'a ExpandQueue) option" where
  "ExpandQueue_Pop zero q =
     (if x_count q = 0 \<or> length (x_buf q) \<le> x_begin q then None
      else let elem = x_buf q ! x_begin q;
               q1 = q\<lparr>x_buf := (x_buf q)[x_begin q := zero],
                      x_begin := (x_begin q + 1) mod length (x_buf q),
                      x_count := x_count q - 1\<rparr>
           in do { q2 \<leftarrow> (if length (x_buf q1) \<ge> 65536 \<and> x_count q1 \<le> 1024
                          then ExpandQueue_resize zero (x_count q1 * 2) q1 else Some q1);
                   Some (elem, q2) })"

definition ExpandQueue_Len :: "'a ExpandQueue \<Rightarrow> nat" where
  "ExpandQueue_Len q = x_count q"

text \<open>The packet buffer: \<open>uc.q\<close> is the array of two queues, \<open>uc.idx\<close> the one that is
  written; \<open>sc_q uc ! sc_out uc\<close> is the one that is read.\<close>

record 'a SingleConsumer =
  sc_q :: "'a ExpandQueue list"
  sc_idx :: nat

definition SingleConsumer_empty :: "'a SingleConsumer" where
  "SingleConsumer_empty = \<lparr>sc_q = [ExpandQueue_empty, ExpandQueue_empty], sc_idx = 0\<rparr>"

definition sc_out :: "'a SingleConsumer \<Rightarrow> nat" where
  "sc_out uc = sc_idx uc XOR 1"

definition SingleConsumer_Push :: "'a \<Rightarrow> 'a SingleConsumer \<Rightarrow> 'a \<Rightarrow> 'a SingleConsumer option" where
  "SingleConsumer_Push zero uc ele = do {
     q \<leftarrow> ExpandQueue_Push zero (sc_q uc ! sc_idx uc) ele;
     Some (uc\<lparr>sc_q := (sc_q uc)[sc_idx uc := q]\<rparr>) }"

text \<open>\<open>Pop\<close> has three atomic parts: it reads from the out queue; finding that empty it swaps
  the queues under the mutex; then it reads from the new out queue.\<close>

definition sc_pop_out :: "'a \<Rightarrow> 'a SingleConsumer \<Rightarrow> ('a \<times> 'a SingleConsumer) option" where
  "sc_pop_out zero uc = do {
     (e, q) \<leftarrow> ExpandQueue_Pop zero (sc_q uc ! sc_out uc);
     Some (e, uc\<lparr>sc_q := (sc_q uc)[sc_out uc := q]\<rparr>) }"

definition sc_swap :: "'a SingleConsumer \<Rightarrow> 'a SingleConsumer" where
  "sc_swap uc = uc\<lparr>sc_idx := sc_idx uc XOR 1\<rparr>"

definition SingleConsumer_Pop :: "'a \<Rightarrow> 'a SingleConsumer \<Rightarrow> ('a option \<times> 'a SingleConsumer) option" where
  "SingleConsumer_Pop zero uc =
     (if ExpandQueue_Len (sc_q uc ! sc_out uc) \<noteq> 0
      then map_option (\<lambda>(e, uc'). (Some e, uc')) (sc_pop_out zero uc)
      else if ExpandQueue_Len (sc_q uc ! sc_idx uc) = 0 then Some (None, uc)
      else map_option (\<lambda>(e, uc'). (Some e, uc')) (sc_pop_out zero (sc_swap uc)))"

definition SingleConsumer_Len :: "'a SingleConsumer \<Rightarrow> nat" where
  "SingleConsumer_Len uc = ExpandQueue_Len (sc_q uc ! 0) + ExpandQueue_Len (sc_q uc ! 1)"

section \<open>The expanding queue is a queue\<close>

definition ExpandQueue_inv :: "'a ExpandQueue \<Rightarrow> bool" where
  "ExpandQueue_inv q \<longleftrightarrow> x_count q \<le> length (x_buf q) \<and>
     (if x_buf q = [] then x_begin q = 0 else x_begin q < length (x_buf q))"

definition ExpandQueue_list :: "'a ExpandQueue \<Rightarrow> 'a list" where
  "ExpandQueue_list q = ring (x_buf q) (x_begin q) (x_count q)"

lemma length_ExpandQueue_list [simp]: "length (ExpandQueue_list q) = x_count q"
  by (simp add: ExpandQueue_list_def)

lemma ExpandQueue_list_Nil [simp]: "ExpandQueue_list q = [] \<longleftrightarrow> x_count q = 0"
  "x_count q = 0 \<Longrightarrow> ExpandQueue_list q = []"
  by (metis length_0_conv length_ExpandQueue_list)+

lemma ExpandQueue_empty_inv [simp]: "ExpandQueue_inv ExpandQueue_empty"
  "x_count ExpandQueue_empty = 0"
  by (simp_all add: ExpandQueue_inv_def ExpandQueue_empty_def)

lemma ExpandQueue_resize_spec:
  assumes "ExpandQueue_inv q" "x_count q \<le> sz"
  shows "\<exists>q'. ExpandQueue_resize zero sz q = Some q' \<and> ExpandQueue_inv q' \<and>
     ExpandQueue_list q' = ExpandQueue_list q \<and> x_count q' = x_count q \<and> length (x_buf q') = sz"
proof -
  let ?slice = "replicate (x_count q) zero"
  let ?src = "drop (x_begin q) (x_buf q)"
  let ?n = "min (length ?slice) (length ?src)"
  let ?s1 = "go_copy ?slice ?src"
  let ?s2 = "if ?n < x_count q then take ?n ?s1 @ go_copy (drop ?n ?s1) (x_buf q) else ?s1"
  have s2: "?s2 = ExpandQueue_list q"
  proof (cases "x_begin q + x_count q \<le> length (x_buf q)")
    case True
    then have "?n = x_count q" by simp
    with True show ?thesis by (simp add: ExpandQueue_list_def ring_linear go_copy_def)
  next
    case False
    moreover have "x_begin q \<le> length (x_buf q)" "x_count q \<le> length (x_buf q)"
      using assms(1) by (auto simp: ExpandQueue_inv_def split: if_splits)
    ultimately show ?thesis by (auto simp: ExpandQueue_list_def ring_wrap go_copy_def add.commute)
  qed
  let ?q' = "q\<lparr>x_buf := ExpandQueue_list q @ replicate (sz - x_count q) zero, x_begin := 0\<rparr>"
  have "ExpandQueue_resize zero sz q = Some ?q'"
    using assms(2) by (simp add: ExpandQueue_resize_def Let_def s2 [simplified])
  moreover have "ExpandQueue_inv ?q'" by (auto simp: ExpandQueue_inv_def)
  moreover have "ExpandQueue_list ?q' = ExpandQueue_list q"
    unfolding ExpandQueue_list_def [of ?q'] by (simp add: ring_start)
  ultimately show ?thesis using assms(2) by simp
qed

lemma ExpandQueue_Push_spec:
  assumes "ExpandQueue_inv q"
  shows "\<exists>q'. ExpandQueue_Push zero q e = Some q' \<and> ExpandQueue_inv q' \<and>
     ExpandQueue_list q' = ExpandQueue_list q @ [e]"
proof -
  have "\<exists>p. (if x_count q = length (x_buf q) then ExpandQueue_resize zero ((x_count q + 1) * 2) q
           else Some q) = Some p \<and> ExpandQueue_inv p \<and> ExpandQueue_list p = ExpandQueue_list q \<and>
           x_count p < length (x_buf p)"
  proof (cases "x_count q = length (x_buf q)")
    case True
    from ExpandQueue_resize_spec [OF assms, of "(x_count q + 1) * 2" zero] obtain p
      where "ExpandQueue_resize zero ((x_count q + 1) * 2) q = Some p" "ExpandQueue_inv p"
        "ExpandQueue_list p = ExpandQueue_list q" "x_count p = x_count q"
        "length (x_buf p) = (x_count q + 1) * 2" by force
    with True show ?thesis by simp
  next
    case False
    with assms show ?thesis by (auto simp: ExpandQueue_inv_def)
  qed
  then obtain p where p: "(if x_count q = length (x_buf q)
      then ExpandQueue_resize zero ((x_count q + 1) * 2) q else Some q) = Some p"
    "ExpandQueue_inv p" "ExpandQueue_list p = ExpandQueue_list q" "x_count p < length (x_buf p)" by blast
  let ?q' = "p\<lparr>x_buf := (x_buf p)[(x_begin p + x_count p) mod length (x_buf p) := e],
               x_count := x_count p + 1\<rparr>"
  have "ExpandQueue_Push zero q e = Some ?q'" using p(1,4) by (auto simp: ExpandQueue_Push_def)
  moreover have "ExpandQueue_inv ?q'" using p(2,4) by (auto simp: ExpandQueue_inv_def)
  moreover have "ExpandQueue_list ?q' = ExpandQueue_list q @ [e]"
    using p(3,4) by (simp add: ExpandQueue_list_def ring_push)
  ultimately show ?thesis by blast
qed

lemma ExpandQueue_Pop_spec:
  assumes "ExpandQueue_inv q" "ExpandQueue_list q \<noteq> []"
  shows "\<exists>q'. ExpandQueue_Pop zero q = Some (hd (ExpandQueue_list q), q') \<and> ExpandQueue_inv q' \<and>
     ExpandQueue_list q' = tl (ExpandQueue_list q)"
proof -
  obtain n where n: "x_count q = Suc n"
    using assms(2) by (cases "x_count q") auto
  have b: "x_begin q < length (x_buf q)" "Suc n \<le> length (x_buf q)"
    using assms(1) n by (auto simp: ExpandQueue_inv_def split: if_splits)
  define q1 where "q1 = q\<lparr>x_buf := (x_buf q)[x_begin q := zero],
      x_begin := (x_begin q + 1) mod length (x_buf q), x_count := x_count q - 1\<rparr>"
  have q1: "ExpandQueue_inv q1" "ExpandQueue_list q1 = tl (ExpandQueue_list q)"
    using b n by (auto simp: q1_def ExpandQueue_inv_def ExpandQueue_list_def ring_pop)
  have hd: "x_buf q ! x_begin q = hd (ExpandQueue_list q)"
    using b n by (simp add: ExpandQueue_list_def ring_hd)
  have eq: "ExpandQueue_Pop zero q = do {
      q2 \<leftarrow> (if length (x_buf q1) \<ge> 65536 \<and> x_count q1 \<le> 1024
             then ExpandQueue_resize zero (x_count q1 * 2) q1 else Some q1);
      Some (hd (ExpandQueue_list q), q2) }"
    using b n by (simp add: ExpandQueue_Pop_def q1_def Let_def hd)
  show ?thesis using ExpandQueue_resize_spec [OF q1(1), of "x_count q1 * 2" zero] q1
    by (auto simp: eq)
qed

interpretation expandq: fifo "ExpandQueue_Push zero" "ExpandQueue_Pop zero" ExpandQueue_Len
    ExpandQueue_list ExpandQueue_inv for zero :: 'a
  by unfold_locales (simp_all add: ExpandQueue_Push_spec ExpandQueue_Pop_spec ExpandQueue_Len_def)

section \<open>The two-queue buffer is a queue\<close>

definition SingleConsumer_inv :: "'a SingleConsumer \<Rightarrow> bool" where
  "SingleConsumer_inv uc \<longleftrightarrow> length (sc_q uc) = 2 \<and> sc_idx uc < 2 \<and>
     (\<forall>q\<in>set (sc_q uc). ExpandQueue_inv q)"

definition SingleConsumer_list :: "'a SingleConsumer \<Rightarrow> 'a list" where
  "SingleConsumer_list uc =
     ExpandQueue_list (sc_q uc ! sc_out uc) @ ExpandQueue_list (sc_q uc ! sc_idx uc)"

lemma xor_1_cases: "(i::nat) < 2 \<Longrightarrow> i XOR Suc 0 = 1 - i"
  by (auto simp: less_2_cases_iff)

lemma sc_out_simps [simp]: "sc_idx uc < 2 \<Longrightarrow> sc_out uc < 2" "sc_idx uc < 2 \<Longrightarrow> sc_out uc \<noteq> sc_idx uc"
  "sc_idx uc < 2 \<Longrightarrow> sc_idx uc \<noteq> sc_out uc"
  "sc_out (uc\<lparr>sc_q := qs\<rparr>) = sc_out uc"
  by (auto simp: sc_out_def xor_1_cases less_2_cases_iff)

lemma SingleConsumer_empty_inv [simp]: "SingleConsumer_inv SingleConsumer_empty"
  "SingleConsumer_list SingleConsumer_empty = []"
  by (simp_all add: SingleConsumer_inv_def SingleConsumer_empty_def SingleConsumer_list_def sc_out_def)

lemma SingleConsumer_parts:
  assumes "SingleConsumer_inv uc"
  shows "ExpandQueue_inv (sc_q uc ! sc_idx uc)" "ExpandQueue_inv (sc_q uc ! sc_out uc)"
  using assms by (auto simp: SingleConsumer_inv_def)

lemma SingleConsumer_Push_spec:
  assumes "SingleConsumer_inv uc"
  shows "\<exists>uc'. SingleConsumer_Push zero uc e = Some uc' \<and> SingleConsumer_inv uc' \<and>
     SingleConsumer_list uc' = SingleConsumer_list uc @ [e]"
proof -
  from ExpandQueue_Push_spec [OF SingleConsumer_parts(1) [OF assms], of zero e]
  obtain q where q: "ExpandQueue_Push zero (sc_q uc ! sc_idx uc) e = Some q" "ExpandQueue_inv q"
    "ExpandQueue_list q = ExpandQueue_list (sc_q uc ! sc_idx uc) @ [e]" by blast
  then show ?thesis using assms
    by (auto simp: SingleConsumer_Push_def SingleConsumer_inv_def SingleConsumer_list_def
        dest!: subsetD [OF set_update_subset_insert])
qed

lemma sc_pop_out_spec:
  assumes "SingleConsumer_inv uc" "ExpandQueue_list (sc_q uc ! sc_out uc) \<noteq> []"
  shows "\<exists>uc'. sc_pop_out zero uc = Some (hd (SingleConsumer_list uc), uc') \<and>
     SingleConsumer_inv uc' \<and> SingleConsumer_list uc' = tl (SingleConsumer_list uc)"
proof -
  from ExpandQueue_Pop_spec [OF SingleConsumer_parts(2) [OF assms(1)] assms(2), of zero]
  obtain q where q: "ExpandQueue_Pop zero (sc_q uc ! sc_out uc) =
      Some (hd (ExpandQueue_list (sc_q uc ! sc_out uc)), q)" "ExpandQueue_inv q"
    "ExpandQueue_list q = tl (ExpandQueue_list (sc_q uc ! sc_out uc))" by blast
  then show ?thesis using assms
    by (auto simp: sc_pop_out_def SingleConsumer_inv_def SingleConsumer_list_def
        dest!: subsetD [OF set_update_subset_insert])
qed

lemma sc_swap_spec:
  assumes "SingleConsumer_inv uc" "ExpandQueue_list (sc_q uc ! sc_out uc) = []"
  shows "SingleConsumer_inv (sc_swap uc)" "SingleConsumer_list (sc_swap uc) = SingleConsumer_list uc"
    "sc_q (sc_swap uc) ! sc_out (sc_swap uc) = sc_q uc ! sc_idx uc"
  using assms by (auto simp: SingleConsumer_inv_def SingleConsumer_list_def sc_swap_def sc_out_def
      xor_1_cases less_2_cases_iff)

lemma ExpandQueue_Len_0: "ExpandQueue_Len q = 0 \<longleftrightarrow> ExpandQueue_list q = []"
  by (simp add: ExpandQueue_Len_def)

lemma SingleConsumer_Pop_spec:
  assumes "SingleConsumer_inv uc"
  shows "\<exists>uc'. SingleConsumer_Pop zero uc =
     Some (if SingleConsumer_list uc = [] then None else Some (hd (SingleConsumer_list uc)), uc') \<and>
     SingleConsumer_inv uc' \<and> SingleConsumer_list uc' = tl (SingleConsumer_list uc)"
proof (cases "ExpandQueue_list (sc_q uc ! sc_out uc) = []")
  case False
  then have "SingleConsumer_list uc \<noteq> []" by (simp add: SingleConsumer_list_def)
  with sc_pop_out_spec [OF assms False, of zero] False show ?thesis
    by (auto simp: SingleConsumer_Pop_def ExpandQueue_Len_0)
next
  case True
  note swap = sc_swap_spec [OF assms True]
  show ?thesis
  proof (cases "ExpandQueue_list (sc_q uc ! sc_idx uc) = []")
    case True2: True
    then show ?thesis using True assms 
      by (simp add: SingleConsumer_Pop_def SingleConsumer_list_def ExpandQueue_Len_0)
  next
    case False
    then have "SingleConsumer_list uc \<noteq> []" by (simp add: SingleConsumer_list_def)
    with sc_pop_out_spec [OF swap(1), of zero] swap False True show ?thesis
      by (auto simp: SingleConsumer_Pop_def ExpandQueue_Len_0)
  qed
qed

lemma SingleConsumer_Len_spec:
  "SingleConsumer_inv uc \<Longrightarrow> SingleConsumer_Len uc = length (SingleConsumer_list uc)"
  by (auto simp: SingleConsumer_Len_def SingleConsumer_list_def SingleConsumer_inv_def
      ExpandQueue_Len_def less_2_cases_iff sc_out_def)

section \<open>Producer and consumer interleaved\<close>

text \<open>
  The logic thread pushes while the write thread pops; \<open>Pop\<close> is not atomic. The consumer
  is either at the start of \<open>Pop\<close> or between the swap and its second read; the history
  of pushed and of delivered elements is recorded.
\<close>

datatype sc_pc = CIdle | CSwapped

record 'a sc_state =
  ss_uc :: "'a SingleConsumer"
  ss_pc :: sc_pc
  ss_pushed :: "'a list"
  ss_out :: "'a list"

definition sc_init :: "'a sc_state" where
  "sc_init = \<lparr>ss_uc = SingleConsumer_empty, ss_pc = CIdle, ss_pushed = [], ss_out = []\<rparr>"

inductive sc_step :: "'a \<Rightarrow> 'a sc_state \<Rightarrow> 'a sc_state \<Rightarrow> bool" for zero :: 'a where
  produce: "SingleConsumer_Push zero (ss_uc s) e = Some uc' \<Longrightarrow>
     sc_step zero s (s\<lparr>ss_uc := uc', ss_pushed := ss_pushed s @ [e]\<rparr>)"
| take_out: "ss_pc s = CIdle \<Longrightarrow> ExpandQueue_Len (sc_q (ss_uc s) ! sc_out (ss_uc s)) \<noteq> 0 \<Longrightarrow>
     sc_pop_out zero (ss_uc s) = Some (e, uc') \<Longrightarrow>
     sc_step zero s (s\<lparr>ss_uc := uc', ss_out := ss_out s @ [e]\<rparr>)"
| swap: "ss_pc s = CIdle \<Longrightarrow> ExpandQueue_Len (sc_q (ss_uc s) ! sc_out (ss_uc s)) = 0 \<Longrightarrow>
     ExpandQueue_Len (sc_q (ss_uc s) ! sc_idx (ss_uc s)) \<noteq> 0 \<Longrightarrow>
     sc_step zero s (s\<lparr>ss_uc := sc_swap (ss_uc s), ss_pc := CSwapped\<rparr>)"
| take_swapped: "ss_pc s = CSwapped \<Longrightarrow> sc_pop_out zero (ss_uc s) = Some (e, uc') \<Longrightarrow>
     sc_step zero s (s\<lparr>ss_uc := uc', ss_pc := CIdle, ss_out := ss_out s @ [e]\<rparr>)"

inductive sc_reachable :: "'a \<Rightarrow> 'a sc_state \<Rightarrow> bool" for zero :: 'a where
  init: "sc_reachable zero sc_init"
| step: "sc_reachable zero s \<Longrightarrow> sc_step zero s t \<Longrightarrow> sc_reachable zero t"

definition sc_state_inv :: "'a sc_state \<Rightarrow> bool" where
  "sc_state_inv s \<longleftrightarrow> SingleConsumer_inv (ss_uc s) \<and>
     ss_out s @ SingleConsumer_list (ss_uc s) = ss_pushed s \<and>
     (ss_pc s = CSwapped \<longrightarrow> ExpandQueue_list (sc_q (ss_uc s) ! sc_out (ss_uc s)) \<noteq> [])"

text \<open>The producer never touches the queue the consumer reads.\<close>

lemma SingleConsumer_Push_out:
  assumes "SingleConsumer_inv uc" "SingleConsumer_Push zero uc e = Some uc'"
  shows "sc_q uc' ! sc_out uc' = sc_q uc ! sc_out uc"
  using assms by (auto simp: SingleConsumer_Push_def SingleConsumer_inv_def split: bind_splits)

lemma SingleConsumer_list_out:
  "ExpandQueue_list (sc_q uc ! sc_out uc) \<noteq> [] \<Longrightarrow> SingleConsumer_list uc \<noteq> []"
  by (simp add: SingleConsumer_list_def)

lemma sc_step_inv: "sc_step zero s t \<Longrightarrow> sc_state_inv s \<Longrightarrow> sc_state_inv t"
proof (induction rule: sc_step.induct)
  case (produce s e uc')
  then have i: "SingleConsumer_inv (ss_uc s)" by (simp add: sc_state_inv_def)
  from SingleConsumer_Push_spec [OF i, of zero e] produce SingleConsumer_Push_out [OF i]
  show ?case by (auto simp: sc_state_inv_def)
next
  case (take_out s e uc')
  then have i: "SingleConsumer_inv (ss_uc s)"
    "ExpandQueue_list (sc_q (ss_uc s) ! sc_out (ss_uc s)) \<noteq> []"
    by (simp_all add: sc_state_inv_def ExpandQueue_Len_0)
  from sc_pop_out_spec [OF i, of zero] take_out SingleConsumer_list_out [OF i(2)]
  show ?case by (auto simp: sc_state_inv_def)
next
  case (swap s)
  then show ?case using sc_swap_spec [of "ss_uc s"]
    by (auto simp: sc_state_inv_def ExpandQueue_Len_0)
next
  case (take_swapped s e uc')
  then have i: "SingleConsumer_inv (ss_uc s)"
    "ExpandQueue_list (sc_q (ss_uc s) ! sc_out (ss_uc s)) \<noteq> []"
    by (simp_all add: sc_state_inv_def)
  from sc_pop_out_spec [OF i, of zero] take_swapped SingleConsumer_list_out [OF i(2)]
  show ?case by (auto simp: sc_state_inv_def)
qed

lemma sc_reachable_inv: "sc_reachable zero s \<Longrightarrow> sc_state_inv s"
proof (induction rule: sc_reachable.induct)
  case init
  show ?case by (simp add: sc_state_inv_def sc_init_def)
next
  case (step s t)
  then show ?case by (blast intro: sc_step_inv)
qed

text \<open>The consumer is never stuck between its swap and its read.\<close>

lemma sc_swapped_progress:
  assumes "sc_reachable zero s" "ss_pc s = CSwapped"
  shows "\<exists>t. sc_step zero s t \<and> ss_pc t = CIdle"
proof -
  from sc_reachable_inv [OF assms(1)] assms(2)
  have "SingleConsumer_inv (ss_uc s)" "ExpandQueue_list (sc_q (ss_uc s) ! sc_out (ss_uc s)) \<noteq> []"
    by (auto simp: sc_state_inv_def)
  from sc_pop_out_spec [OF this, of zero] assms(2) show ?thesis
    by (force intro: sc_step.take_swapped)
qed

section \<open>Properties\<close>

text \<open>C14: However the logic thread's pushes and the steps of the write thread's \<open>Pop\<close>
  interleave, what was handed out followed by what is buffered is what was pushed: no packet is
  lost, duplicated or reordered.\<close>

theorem single_consumer_exactly_once:
  assumes "sc_reachable zero s"
  shows "ss_out s @ SingleConsumer_list (ss_uc s) = ss_pushed s"
  using sc_reachable_inv [OF assms] by (simp add: sc_state_inv_def)

text \<open>The witness: two pushes, and the consumer is between its swap and its read.\<close>

lemma sc_two_pushes:
  "\<exists>uc. SingleConsumer_Push (0::nat) SingleConsumer_empty 7 = Some uc \<and>
     (\<exists>uc2. SingleConsumer_Push 0 uc 8 = Some uc2 \<and>
        sc_reachable 0 \<lparr>ss_uc = uc2, ss_pc = CIdle, ss_pushed = [7, 8], ss_out = []\<rparr>)"
proof -
  obtain uc where uc: "SingleConsumer_Push (0::nat) SingleConsumer_empty 7 = Some uc" "SingleConsumer_inv uc"
    using SingleConsumer_Push_spec [of SingleConsumer_empty 0 7] by auto
  obtain uc2 where uc2: "SingleConsumer_Push 0 uc 8 = Some uc2"
    using SingleConsumer_Push_spec [OF uc(2), of 0 8] by auto
  have "sc_reachable 0 \<lparr>ss_uc = uc, ss_pc = CIdle, ss_pushed = [7::nat], ss_out = []\<rparr>"
    using sc_reachable.step [OF sc_reachable.init sc_step.produce, of 0 7 uc] uc(1) by (simp add: sc_init_def)
  from sc_reachable.step [OF this sc_step.produce, of 8 uc2] uc2
  have "sc_reachable 0 \<lparr>ss_uc = uc2, ss_pc = CIdle, ss_pushed = [7, 8], ss_out = []\<rparr>" by simp
  then show ?thesis using uc(1) uc2 by blast
qed

theorem single_consumer_exactly_once_witness:
  "\<exists>s. sc_reachable (0::nat) s \<and> ss_pushed s = [7, 8] \<and> ss_out s @ SingleConsumer_list (ss_uc s) = [7, 8]"
proof -
  obtain uc where r: "sc_reachable (0::nat) \<lparr>ss_uc = uc, ss_pc = CIdle, ss_pushed = [7, 8], ss_out = []\<rparr>"
    using sc_two_pushes by blast
  from single_consumer_exactly_once [OF r] r show ?thesis by (intro exI conjI) (assumption, simp_all)
qed

end
