(* ===== verification/Channels.thy ===== *)
theory Channels
  imports Queue_Ring
begin

text \<open>
  The unbounded channels of \<open>xcontainer/channel\<close> and the packet queue of a connection,
  \<open>rdp/switchqueue.go\<close>. A mutex makes every operation atomic, so each is one function on
  the channel's state. A read that has to wait gives \<open>None\<close> (\<open>QBlocked\<close> for the
  packet queue): the state stays and the read is tried again after the next write or close.
  The two-slice channels keep \<open>read\<close>, \<open>write\<close> and \<open>readPos\<close> of the Go structs;
  elements are \<open>interface{}\<close> values or pointers, \<open>None\<close> being \<open>nil\<close>.
\<close>

section \<open>The contract of a channel\<close>

text \<open>An open channel is a queue; a closed one gives nothing more.\<close>

locale channel =
  fixes cwrite :: "'c \<Rightarrow> 'a \<Rightarrow> 'c option"
    and ctry :: "'c \<Rightarrow> ('a option \<times> 'c) option"
    and cclose :: "'c \<Rightarrow> 'c"
    and cclosed :: "'c \<Rightarrow> bool"
    and ccontents :: "'c \<Rightarrow> 'a list"
    and cinv :: "'c \<Rightarrow> bool"
  assumes write_open: "cinv c \<Longrightarrow> \<not> cclosed c \<Longrightarrow>
      \<exists>c'. cwrite c x = Some c' \<and> cinv c' \<and> \<not> cclosed c' \<and> ccontents c' = ccontents c @ [x]"
    and try_open: "cinv c \<Longrightarrow> \<not> cclosed c \<Longrightarrow>
      \<exists>c'. ctry c = Some (if ccontents c = [] then None else Some (hd (ccontents c)), c') \<and>
        cinv c' \<and> \<not> cclosed c' \<and> ccontents c' = tl (ccontents c)"
    and close_closed: "cinv c \<Longrightarrow> cclosed (cclose c) \<and> cinv (cclose c)"
    and try_closed: "cclosed c \<Longrightarrow> ctry c = Some (None, c)"

definition try_pop :: "('c \<Rightarrow> ('a option \<times> 'c) option) \<Rightarrow> 'c \<Rightarrow> ('a \<times> 'c) option" where
  "try_pop ctry c = (case ctry c of Some (Some x, c') \<Rightarrow> Some (x, c') | _ \<Rightarrow> None)"

sublocale channel \<subseteq> fifo cwrite "try_pop ctry" "\<lambda>c. length (ccontents c)" ccontents
    "\<lambda>c. cinv c \<and> \<not> cclosed c"
proof unfold_locales
  fix q x assume "cinv q \<and> \<not> cclosed q"
  then show "\<exists>q'. cwrite q x = Some q' \<and> (cinv q' \<and> \<not> cclosed q') \<and> ccontents q' = ccontents q @ [x]"
    using write_open [of q x] by auto
next
  fix q assume "cinv q \<and> \<not> cclosed q" "ccontents q \<noteq> []"
  then show "\<exists>q'. try_pop ctry q = Some (hd (ccontents q), q') \<and> (cinv q' \<and> \<not> cclosed q') \<and>
      ccontents q' = tl (ccontents q)"
    using try_open [of q] by (auto simp: try_pop_def)
qed simp

section \<open>SliceChan\<close>

record 'a SliceChan =
  sl_queue :: "'a Queue"
  sl_closed :: bool

definition SliceChan_Init :: "nat \<Rightarrow> 'a SliceChan" where
  "SliceChan_Init bufLen = \<lparr>sl_queue = Queue_NewWithSize bufLen, sl_closed = False\<rparr>"

definition SliceChan_Write :: "'a SliceChan \<Rightarrow> 'a option \<Rightarrow> 'a SliceChan option" where
  "SliceChan_Write s ele =
     (if sl_closed s then None
      else do { q \<leftarrow> Queue_Push (sl_queue s) ele; Some (s\<lparr>sl_queue := q\<rparr>) })"

definition SliceChan_TryRead :: "'a SliceChan \<Rightarrow> ('a option option \<times> 'a SliceChan) option" where
  "SliceChan_TryRead s =
     (if sl_closed s then Some (None, s)
      else if Queue_Length (sl_queue s) < 1 then Some (None, s)
      else do { (e, q) \<leftarrow> Queue_Pop (sl_queue s); Some (Some e, s\<lparr>sl_queue := q\<rparr>) })"

text \<open>\<open>Read\<close> waits while the queue is empty and open; \<open>Some (None, s)\<close> is the result
  \<open>(nil, false)\<close> of a closed channel. The outer \<open>option\<close> is the panic of the queue.\<close>

definition SliceChan_Read :: "'a SliceChan \<Rightarrow> ('a option option \<times> 'a SliceChan) option option" where
  "SliceChan_Read s =
     (if Queue_Length (sl_queue s) < 1 \<and> \<not> sl_closed s then Some None
      else if sl_closed s then Some (Some (None, s))
      else do { (e, q) \<leftarrow> Queue_Pop (sl_queue s); Some (Some (Some e, s\<lparr>sl_queue := q\<rparr>)) })"

definition SliceChan_Len :: "'a SliceChan \<Rightarrow> nat" where
  "SliceChan_Len s = Queue_Length (sl_queue s)"

definition SliceChan_Close :: "'a SliceChan \<Rightarrow> 'a SliceChan" where
  "SliceChan_Close s = s\<lparr>sl_closed := True\<rparr>"

definition SliceChan_inv :: "'a SliceChan \<Rightarrow> bool" where
  "SliceChan_inv s \<longleftrightarrow> Queue_inv (sl_queue s)"

definition SliceChan_list :: "'a SliceChan \<Rightarrow> 'a option list" where
  "SliceChan_list s = Queue_list (sl_queue s)"

lemma Queue_Length_0: "Queue_Length q = 0 \<longleftrightarrow> Queue_list q = []"
proof -
  have "Queue_Length q = length (Queue_list q)" by (simp only: Queue_Length_spec)
  then show ?thesis by (simp only: length_0_conv)
qed

interpretation slicechan: channel SliceChan_Write SliceChan_TryRead SliceChan_Close sl_closed
    SliceChan_list SliceChan_inv
proof unfold_locales
  fix c :: "'a SliceChan" and x
  assume "SliceChan_inv c" "\<not> sl_closed c"
  then show "\<exists>c'. SliceChan_Write c x = Some c' \<and> SliceChan_inv c' \<and> \<not> sl_closed c' \<and>
      SliceChan_list c' = SliceChan_list c @ [x]"
    using Queue_Push_spec [of "sl_queue c" x]
    by (auto simp: SliceChan_Write_def SliceChan_inv_def SliceChan_list_def)
next
  fix c :: "'a SliceChan"
  assume "SliceChan_inv c" "\<not> sl_closed c"
  then show "\<exists>c'. SliceChan_TryRead c =
      Some (if SliceChan_list c = [] then None else Some (hd (SliceChan_list c)), c') \<and>
      SliceChan_inv c' \<and> \<not> sl_closed c' \<and> SliceChan_list c' = tl (SliceChan_list c)"
    using Queue_Pop_spec [of "sl_queue c"]
    by (auto simp: SliceChan_TryRead_def SliceChan_inv_def SliceChan_list_def
        Queue_Length_0)
qed (simp_all add: SliceChan_Close_def SliceChan_inv_def SliceChan_TryRead_def)

text \<open>The blocking read agrees with the non-blocking one wherever it does not wait.\<close>

lemma SliceChan_Read_TryRead:
  "SliceChan_Read s =
     (if SliceChan_list s = [] \<and> \<not> sl_closed s then Some None
      else map_option Some (SliceChan_TryRead s))"
  by (cases "Queue_Pop (sl_queue s)")
    (auto simp: SliceChan_Read_def SliceChan_TryRead_def Queue_Length_0 SliceChan_list_def)

section \<open>SwitchChan\<close>

record 'a SwitchChan =
  sw_read :: "'a option list"
  sw_write :: "'a option list"
  sw_readPos :: nat
  sw_closed :: bool

definition SwitchChan_Init :: "'a SwitchChan" where
  "SwitchChan_Init = \<lparr>sw_read = [], sw_write = [], sw_readPos = 0, sw_closed = False\<rparr>"

definition SwitchChan_Write :: "'a SwitchChan \<Rightarrow> 'a option \<Rightarrow> 'a SwitchChan" where
  "SwitchChan_Write s ele = (if sw_closed s then s else s\<lparr>sw_write := sw_write s @ [ele]\<rparr>)"

definition SwitchChan_TryRead :: "'a SwitchChan \<Rightarrow> 'a option option \<times> 'a SwitchChan" where
  "SwitchChan_TryRead s =
     (if sw_closed s then (None, s)
      else if length (sw_read s) > sw_readPos s
      then (Some (sw_read s ! sw_readPos s),
            s\<lparr>sw_read := (sw_read s)[sw_readPos s := None], sw_readPos := sw_readPos s + 1\<rparr>)
      else if length (sw_write s) < 1 then (None, s)
      else (Some (sw_write s ! 0), s\<lparr>sw_read := sw_write s, sw_write := [], sw_readPos := 1\<rparr>))"

text \<open>The loop of \<open>Read\<close>: \<open>None\<close> means that the reader waits on the condition variable.\<close>

function SwitchChan_Read :: "'a SwitchChan \<Rightarrow> ('a option option \<times> 'a SwitchChan) option" where
  "SwitchChan_Read s =
     (if sw_closed s then Some (None, s)
      else if length (sw_read s) > sw_readPos s
      then Some (Some (sw_read s ! sw_readPos s),
            s\<lparr>sw_read := (sw_read s)[sw_readPos s := None], sw_readPos := sw_readPos s + 1\<rparr>)
      else if length (sw_write s) < 1 then None
      else SwitchChan_Read (s\<lparr>sw_readPos := 0, sw_read := sw_write s, sw_write := []\<rparr>))"
  by pat_completeness auto
termination
  by (relation "measure (\<lambda>s. length (sw_write s))") auto

declare SwitchChan_Read.simps [simp del]

definition SwitchChan_Len :: "'a SwitchChan \<Rightarrow> int" where
  "SwitchChan_Len s = (int (length (sw_read s)) - int (sw_readPos s)) + int (length (sw_write s))"

definition SwitchChan_Close :: "'a SwitchChan \<Rightarrow> 'a SwitchChan" where
  "SwitchChan_Close s = s\<lparr>sw_closed := True, sw_read := [], sw_write := []\<rparr>"

definition SwitchChan_inv :: "'a SwitchChan \<Rightarrow> bool" where
  "SwitchChan_inv s \<longleftrightarrow> sw_closed s \<or> sw_readPos s \<le> length (sw_read s)"

definition SwitchChan_list :: "'a SwitchChan \<Rightarrow> 'a option list" where
  "SwitchChan_list s = drop (sw_readPos s) (sw_read s) @ sw_write s"

text \<open>Reading the slot at \<open>pos\<close> and clearing it, as all the two-slice channels do.\<close>

lemma drop_nth_update:
  assumes "pos < length xs"
  shows "drop pos xs = xs ! pos # drop (Suc pos) (xs[pos := y])"
  using assms by (simp add: Cons_nth_drop_Suc)

lemma SwitchChan_TryRead_spec:
  assumes "SwitchChan_inv s" "\<not> sw_closed s"
  obtains s' where "SwitchChan_TryRead s =
      (if SwitchChan_list s = [] then None else Some (hd (SwitchChan_list s)), s')"
    "SwitchChan_inv s'" "\<not> sw_closed s'" "SwitchChan_list s' = tl (SwitchChan_list s)"
proof (cases "sw_readPos s < length (sw_read s)")
  case True
  with assms that show ?thesis
    by (simp add: SwitchChan_TryRead_def SwitchChan_list_def SwitchChan_inv_def
        drop_nth_update [OF True, of None] Suc_le_eq)
next
  case False
  with assms that show ?thesis
    by (cases "sw_write s") (auto simp: SwitchChan_TryRead_def SwitchChan_list_def SwitchChan_inv_def)
qed

interpretation switchchan: channel "\<lambda>s e. Some (SwitchChan_Write s e)"
    "\<lambda>s. Some (SwitchChan_TryRead s)" SwitchChan_Close sw_closed SwitchChan_list SwitchChan_inv
proof unfold_locales
  fix c :: "'a SwitchChan"
  assume "SwitchChan_inv c" "\<not> sw_closed c"
  then show "\<exists>c'. Some (SwitchChan_TryRead c) =
      Some (if SwitchChan_list c = [] then None else Some (hd (SwitchChan_list c)), c') \<and>
      SwitchChan_inv c' \<and> \<not> sw_closed c' \<and> SwitchChan_list c' = tl (SwitchChan_list c)"
    by (rule SwitchChan_TryRead_spec) auto
qed (auto simp: SwitchChan_Write_def SwitchChan_inv_def SwitchChan_list_def SwitchChan_Close_def
    SwitchChan_TryRead_def)

text \<open>The blocking read waits exactly on an empty open channel, and otherwise takes the same
  element and leaves the same contents as \<open>TryRead\<close> (the cleared slots differ).\<close>

lemma SwitchChan_Read_unread:
  assumes "\<not> sw_closed s" "sw_readPos s < length (sw_read s)"
  obtains s' where "SwitchChan_Read s = Some (Some (hd (SwitchChan_list s)), s')"
    "SwitchChan_inv s'" "\<not> sw_closed s'" "SwitchChan_list s' = tl (SwitchChan_list s)"
  using assms that
  by (simp add: SwitchChan_Read.simps [of s] SwitchChan_list_def SwitchChan_inv_def
        drop_nth_update [OF assms(2), of None] Suc_le_eq)

lemma SwitchChan_Read_spec:
  assumes "SwitchChan_inv s" "\<not> sw_closed s" "SwitchChan_list s \<noteq> []"
  obtains s' where "SwitchChan_Read s = Some (Some (hd (SwitchChan_list s)), s')"
    "SwitchChan_inv s'" "\<not> sw_closed s'" "SwitchChan_list s' = tl (SwitchChan_list s)"
proof (cases "sw_readPos s < length (sw_read s)")
  case True
  with SwitchChan_Read_unread [OF assms(2) True] that show ?thesis by metis
next
  case False
  let ?s = "s\<lparr>sw_readPos := 0, sw_read := sw_write s, sw_write := []\<rparr>"
  have "SwitchChan_list ?s = SwitchChan_list s" "0 < length (sw_write s)" "SwitchChan_Read s = SwitchChan_Read ?s"
    using False assms by (auto simp: SwitchChan_list_def SwitchChan_Read.simps [of s])
  then show ?thesis using SwitchChan_Read_unread [of ?s] assms(2) that by auto
qed

lemma SwitchChan_Read_waits:
  "\<not> sw_closed s \<Longrightarrow> SwitchChan_list s = [] \<Longrightarrow> SwitchChan_Read s = None"
  by (simp add: SwitchChan_Read.simps [of s] SwitchChan_list_def)

lemma SwitchChan_Read_closed: "sw_closed s \<Longrightarrow> SwitchChan_Read s = Some (None, s)"
  by (simp add: SwitchChan_Read.simps [of s])

lemma SwitchChan_Len_spec:
  "SwitchChan_inv s \<Longrightarrow> \<not> sw_closed s \<Longrightarrow> SwitchChan_Len s = int (length (SwitchChan_list s))"
  by (simp add: SwitchChan_Len_def SwitchChan_list_def SwitchChan_inv_def)

section \<open>The packet queue of a connection\<close>

record 'a switchQ =
  sq_read :: "'a option list"
  sq_write :: "'a option list"
  sq_readPos :: nat
  sq_event :: bool \<comment> \<open>\<open>chReadEvent\<close>, a channel of capacity one, holds a signal\<close>
  sq_closed :: bool

datatype 'a qresult = QPacket 'a | QClosed | QDeadline | QBlocked

definition switchQ_Init :: "'a switchQ" where
  "switchQ_Init = \<lparr>sq_read = [], sq_write = [], sq_readPos = 0, sq_event = False, sq_closed = False\<rparr>"

definition switchQ_notifyDataEvent :: "'a switchQ \<Rightarrow> 'a switchQ" where
  "switchQ_notifyDataEvent s = s\<lparr>sq_event := True\<rparr>"

text \<open>\<open>Write\<close> returns whether it succeeded (\<open>False\<close>: the error \<open>queueClosed\<close>).\<close>

definition switchQ_Write :: "'a switchQ \<Rightarrow> 'a \<Rightarrow> bool \<times> 'a switchQ" where
  "switchQ_Write s ele =
     (if sq_closed s then (False, s)
      else (True, switchQ_notifyDataEvent (s\<lparr>sq_write := sq_write s @ [Some ele]\<rparr>)))"

text \<open>\<open>Read\<close> with a context that is done or not. When neither the deadline nor a signal is
  there the reader waits; when both are there the deadline is taken (Go chooses, and in
  either case no packet is there to return).\<close>

function switchQ_Read :: "bool \<Rightarrow> 'a switchQ \<Rightarrow> 'a option qresult \<times> 'a switchQ" where
  "switchQ_Read ctxDone s =
     (if sq_closed s then (QClosed, s)
      else if length (sq_read s) > sq_readPos s
      then (QPacket (sq_read s ! sq_readPos s),
            s\<lparr>sq_read := (sq_read s)[sq_readPos s := None], sq_readPos := sq_readPos s + 1\<rparr>)
      else if length (sq_write s) < 1
      then if ctxDone then (QDeadline, s)
           else if \<not> sq_event s then (QBlocked, s)
           else switchQ_Read ctxDone (s\<lparr>sq_event := False, sq_readPos := 0, sq_read := sq_write s,
                  sq_write := []\<rparr>)
      else switchQ_Read ctxDone (s\<lparr>sq_readPos := 0, sq_read := sq_write s, sq_write := []\<rparr>))"
  by pat_completeness auto
termination
  by (relation "measure (\<lambda>(d, s). length (sq_write s) + (if sq_event s then 1 else 0))") auto

declare switchQ_Read.simps [simp del]

definition switchQ_Len :: "'a switchQ \<Rightarrow> int" where
  "switchQ_Len s = (int (length (sq_read s)) - int (sq_readPos s)) + int (length (sq_write s))"

definition switchQ_Close :: "'a switchQ \<Rightarrow> 'a switchQ" where
  "switchQ_Close s = (switchQ_notifyDataEvent (s\<lparr>sq_closed := True\<rparr>))\<lparr>sq_read := [], sq_write := []\<rparr>"

definition switchQ_inv :: "'a switchQ \<Rightarrow> bool" where
  "switchQ_inv s \<longleftrightarrow> sq_closed s \<or> sq_readPos s \<le> length (sq_read s) \<and>
     None \<notin> set (drop (sq_readPos s) (sq_read s)) \<and> None \<notin> set (sq_write s)"

definition switchQ_list :: "'a switchQ \<Rightarrow> 'a list" where
  "switchQ_list s = map the (drop (sq_readPos s) (sq_read s) @ sq_write s)"

lemma switchQ_Init_inv [simp]: "switchQ_inv switchQ_Init" "switchQ_list switchQ_Init = []"
  "\<not> sq_closed switchQ_Init"
  by (simp_all add: switchQ_inv_def switchQ_list_def switchQ_Init_def)

lemma switchQ_Write_spec:
  assumes "switchQ_inv s" "\<not> sq_closed s"
  shows "fst (switchQ_Write s x)" "switchQ_inv (snd (switchQ_Write s x))"
    "\<not> sq_closed (snd (switchQ_Write s x))"
    "switchQ_list (snd (switchQ_Write s x)) = switchQ_list s @ [x]"
  using assms
  by (auto simp: switchQ_Write_def switchQ_notifyDataEvent_def switchQ_inv_def switchQ_list_def)

lemma switchQ_Read_unread:
  assumes "switchQ_inv s" "\<not> sq_closed s" "sq_readPos s < length (sq_read s)"
  shows "fst (switchQ_Read d s) = QPacket (Some (hd (switchQ_list s)))"
    "switchQ_inv (snd (switchQ_Read d s))" "\<not> sq_closed (snd (switchQ_Read d s))"
    "switchQ_list (snd (switchQ_Read d s)) = tl (switchQ_list s)"
proof -
  have ne: "drop (sq_readPos s) (sq_read s) = sq_read s ! sq_readPos s # drop (Suc (sq_readPos s)) (sq_read s)"
    using assms(3) by (simp add: Cons_nth_drop_Suc)
  moreover obtain x where "sq_read s ! sq_readPos s = Some x"
    using assms ne by (cases "sq_read s ! sq_readPos s") (auto simp: switchQ_inv_def)
  ultimately show "fst (switchQ_Read d s) = QPacket (Some (hd (switchQ_list s)))"
    "switchQ_inv (snd (switchQ_Read d s))" "\<not> sq_closed (snd (switchQ_Read d s))"
    "switchQ_list (snd (switchQ_Read d s)) = tl (switchQ_list s)"
    using assms by (auto simp: switchQ_Read.simps [of d s] switchQ_inv_def switchQ_list_def)
qed

text \<open>The whole contract of \<open>Read\<close>: the oldest packet if there is one, otherwise the
  deadline or a wait.\<close>

lemma switchQ_Read_spec:
  assumes "switchQ_inv s" "\<not> sq_closed s"
  shows "fst (switchQ_Read d s) = (if switchQ_list s \<noteq> [] then QPacket (Some (hd (switchQ_list s)))
       else if d then QDeadline else QBlocked) \<and> switchQ_inv (snd (switchQ_Read d s)) \<and>
    \<not> sq_closed (snd (switchQ_Read d s)) \<and> switchQ_list (snd (switchQ_Read d s)) = tl (switchQ_list s)"
  using assms
proof (induction d s rule: switchQ_Read.induct)
  case (1 d s)
  show ?case
  proof (cases "sq_readPos s < length (sq_read s)")
    case True
    with switchQ_Read_unread [OF 1(3,4) True, of d] show ?thesis by (auto simp: switchQ_list_def)
  next
    case False
    then show ?thesis using 1 switchQ_Read.simps [of d s]
      by (auto simp: switchQ_inv_def switchQ_list_def)
  qed
qed

lemma switchQ_Read_closed: "sq_closed s \<Longrightarrow> switchQ_Read d s = (QClosed, s)"
  by (subst switchQ_Read.simps) simp

definition switchQ_try :: "'a switchQ \<Rightarrow> ('a option \<times> 'a switchQ) option" where
  "switchQ_try s = (case switchQ_Read True s of (QPacket p, s') \<Rightarrow> map_option (\<lambda>x. (Some x, s')) p
     | (_, s') \<Rightarrow> Some (None, s'))"

interpretation switchq: channel "\<lambda>s e. Some (snd (switchQ_Write s e))" switchQ_try switchQ_Close
    sq_closed switchQ_list switchQ_inv
proof unfold_locales
  fix c :: "'a switchQ"
  assume "switchQ_inv c" "\<not> sq_closed c"
  from switchQ_Read_spec [OF this, of True]
  show "\<exists>c'. switchQ_try c = Some (if switchQ_list c = [] then None else Some (hd (switchQ_list c)), c') \<and>
      switchQ_inv c' \<and> \<not> sq_closed c' \<and> switchQ_list c' = tl (switchQ_list c)"
    by (cases "switchQ_Read True c") (auto simp: switchQ_try_def split: if_splits)
next
  fix c :: "'a switchQ" and x
  assume "switchQ_inv c" "\<not> sq_closed c"
  from switchQ_Write_spec [OF this, of x]
  show "\<exists>c'. Some (snd (switchQ_Write c x)) = Some c' \<and> switchQ_inv c' \<and> \<not> sq_closed c' \<and>
      switchQ_list c' = switchQ_list c @ [x]" by blast
qed (simp_all add: switchQ_Close_def switchQ_notifyDataEvent_def switchQ_inv_def
    switchQ_try_def switchQ_Read_closed)

end
