(* ===== verification/Rdp_Datagram.thy ===== *)
theory Rdp_Datagram
  imports Prelude
begin

text \<open>
  The datagrams of the reliable protocol: \<open>rdp/rdp.go\<close> (constants, \<open>after\<close>),
  \<open>rdp/datagram.go\<close> (packet header and load, their \<open>readFrom\<close> and \<open>writeTo\<close>) and the
  checksum of \<open>rdp/checksum.go\<close>. A pooled \<open>buffer\<close> is an array of \<open>mtu\<close> bytes; a
  pointer to one is an \<open>option\<close>, \<open>None\<close> being \<open>nil\<close>. A method that writes into
  a slice returns the number of bytes and the new contents of the slice; \<open>None\<close> is a panic.
\<close>

section \<open>Constants and sequence numbers\<close>

definition protocolID :: byte where "protocolID = 0x43"
definition magic :: u32 where "magic = 0x5A11ADFC"
definition mtu :: nat where "mtu = 1200"
definition queueSize :: nat where "queueSize = 256"

definition packetData :: byte where "packetData = 0"
definition packetAck :: byte where "packetAck = 1"
definition packetDial :: byte where "packetDial = 2"
definition packetDialAck :: byte where "packetDialAck = 3"

lemmas packet_kinds = packetData_def packetAck_def packetDial_def packetDialAck_def

definition after :: "u32 \<Rightarrow> u32 \<Rightarrow> bool" where
  "after seq1 seq2 \<longleftrightarrow> drop_bit 31 (seq2 - seq1) \<noteq> 0"

text \<open>\<open>after\<close> compares as long as the two numbers are less than half the range apart.\<close>

lemma after_iff: "after a b \<longleftrightarrow> 2 ^ 31 \<le> unat (b - a)"
proof -
  have "drop_bit 31 (b - a) = 0 \<longleftrightarrow> unat (b - a) div 2 ^ 31 = 0"
    by (metis (mono_tags, lifting) drop_bit_eq_div unat_drop_bit_eq unat_eq_zero)
  then show ?thesis by (simp add: after_def div_eq_0_iff not_less)
qed

lemma after_add:
  assumes "0 < k" "k \<le> 2 ^ 31"
  shows "after (s + of_nat k) s"
proof -
  have "unat (0 - of_nat k :: u32) = 2 ^ 32 - k"
    using assms by (subst unat_sub_if') (simp add: unat_of_nat)
  then have "unat (s - (s + of_nat k)) = 2 ^ 32 - k" by simp
  then show ?thesis using assms by (simp add: after_iff)
qed

lemma not_after_add: "k < 2 ^ 31 \<Longrightarrow> \<not> after s (s + of_nat k)"
  by (simp add: after_iff unat_of_nat)

section \<open>Packet headers\<close>

record packetHeader =
  packetKind :: byte
  ack :: u32
  ackBits :: u32

definition packetHeader_zero :: packetHeader where
  "packetHeader_zero = \<lparr>packetKind = 0, ack = 0, ackBits = 0\<rparr>"

definition packetHeader_readFrom :: "packetHeader \<Rightarrow> bytes \<Rightarrow> nat \<times> packetHeader" where
  "packetHeader_readFrom h packet =
     (if length packet < 2 then (0, h)
      else if protocolID \<noteq> packet ! 0 then (0, h)
      else let h = h\<lparr>packetKind := packet ! 1\<rparr> in
        if packetKind h = packetAck
        then if length packet < 10 then (0, h)
             else (10, h\<lparr>ack := be_word (take 4 (drop 2 packet)),
                         ackBits := be_word (take 4 (drop 6 packet))\<rparr>)
        else (2, h))"

definition packetHeader_writeTo :: "packetHeader \<Rightarrow> bytes \<Rightarrow> nat \<times> bytes" where
  "packetHeader_writeTo h packet =
     (if length packet < 2 then (0, packet)
      else let packet = put_at 0 [protocolID, packetKind h] packet in
        if packetKind h = packetAck
        then if length packet < 10 then (0, packet)
             else (10, put_at 6 (be_bytes 4 (ackBits h)) (put_at 2 (be_bytes 4 (ack h)) packet))
        else (2, packet))"

section \<open>Packet loads\<close>

record packetLoad =
  pl_seq :: u32
  pl_size :: nat
  pl_subPacket :: bool
  pl_buf :: "bytes option"
  pl_timestamp :: int

definition packetLoad_zero :: packetLoad where
  "packetLoad_zero = \<lparr>pl_seq = 0, pl_size = 0, pl_subPacket = False, pl_buf = None, pl_timestamp = 0\<rparr>"

definition packetLoad_overhead :: nat where "packetLoad_overhead = 7"

definition packetLoad_slice :: "packetLoad \<Rightarrow> bytes option" where
  "packetLoad_slice l = do {
     buf \<leftarrow> pl_buf l;
     if pl_size l \<le> length buf then Some (take (pl_size l) buf) else None }"

definition packetLoad_free :: "packetLoad \<Rightarrow> packetLoad" where
  "packetLoad_free l = l\<lparr>pl_buf := None\<rparr>"

definition packetLoad_writeTo :: "packetLoad \<Rightarrow> bytes \<Rightarrow> (nat \<times> bytes) option" where
  "packetLoad_writeTo l b =
     (if length b < pl_size l + packetLoad_overhead then Some (0, b)
      else let b = put_at 0 (be_bytes 4 (pl_seq l)) b;
               b = put_at 4 (be_bytes 2 (of_nat (pl_size l) :: u16)) b;
               b = put_at 6 [if pl_subPacket l then 1 else 0] b
      in do {
        s \<leftarrow> packetLoad_slice l;
        Some (packetLoad_overhead + min (length b - packetLoad_overhead) (length s),
              take packetLoad_overhead b @ go_copy (drop packetLoad_overhead b) s) })"

definition packetLoad_readFrom :: "packetLoad \<Rightarrow> bytes \<Rightarrow> (nat \<times> packetLoad) option" where
  "packetLoad_readFrom l b =
     (if length b < packetLoad_overhead then Some (0, l)
      else let l = l\<lparr>pl_seq := be_word (take 4 b),
                     pl_size := unat (be_word (take 2 (drop 4 b)) :: u16),
                     pl_subPacket := 0 < b ! 6\<rparr>
      in do {
        buf \<leftarrow> pl_buf l;
        if length b - packetLoad_overhead < pl_size l \<or> length buf < pl_size l then Some (0, l)
        else Some (packetLoad_overhead + pl_size l,
                   l\<lparr>pl_buf := Some (go_copy (take (pl_size l) buf) (drop packetLoad_overhead b) @
                                      drop (pl_size l) buf)\<rparr>) })"

section \<open>Checksums\<close>

text \<open>\<open>crc32.ChecksumIEEE\<close> of Go's standard library: the reflected polynomial
  \<open>0xedb88320\<close>, one bit at a time.\<close>

definition crc_bit :: "u32 \<Rightarrow> u32" where
  "crc_bit c = (if bit c 0 then drop_bit 1 c XOR 0xEDB88320 else drop_bit 1 c)"

definition crc_byte :: "u32 \<Rightarrow> byte \<Rightarrow> u32" where
  "crc_byte c b = (crc_bit ^^ 8) (c XOR ucast b)"

definition ChecksumIEEE :: "bytes \<Rightarrow> u32" where
  "ChecksumIEEE bs = NOT (foldl crc_byte (NOT 0) bs)"

definition crcOverhead :: nat where "crcOverhead = 4"

definition putCheckSum :: "bytes \<Rightarrow> nat \<Rightarrow> nat \<times> bytes" where
  "putCheckSum packet n =
     (if length packet < n + crcOverhead then (0, packet)
      else (n + crcOverhead, put_at n (be_bytes 4 (ChecksumIEEE (take n packet) XOR magic)) packet))"

definition checkPacket :: "bytes \<Rightarrow> nat \<Rightarrow> nat option" where
  "checkPacket packet n =
     (if n \<le> crcOverhead then Some 0
      else if length packet < n then None
      else let p = n - crcOverhead in
        if be_word (take (n - p) (drop p packet)) \<noteq> ChecksumIEEE (take p packet) XOR magic then Some 0
        else Some p)"

section \<open>Round trips of headers and loads\<close>

text \<open>What a header writes is read back, whatever the buffers held before.\<close>

lemma packetHeader_roundtrip:
  assumes "10 \<le> length packet" "packetHeader_writeTo h packet = (n, packet')"
  shows "packetHeader_readFrom h0 (take n packet' @ rest) =
    (n, if packetKind h = packetAck then h else h0\<lparr>packetKind := packetKind h\<rparr>)"
proof (cases "packetKind h = packetAck")
  case True
  with assms have p: "n = 10" "packet' = put_at 6 (be_bytes 4 (ackBits h)) (put_at 2 (be_bytes 4 (ack h))
      (put_at 0 [protocolID, packetAck] packet))" by (auto simp: packetHeader_writeTo_def Let_def)
  then have t: "take n packet' = [protocolID, packetAck] @ be_bytes 4 (ack h) @ be_bytes 4 (ackBits h)"
    using assms(1) by (simp add: put_at_def)
  then show ?thesis using True
    by (simp add: packetHeader_readFrom_def Let_def wire_simps p(1))
next
  case False
  with assms have "n = 2" "take n packet' = [protocolID, packetKind h]"
    by (auto simp: packetHeader_writeTo_def Let_def put_at_def)
  then show ?thesis using False by (simp add: packetHeader_readFrom_def)
qed

text \<open>The bytes of a load on the wire, and when a load is in order to be sent.\<close>

definition load_bytes :: "packetLoad \<Rightarrow> bytes" where
  "load_bytes l = be_bytes 4 (pl_seq l) @ be_bytes 2 (of_nat (pl_size l) :: u16) @
     [if pl_subPacket l then 1 else 0] @ the (packetLoad_slice l)"

definition load_ok :: "packetLoad \<Rightarrow> bool" where
  "load_ok l \<longleftrightarrow> (\<exists>buf. pl_buf l = Some buf \<and> length buf = mtu) \<and> pl_size l \<le> mtu"

lemma load_ok_slice:
  "load_ok l \<Longrightarrow> \<exists>s. packetLoad_slice l = Some s \<and> length s = pl_size l"
  by (auto simp: load_ok_def packetLoad_slice_def)

lemma length_load_bytes: "load_ok l \<Longrightarrow> length (load_bytes l) = packetLoad_overhead + pl_size l"
  using load_ok_slice [of l] by (auto simp: load_bytes_def packetLoad_overhead_def)

lemma packetLoad_writeTo_spec:
  assumes "load_ok l"
  shows "packetLoad_writeTo l b =
    (if length b < packetLoad_overhead + pl_size l then Some (0, b)
     else Some (packetLoad_overhead + pl_size l, put_at 0 (load_bytes l) b))"
  using load_ok_slice [OF assms]
  by (auto simp: packetLoad_writeTo_def load_bytes_def packetLoad_overhead_def Let_def put_at_def
      go_copy_def drop_Cons' add.commute)

lemma packetLoad_readFrom_bytes:
  assumes "load_ok l" "pl_buf l0 = Some g" "length g = mtu"
  shows "\<exists>l'. packetLoad_readFrom l0 (load_bytes l @ rest) = Some (packetLoad_overhead + pl_size l, l') \<and>
    load_ok l' \<and> pl_seq l' = pl_seq l \<and> pl_size l' = pl_size l \<and> pl_subPacket l' = pl_subPacket l \<and>
    packetLoad_slice l' = packetLoad_slice l"
proof -
  obtain s where s: "packetLoad_slice l = Some s" "length s = pl_size l"
    using load_ok_slice [OF assms(1)] by blast
  have "pl_size l < 2 ^ LENGTH(16)" "pl_size l \<le> mtu" using assms(1) by (simp_all add: load_ok_def mtu_def)
  then have u: "unat (of_nat (pl_size l) :: u16) = pl_size l" by (intro unat_of_nat_fits)
  define b where "b = load_bytes l @ rest"
  have b: "take 4 b = be_bytes 4 (pl_seq l)" "take 2 (drop 4 b) = be_bytes 2 (of_nat (pl_size l) :: u16)"
    "b ! 6 = (if pl_subPacket l then 1 else 0)" "drop packetLoad_overhead b = s @ rest"
    "length b = packetLoad_overhead + pl_size l + length rest"
    using s by (simp_all add: b_def load_bytes_def packetLoad_overhead_def nth_append)
  have "packetLoad_readFrom l0 b = Some (packetLoad_overhead + pl_size l,
     l0\<lparr>pl_seq := pl_seq l, pl_size := pl_size l, pl_subPacket := pl_subPacket l,
       pl_buf := Some (s @ drop (pl_size l) g)\<rparr>)"
    using assms(2,3) u s \<open>pl_size l \<le> mtu\<close>
    by (simp add: packetLoad_readFrom_def b wire_simps go_copy_def Let_def)
  then show ?thesis using s assms(3) \<open>pl_size l \<le> mtu\<close> by (simp add: load_ok_def packetLoad_slice_def b_def)
qed

section \<open>What the checksum detects\<close>

lemma word_xor_left_inj: "(a :: 'a::len word) XOR b = a XOR c \<longleftrightarrow> b = c"
  by (metis xor.left_commute xor_self_eq xor.right_neutral)

lemma crc_bit_inj: "crc_bit c = crc_bit d \<Longrightarrow> c = d"
proof -
  assume eq: "crc_bit c = crc_bit d"
  have top: "bit (crc_bit x) 31 \<longleftrightarrow> bit x 0" for x
    by (auto simp: crc_bit_def bit_simps dest: bit_imp_le_length)
  have 0: "bit c 0 \<longleftrightarrow> bit d 0" using eq top by metis
  have up: "drop_bit 1 c = drop_bit 1 d"
    using eq 0 by (cases "bit c 0") (auto simp: crc_bit_def xor.commute [of _ 3988292384] word_xor_left_inj)
  show "c = d"
  proof (rule bit_word_eqI)
    fix n assume "n < LENGTH(32)"
    show "bit c n \<longleftrightarrow> bit d n"
    proof (cases n)
      case (Suc m)
      have "bit (drop_bit 1 c) m \<longleftrightarrow> bit (drop_bit 1 d) m" using up by simp
      then show ?thesis using Suc by (simp add: bit_simps)
    qed (simp add: 0)
  qed
qed

lemma crc_bits_inj: "(crc_bit ^^ k) c = (crc_bit ^^ k) d \<Longrightarrow> c = d"
  by (induction k arbitrary: c d) (auto dest: crc_bit_inj)

lemma crc_byte_inj_state: "crc_byte c b = crc_byte d b \<Longrightarrow> c = d"
  unfolding crc_byte_def by (metis crc_bits_inj word_xor_left_inj xor.commute)

lemma crc_byte_inj_byte: "crc_byte c a = crc_byte c b \<Longrightarrow> a = b"
proof -
  assume "crc_byte c a = crc_byte c b"
  then have "(ucast a :: u32) = ucast b" using crc_bits_inj word_xor_left_inj unfolding crc_byte_def by metis
  then have "(ucast (ucast a :: u32) :: byte) = ucast (ucast b :: u32)" by simp
  then show "a = b" by (simp add: unsigned_ucast_eq take_bit_word_eq_self)
qed

lemma crc_fold_inj: "foldl crc_byte c bs = foldl crc_byte d bs \<Longrightarrow> c = d"
  by (induction bs arbitrary: c d) (auto dest: crc_byte_inj_state)

text \<open>Changing one byte changes the checksum.\<close>

lemma ChecksumIEEE_one_byte:
  assumes "i < length bs" "x \<noteq> bs ! i"
  shows "ChecksumIEEE (bs[i := x]) \<noteq> ChecksumIEEE bs"
proof
  assume eq: "ChecksumIEEE (bs[i := x]) = ChecksumIEEE bs"
  have "bs = take i bs @ bs ! i # drop (Suc i) bs" using assms by (simp add: id_take_nth_drop [symmetric])
  moreover have "bs[i := x] = take i bs @ x # drop (Suc i) bs" using assms by (simp add: upd_conv_take_nth_drop)
  ultimately have "foldl crc_byte (crc_byte (foldl crc_byte (NOT 0) (take i bs)) x) (drop (Suc i) bs)
      = foldl crc_byte (crc_byte (foldl crc_byte (NOT 0) (take i bs)) (bs ! i)) (drop (Suc i) bs)"
    using eq unfolding ChecksumIEEE_def
    by (metis (no_types, lifting) foldl_Cons foldl_append bit.double_compl)
  then show False using assms(2) by (auto dest!: crc_fold_inj crc_byte_inj_byte)
qed

lemma putCheckSum_spec:
  assumes "putCheckSum packet n = (m, packet')" "m \<noteq> 0"
  shows "m = n + crcOverhead" "length packet' = length packet"
    "take m packet' = take n packet @ be_bytes 4 (ChecksumIEEE (take n packet) XOR magic)"
  using assms by (auto simp: putCheckSum_def crcOverhead_def put_at_def split: if_splits)

end
