(* ===== verification/Rdp_Queue.thy ===== *)
theory Rdp_Queue
  imports Rdp_Datagram
begin

text \<open>
  The round-trip window of \<open>rdp/window.go\<close> and the send and receive queues of
  \<open>rdp/queue.go\<close>. A queue is a table of \<open>size\<close> slots indexed by the sequence number
  modulo \<open>size\<close>; every method runs under the queue's mutex and is one function. The abstract
  view is \<open>q_at q s\<close>, the load stored under sequence number \<open>s\<close>.
\<close>

section \<open>The window of round-trip times\<close>

definition rttWindow :: nat where "rttWindow = 4"

record Window =
  w_v :: "int list"
  w_i :: nat
  w_n :: nat
  w_min :: int

definition Window_zero :: Window where
  "Window_zero = \<lparr>w_v = replicate rttWindow 0, w_i = 0, w_n = 0, w_min = 0\<rparr>"

definition Window_Append :: "Window \<Rightarrow> int \<Rightarrow> Window option" where
  "Window_Append w x =
     (if x < 0 then None
      else let i = (w_i w + 1) mod rttWindow in
        Some \<lparr>w_v = (w_v w)[w_i w := x], w_i = i, w_n = (if i > w_n w then i else w_n w),
              w_min = (if x < w_min w then x else -1)\<rparr>)"

fun Window_scan :: "int list \<Rightarrow> nat \<Rightarrow> nat \<Rightarrow> int \<Rightarrow> int" where
  "Window_scan v i 0 m = m"
| "Window_scan v i (Suc k) m = Window_scan v (Suc i) k (if v ! i < m then v ! i else m)"

definition Window_Min :: "Window \<Rightarrow> int \<times> Window" where
  "Window_Min w =
     (if w_min w > 0 then (w_min w, w)
      else let m = Window_scan (w_v w) 1 (w_n w - 1) (w_v w ! 0) in (m, w\<lparr>w_min := m\<rparr>))"

section \<open>The queue\<close>

record packet =
  known :: bool
  load :: packetLoad

record queue =
  packets :: "packet list"
  seq :: u32
  qsize :: u32
  delAck :: u32
  delAckBits :: u32

definition newQueue :: "nat \<Rightarrow> queue" where
  "newQueue n = \<lparr>packets = replicate n \<lparr>known = False, load = packetLoad_zero\<rparr>, seq = 0,
     qsize = of_nat n, delAck = 0, delAckBits = 0\<rparr>"

definition slot :: "queue \<Rightarrow> u32 \<Rightarrow> nat" where
  "slot q s = unat (s mod qsize q)"

definition queue_Set :: "queue \<Rightarrow> packetLoad \<Rightarrow> bool \<times> queue" where
  "queue_Set q l =
     (if pl_seq l - seq q \<ge> qsize q then (False, q)
      else let index = slot q (pl_seq l); p = packets q ! index in
        if known p \<and> pl_seq (load p) = pl_seq l then (False, q)
        else if known p \<and> pl_seq l \<noteq> seq q then (False, q)
        else (True, q\<lparr>packets := (packets q)[index := \<lparr>known = True, load = l\<rparr>]\<rparr>))"

definition queue_Read :: "queue \<Rightarrow> packetLoad option \<times> queue" where
  "queue_Read q =
     (let index = slot q (seq q); p = packets q ! index in
      if \<not> known p \<or> pl_seq (load p) \<noteq> seq q then (None, q)
      else (Some (load p), q\<lparr>packets := (packets q)[index := \<lparr>known = False, load = packetLoad_zero\<rparr>],
                             seq := seq q + 1\<rparr>))"

fun ackLoop :: "queue \<Rightarrow> nat \<Rightarrow> nat \<Rightarrow> u32 \<Rightarrow> u32" where
  "ackLoop q offset 0 bits = bits"
| "ackLoop q offset (Suc k) bits =
     (let s = seq q + 1 + of_nat offset; p = packets q ! slot q s in
      ackLoop q (Suc offset) k
        (if known p \<and> pl_seq (load p) = s then bits OR push_bit offset 1 else bits))"

definition queue_GetAck :: "queue \<Rightarrow> u32 \<times> u32" where
  "queue_GetAck q = (let m = (if qsize q < 32 then qsize q else 32) in (seq q, ackLoop q 0 (unat m) 0))"

definition queue_GetSeq :: "queue \<Rightarrow> u32" where
  "queue_GetSeq q = seq q"

definition queue_CloseAndClear :: "queue \<Rightarrow> queue" where
  "queue_CloseAndClear q =
     q\<lparr>packets := map (\<lambda>p. p\<lparr>known := False, load := packetLoad_free (load p)\<rparr>) (packets q)\<rparr>"

text \<open>\<open>clear\<close> reads the clock only when it drops a packet; the argument gives the reading of
  \<open>nowMs\<close> at that moment, by sequence number. A packet stamped in the future makes the
  window's \<open>Append\<close> panic.\<close>

definition queue_clear :: "(u32 \<Rightarrow> int) \<Rightarrow> queue \<Rightarrow> u32 \<Rightarrow> Window option \<Rightarrow>
    (bool \<times> queue \<times> Window option) option" where
  "queue_clear now q s w =
     (let index = slot q s; p = packets q ! index in
      if \<not> known p \<or> pl_seq (load p) \<noteq> s then Some (False, q, w)
      else do {
        w' \<leftarrow> (case w of None \<Rightarrow> Some None
                | Some win \<Rightarrow> map_option Some (Window_Append win (now s - pl_timestamp (load p))));
        Some (True, q\<lparr>packets := (packets q)[index := \<lparr>known = False, load = packetLoad_free (load p)\<rparr>]\<rparr>, w') })"

definition queue_Clear :: "queue \<Rightarrow> u32 \<Rightarrow> queue option" where
  "queue_Clear q s = map_option (\<lambda>(_, q', _). q') (queue_clear (\<lambda>_. 0) q s None)"

definition queue_Get :: "queue \<Rightarrow> u32 \<Rightarrow> packetLoad option" where
  "queue_Get q offset =
     (let s = seq q + offset; p = packets q ! slot q s in
      if \<not> known p \<or> pl_seq (load p) \<noteq> s then None else Some (load p))"

definition queue_Write :: "queue \<Rightarrow> packetLoad \<Rightarrow> bool \<times> queue" where
  "queue_Write q l =
     (let index = slot q (pl_seq l); p = packets q ! index in
      if known p \<and> pl_seq (load p) \<noteq> pl_seq l then (False, q)
      else (True, q\<lparr>packets := (packets q)[index := \<lparr>known = True, load = l\<rparr>]\<rparr>))"

text \<open>The two loops of \<open>Ack\<close>: up to the cumulative number, then the selective bits.\<close>

function ackUpTo :: "(u32 \<Rightarrow> int) \<Rightarrow> u32 \<Rightarrow> queue \<Rightarrow> Window \<Rightarrow> nat \<Rightarrow> (nat \<times> queue \<times> Window) option" where
  "ackUpTo now a q w n =
     (if seq q < a
      then do {
        (b, q', w') \<leftarrow> queue_clear now q (seq q) (Some w);
        ackUpTo now a (q'\<lparr>seq := seq q + 1\<rparr>) (the w') (if b then n + 1 else n) }
      else Some (n, q, w))"
  by pat_completeness auto
termination
proof (relation "measure (\<lambda>(now, a, q, w, n). unat a - unat (seq q))")
  fix now a and q :: queue and w n x q' y
  assume lt: "seq q < a"
  then have "unat (seq q) < unat a" by (simp add: word_less_nat_alt)
  moreover have "unat a < 2 ^ 32" using unsigned_less [of a] by simp
  ultimately have "unat (seq q + 1) = unat (seq q) + 1" using unat_add_of_nat [of "seq q" 1] by simp
  with \<open>unat (seq q) < unat a\<close>
  show "((now, a, q'\<lparr>seq := seq q + 1\<rparr>, the y, if x then n + 1 else n), now, a, q, w, n)
      \<in> measure (\<lambda>(now, a, q, w, n). unat a - unat (seq q))" by simp
qed simp_all

declare ackUpTo.simps [simp del]

function ackSelect :: "(u32 \<Rightarrow> int) \<Rightarrow> u32 \<Rightarrow> u32 \<Rightarrow> u32 \<Rightarrow> queue \<Rightarrow> Window \<Rightarrow> nat \<Rightarrow>
    (nat \<times> u32 \<times> queue \<times> Window) option" where
  "ackSelect now a offset bits q w n =
     (if bits = 0 then Some (n, bits, q, w)
      else if bits AND 1 \<noteq> 0
      then do {
        (b, q', w') \<leftarrow> queue_clear now q (a + offset) (Some w);
        ackSelect now a (offset + 1) (drop_bit 1 bits) q' (the w') (if b then n + 1 else n) }
      else ackSelect now a (offset + 1) (drop_bit 1 bits) q w n)"
  by pat_completeness auto
termination
proof (relation "measure (\<lambda>(now, a, offset, bits, q, w, n). unat bits)")
  have *: "bits \<noteq> 0 \<Longrightarrow> unat (drop_bit 1 bits) < unat bits" for bits :: u32
    by (subst unat_drop_bit_eq) (simp add: drop_bit_eq_div unat_gt_0 word_neq_0_conv)
  fix now a offset and bits :: u32 and q w and n :: nat
  assume "bits \<noteq> 0"
  then show "((now, a, offset + 1, drop_bit 1 bits, q, w, n), now, a, offset, bits, q, w, n)
      \<in> measure (\<lambda>(now, a, offset, bits, q, w, n). unat bits)" using * by simp
  fix x q' y
  show "((now, a, offset + 1, drop_bit 1 bits, q', the y, if x then n + 1 else n), now, a, offset, bits, q, w, n)
      \<in> measure (\<lambda>(now, a, offset, bits, q, w, n). unat bits)" using * \<open>bits \<noteq> 0\<close> by simp
qed simp

declare ackSelect.simps [simp del]

definition queue_Ack :: "(u32 \<Rightarrow> int) \<Rightarrow> queue \<Rightarrow> u32 \<Rightarrow> u32 \<Rightarrow> Window \<Rightarrow> (nat \<times> queue \<times> Window) option" where
  "queue_Ack now q a bits w =
     (if delAck q = a \<and> delAckBits q = bits then Some (0, q, w)
      else if a - seq q \<le> qsize q
      then do {
        (n, q1, w1) \<leftarrow> ackUpTo now a q w 0;
        (n2, bits2, q2, w2) \<leftarrow> ackSelect now a 1 bits q1 w1 n;
        Some (n2, q2\<lparr>delAck := a, delAckBits := bits2\<rparr>, w2) }
      else Some (0, q\<lparr>delAck := a, delAckBits := bits\<rparr>, w))"

section \<open>The abstract view\<close>

definition q_at :: "queue \<Rightarrow> u32 \<Rightarrow> packetLoad option" where
  "q_at q s = (let p = packets q ! slot q s in if known p \<and> pl_seq (load p) = s then Some (load p) else None)"

definition queue_inv :: "queue \<Rightarrow> bool" where
  "queue_inv q \<longleftrightarrow> length (packets q) = queueSize \<and> qsize q = of_nat queueSize \<and>
     (\<forall>i < queueSize. known (packets q ! i) \<longrightarrow> slot q (pl_seq (load (packets q ! i))) = i)"

text \<open>The slot table as a whole: a slot holds one load, found under its own number.\<close>

lemma slot_mod: "queue_inv q \<Longrightarrow> slot q s = unat s mod queueSize"
  by (simp add: slot_def queue_inv_def queueSize_def unat_mod)

lemma slot_less [simp]: "queue_inv q \<Longrightarrow> slot q s < length (packets q)"
  by (simp add: slot_mod) (simp add: queue_inv_def queueSize_def)

lemma slot_window_inj:
  assumes "queue_inv q" "slot q s = slot q t" "unat (s - b) < queueSize" "unat (t - b) < queueSize"
  shows "s = t"
proof -
  have m: "unat (b + x) mod queueSize = (unat b + unat x) mod queueSize" for x :: u32
    by (simp add: unat_word_ariths queueSize_def mod_mod_cancel)
  have "(unat b + unat (s - b)) mod queueSize = (unat b + unat (t - b)) mod queueSize"
    using assms(2) m [of "s - b"] m [of "t - b"] by (simp add: slot_mod [OF assms(1)])
  then have "unat (s - b) = unat (t - b)" by (rule mod_add_inj) (use assms in auto)
  then show ?thesis by (simp add: word_unat_eq_iff [symmetric])
qed

lemma queue_Get_at: "queue_Get q offset = q_at q (seq q + offset)"
  by (simp add: queue_Get_def q_at_def Let_def)

lemma q_at_seq: "q_at q s = Some l \<Longrightarrow> pl_seq l = s"
  by (auto simp: q_at_def Let_def split: if_splits)

text \<open>Filling and emptying a slot.\<close>

definition fill :: "queue \<Rightarrow> packetLoad \<Rightarrow> queue" where
  "fill q l = q\<lparr>packets := (packets q)[slot q (pl_seq l) := \<lparr>known = True, load = l\<rparr>]\<rparr>"

definition vacate :: "queue \<Rightarrow> u32 \<Rightarrow> packetLoad \<Rightarrow> queue" where
  "vacate q s l = q\<lparr>packets := (packets q)[slot q s := \<lparr>known = False, load = l\<rparr>]\<rparr>"

lemma fill_sel [simp]: "seq (fill q l) = seq q" "qsize (fill q l) = qsize q" "slot (fill q l) = slot q"
  "packets (fill q l) = (packets q)[slot q (pl_seq l) := \<lparr>known = True, load = l\<rparr>]"
  by (simp_all add: fill_def slot_def fun_eq_iff)

lemma vacate_sel [simp]: "seq (vacate q s l) = seq q" "qsize (vacate q s l) = qsize q" "delAck (vacate q s l) = delAck q"
  "slot (vacate q s l) = slot q"
  "packets (vacate q s l) = (packets q)[slot q s := \<lparr>known = False, load = l\<rparr>]"
  by (simp_all add: vacate_def slot_def fun_eq_iff)

lemma q_at_cong: "packets q' = packets q \<Longrightarrow> qsize q' = qsize q \<Longrightarrow> q_at q' = q_at q"
  by (simp add: q_at_def fun_eq_iff slot_def)

lemma queue_inv_cong: "packets q' = packets q \<Longrightarrow> qsize q' = qsize q \<Longrightarrow> queue_inv q' = queue_inv q"
  by (simp add: queue_inv_def slot_def)

lemma fill_inv [simp]: "queue_inv q \<Longrightarrow> queue_inv (fill q l)"
  using slot_less [of q "pl_seq l"] by (auto simp: queue_inv_def nth_list_update)

lemma vacate_inv [simp]: "queue_inv q \<Longrightarrow> queue_inv (vacate q s l)"
  using slot_less [of q s] by (auto simp: queue_inv_def nth_list_update)

lemma q_at_fill:
  assumes "queue_inv q" "\<And>t. slot q t = slot q (pl_seq l) \<Longrightarrow> t \<noteq> pl_seq l \<Longrightarrow> q_at q t = None"
  shows "q_at (fill q l) = (q_at q)(pl_seq l \<mapsto> l)"
proof
  fix t
  show "q_at (fill q l) t = ((q_at q)(pl_seq l \<mapsto> l)) t"
  proof (cases "slot q t = slot q (pl_seq l)")
    case True
    then have "q_at (fill q l) t = (if pl_seq l = t then Some l else None)"
      using assms(1) by (simp add: q_at_def)
    then show ?thesis using assms(2) [OF True] by auto
  next
    case False
    then show ?thesis by (auto simp: q_at_def)
  qed
qed

lemma q_at_same_slot:
  assumes "q_at q s \<noteq> None" "slot q t = slot q s" "t \<noteq> s"
  shows "q_at q t = None"
  using assms by (auto simp: q_at_def Let_def split: if_splits)

lemma q_at_vacate:
  assumes "queue_inv q" "q_at q s \<noteq> None"
  shows "q_at (vacate q s l) = (q_at q)(s := None)"
proof
  fix t
  show "q_at (vacate q s l) t = ((q_at q)(s := None)) t"
  proof (cases "slot q t = slot q s")
    case True
    then have "q_at (vacate q s l) t = None" using assms(1) by (simp add: q_at_def)
    then show ?thesis using q_at_same_slot [OF assms(2) True] by auto
  next
    case False
    then show ?thesis by (auto simp: q_at_def)
  qed
qed

lemma queue_CloseAndClear_spec:
  assumes "queue_inv q"
  shows "queue_inv (queue_CloseAndClear q)" "q_at (queue_CloseAndClear q) s = None"
    "seq (queue_CloseAndClear q) = seq q"
proof -
  show "q_at (queue_CloseAndClear q) s = None"
    using slot_less [OF assms, of s] by (simp add: q_at_def queue_CloseAndClear_def slot_def Let_def)
qed (use assms in \<open>auto simp: queue_inv_def queue_CloseAndClear_def\<close>)

lemma newQueue_spec [simp]:
  "queue_inv (newQueue queueSize)" "q_at (newQueue queueSize) s = None" "seq (newQueue queueSize) = 0"
proof -
  have "slot (newQueue queueSize) s < queueSize"
    by (simp add: slot_def newQueue_def queueSize_def unat_mod)
  then show "q_at (newQueue queueSize) s = None" by (simp add: q_at_def newQueue_def Let_def slot_def)
qed (simp_all add: queue_inv_def newQueue_def)

section \<open>The operations on the abstract view\<close>

lemma queue_Read_at:
  "queue_Read q = (case q_at q (seq q) of None \<Rightarrow> (None, q)
     | Some l \<Rightarrow> (Some l, (vacate q (seq q) packetLoad_zero)\<lparr>seq := seq q + 1\<rparr>))"
  by (auto simp: queue_Read_def q_at_def vacate_def Let_def)

text \<open>The receive window: everything stored lies in the \<open>size\<close> numbers from \<open>seq\<close> on, so
  two stored numbers never meet in one slot and the replacing branch of \<open>Set\<close> is dead.\<close>

definition recv_inv :: "queue \<Rightarrow> bool" where
  "recv_inv q \<longleftrightarrow> queue_inv q \<and> (\<forall>s. q_at q s \<noteq> None \<longrightarrow> unat (s - seq q) < queueSize)"

lemma known_at:
  assumes "queue_inv q" "known (packets q ! slot q s)"
  shows "q_at q (pl_seq (load (packets q ! slot q s))) = Some (load (packets q ! slot q s))"
proof -
  have "slot q s < queueSize" using slot_less [OF assms(1), of s] assms(1) by (simp add: queue_inv_def)
  then have "slot q (pl_seq (load (packets q ! slot q s))) = slot q s"
    using assms by (simp add: queue_inv_def)
  then show ?thesis using assms(2) by (simp add: q_at_def)
qed

lemma window_qsize: "queue_inv q \<Longrightarrow> (x < qsize q \<longleftrightarrow> unat x < queueSize)"
  by (simp add: queue_inv_def word_less_nat_alt queueSize_def)

lemma recv_slot_free:
  assumes "recv_inv q" "unat (s - seq q) < queueSize" "q_at q s = None"
  shows "\<not> known (packets q ! slot q s)"
proof
  let ?l = "load (packets q ! slot q s)"
  assume k: "known (packets q ! slot q s)"
  have inv: "queue_inv q" using assms(1) by (simp add: recv_inv_def)
  have at: "q_at q (pl_seq ?l) = Some ?l" by (rule known_at [OF inv k])
  then have "unat (pl_seq ?l - seq q) < queueSize" using assms(1) by (simp add: recv_inv_def)
  moreover have "slot q (pl_seq ?l) = slot q s"
    using inv k slot_less [OF inv, of s] by (simp add: queue_inv_def)
  ultimately have "pl_seq ?l = s" using slot_window_inj [OF inv] assms(2) by blast
  then show False using at assms(3) by simp
qed

lemma queue_Set_eq:
  assumes "recv_inv q"
  shows "queue_Set q l = (if unat (pl_seq l - seq q) < queueSize \<and> q_at q (pl_seq l) = None
    then (True, fill q l) else (False, q))"
proof -
  have inv: "queue_inv q" using assms by (simp add: recv_inv_def)
  show ?thesis
    using recv_slot_free [OF assms, of "pl_seq l"] window_qsize [OF inv, of "pl_seq l - seq q"]
    by (auto simp: queue_Set_def q_at_def fill_def Let_def not_less)
qed

lemma recv_fill:
  assumes "recv_inv q" "unat (pl_seq l - seq q) < queueSize" "q_at q (pl_seq l) = None"
  shows "q_at (fill q l) = (q_at q)(pl_seq l \<mapsto> l)" "recv_inv (fill q l)"
proof -
  have inv: "queue_inv q" using assms by (simp add: recv_inv_def)
  have "q_at q t = None" if "slot q t = slot q (pl_seq l)" for t
    using recv_slot_free [OF assms] that by (simp add: q_at_def)
  then show at: "q_at (fill q l) = (q_at q)(pl_seq l \<mapsto> l)" by (intro q_at_fill inv)
  show "recv_inv (fill q l)" using assms inv by (auto simp: recv_inv_def at)
qed

lemma recv_take:
  assumes "recv_inv q" "q_at q (seq q) = Some l"
  defines "q' \<equiv> (vacate q (seq q) packetLoad_zero)\<lparr>seq := seq q + 1\<rparr>"
  shows "q_at q' = (q_at q)(seq q := None)" "recv_inv q'" "seq q' = seq q + 1"
proof -
  have inv: "queue_inv q" using assms by (simp add: recv_inv_def)
  have "q_at q' = q_at (vacate q (seq q) packetLoad_zero)" by (rule q_at_cong) (simp_all add: q'_def)
  with q_at_vacate [OF inv] assms show at: "q_at q' = (q_at q)(seq q := None)" by simp
  have "queue_inv q'" using inv vacate_inv [OF inv]
    by (metis q'_def queue_inv_cong queue.select_convs(1,3) queue.update_convs(2) queue.surjective)
  moreover have "unat (s - (seq q + 1)) < queueSize" if "s \<noteq> seq q" "unat (s - seq q) < queueSize" for s
  proof -
    have "s - seq q \<noteq> 0" using that by simp
    then have "unat (s - seq q - 1) = unat (s - seq q) - 1" by (metis unat_minus_one)
    then show ?thesis using that by (simp add: diff_diff_eq)
  qed
  moreover show sq: "seq q' = seq q + 1" by (simp add: q'_def)
  ultimately show "recv_inv q'" using assms(1) unfolding recv_inv_def at sq by auto
qed

text \<open>The selective bits of an acknowledgement tell exactly which later packets are stored.\<close>

lemma bit_ackLoop:
  "offset + k \<le> 32 \<Longrightarrow> bit (ackLoop q offset k bits) i \<longleftrightarrow>
     bit bits i \<or> (offset \<le> i \<and> i < offset + k \<and> q_at q (seq q + 1 + of_nat i) \<noteq> None)"
proof (induction q offset k bits rule: ackLoop.induct)
  case (2 q offset k bits)
  let ?s = "seq q + 1 + of_nat offset"
  have "bit (push_bit offset 1 :: u32) i \<longleftrightarrow> i = offset" using 2(2) by (auto simp: bit_simps)
  then show ?case using 2
    by (cases "q_at q ?s")
      (auto simp: Let_def bit_or_iff q_at_def less_Suc_eq le_less Suc_le_eq split: if_splits)
qed auto

lemma queue_GetAck_spec:
  assumes "queue_inv q"
  shows "fst (queue_GetAck q) = seq q"
    "bit (snd (queue_GetAck q)) i \<longleftrightarrow> i < 32 \<and> q_at q (seq q + 1 + of_nat i) \<noteq> None"
proof -
  have "\<not> qsize q < 32" using assms by (simp add: queue_inv_def queueSize_def)
  then show "bit (snd (queue_GetAck q)) i \<longleftrightarrow> i < 32 \<and> q_at q (seq q + 1 + of_nat i) \<noteq> None"
    by (simp add: queue_GetAck_def Let_def bit_ackLoop)
qed (simp add: queue_GetAck_def Let_def)

section \<open>Acknowledgements\<close>

lemma queue_clear_at:
  "queue_clear now q s (Some w) =
     (case q_at q s of None \<Rightarrow> Some (False, q, Some w)
      | Some l \<Rightarrow> map_option (\<lambda>w'. (True, vacate q s (packetLoad_free l), Some w'))
                   (Window_Append w (now s - pl_timestamp l)))"
  by (cases "Window_Append w (now s - pl_timestamp (load (packets q ! slot q s)))")
    (auto simp: queue_clear_def q_at_def vacate_def Let_def)

text \<open>Clearing one packet; \<open>drop_at\<close> is its effect on the abstract view.\<close>

definition drop_at :: "queue \<Rightarrow> u32 set \<Rightarrow> queue \<Rightarrow> bool" where
  "drop_at q S q' \<longleftrightarrow> queue_inv q' \<and> q_at q' = (\<lambda>s. if s \<in> S then None else q_at q s)"

lemma queue_clear_spec:
  assumes "queue_inv q" "queue_clear now q s (Some w) = Some (b, q', w')"
  shows "drop_at q {s} q'" "seq q' = seq q" "qsize q' = qsize q" "delAck q' = delAck q" "b \<longleftrightarrow> q_at q s \<noteq> None"
    "\<exists>win. w' = Some win"
  using assms q_at_vacate [OF assms(1), of s]
  by (auto simp: queue_clear_at drop_at_def fun_eq_iff split: option.splits)

lemma drop_at_trans: "drop_at q S q' \<Longrightarrow> drop_at q' T q'' \<Longrightarrow> drop_at q (S \<union> T) q''"
  by (auto simp: drop_at_def fun_eq_iff)

lemma drop_at_seq: "drop_at q S q' \<Longrightarrow> drop_at q S (q'\<lparr>seq := x\<rparr>)"
  using q_at_cong [of "q'\<lparr>seq := x\<rparr>" q'] queue_inv_cong [of "q'\<lparr>seq := x\<rparr>" q'] by (simp add: drop_at_def)

lemma unat_Suc_below:
  assumes "(x :: u32) < a"
  shows "unat (x + 1) = unat x + 1"
proof -
  have "unat a < 2 ^ 32" using unsigned_less [of a] by simp
  then have "unat x + 1 < 2 ^ 32" using assms by (simp add: word_less_nat_alt)
  then show ?thesis using unat_add_of_nat [of x 1] by simp
qed

lemma word_range_step:
  assumes "(x :: u32) < a"
  shows "{x} \<union> {x + 1..<a} = {x..<a}"
proof -
  have "unat (x + 1) = unat x + 1" by (rule unat_Suc_below [OF assms])
  then have "x + 1 \<le> s \<longleftrightarrow> x < s" for s unfolding word_less_nat_alt word_le_nat_alt by linarith
  then have "{x + 1..<a} = {x<..<a}" by (intro set_eqI) (simp only: atLeastLessThan_iff greaterThanLessThan_iff)
  moreover have "{x} \<union> {x<..<a} = {x..<a}" using assms by (auto simp: le_less)
  ultimately show ?thesis by (simp only:)
qed

lemma ackUpTo_spec:
  assumes "queue_inv q" "ackUpTo now a q w n = Some (n', q', w')"
  shows "drop_at q {seq q..<a} q' \<and> seq q' = max (seq q) a \<and> qsize q' = qsize q \<and> n \<le> n'"
  using assms
proof (induction now a q w n arbitrary: n' q' w' rule: ackUpTo.induct)
  case (1 now a q w n)
  show ?case
  proof (cases "seq q < a")
    case False
    then have "n' = n" "q' = q" using 1(3) ackUpTo.simps [of now a q w n] by simp_all
    then show ?thesis using 1(2) False by (simp add: drop_at_def fun_eq_iff max_def not_less)
  next
    case True
    then obtain b q1 w1 where c: "queue_clear now q (seq q) (Some w) = Some (b, q1, w1)"
      and rec: "ackUpTo now a (q1\<lparr>seq := seq q + 1\<rparr>) (the w1) (if b then n + 1 else n) = Some (n', q', w')"
      using 1(3) ackUpTo.simps [of now a q w n]
      by (auto simp: bind_eq_Some_conv split: prod.splits)
    note s = queue_clear_spec [OF 1(2) c]
    have d: "drop_at q {seq q} (q1\<lparr>seq := seq q + 1\<rparr>)" using s(1) by (rule drop_at_seq)
    have "drop_at (q1\<lparr>seq := seq q + 1\<rparr>) {seq q + 1..<a} q' \<and> seq q' = max (seq q + 1) a \<and>
        qsize q' = qsize q \<and> n \<le> n'"
      using 1(1) [OF True c refl refl _ rec] d s(3) by (auto simp: drop_at_def split: if_splits)
    moreover have "max (seq q + 1) a = max (seq q) a" using True by (metis inc_le max_absorb2 order_less_imp_le)
    ultimately show ?thesis using drop_at_trans [OF d] word_range_step [OF True] by metis
  qed
qed

definition selected :: "u32 \<Rightarrow> u32 \<Rightarrow> u32 set" where
  "selected a bits = {a + of_nat k | k. bit bits k}"

lemma selected_shift:
  "selected a bits = (if bit bits 0 then {a} else {}) \<union> selected (a + 1) (drop_bit 1 bits)"
proof (intro set_eqI iffI)
  fix s assume "s \<in> selected a bits"
  then obtain k where k: "s = a + of_nat k" "bit bits k" by (auto simp: selected_def)
  show "s \<in> (if bit bits 0 then {a} else {}) \<union> selected (a + 1) (drop_bit 1 bits)"
  proof (cases k)
    case 0
    then show ?thesis using k by simp
  next
    case (Suc m)
    then have "s = a + 1 + of_nat m" "bit (drop_bit 1 bits) m" using k by (simp_all add: bit_simps)
    then show ?thesis unfolding selected_def by blast
  qed
next
  fix s assume "s \<in> (if bit bits 0 then {a} else {}) \<union> selected (a + 1) (drop_bit 1 bits)"
  then consider "s = a + of_nat 0" "bit bits 0" | m where "s = a + of_nat (Suc m)" "bit bits (Suc m)"
    by (auto simp: selected_def bit_simps add_ac split: if_splits)
  then show "s \<in> selected a bits" unfolding selected_def by cases blast+
qed

lemma ackSelect_spec:
  assumes "queue_inv q" "ackSelect now a offset bits q w n = Some (n', bits', q', w')"
  shows "drop_at q (selected (a + offset) bits) q' \<and> seq q' = seq q \<and> qsize q' = qsize q \<and> bits' = 0 \<and> n \<le> n'"
  using assms
proof (induction now a offset bits q w n arbitrary: n' bits' q' w' rule: ackSelect.induct)
  case (1 now a offset bits q w n)
  have b0: "bits AND 1 \<noteq> 0 \<longleftrightarrow> bit bits 0"
    by (simp add: and_one_eq odd_iff_mod_2_eq_one bit_0)
  note unf = ackSelect.simps [of now a offset bits q w n]
  have sh: "selected (a + offset) bits =
      (if bit bits 0 then {a + offset} else {}) \<union> selected (a + (offset + 1)) (drop_bit 1 bits)"
    using selected_shift [of "a + offset" bits] by (simp add: add_ac)
  note prems = 1(3,4)
  consider "bits = 0" | "bits \<noteq> 0" "bit bits 0" | "bits \<noteq> 0" "\<not> bit bits 0" by blast
  then show ?case
  proof cases
    case z: 1
    then show ?thesis using prems unf
      by (simp add: drop_at_def selected_def)
  next
    case o: 2
    then obtain b q1 w1 where c: "queue_clear now q (a + offset) (Some w) = Some (b, q1, w1)"
      and rec: "ackSelect now a (offset + 1) (drop_bit 1 bits) q1 (the w1) (if b then n + 1 else n)
         = Some (n', bits', q', w')"
      using prems(2) unf b0 by (auto simp: bind_eq_Some_conv split: prod.splits)
    note s = queue_clear_spec [OF prems(1) c]
    have "queue_inv q1" using s(1) by (simp add: drop_at_def)
    with 1(1) [OF o(1) _ c refl refl _ rec] b0 o(2) s
    have "drop_at q1 (selected (a + (offset + 1)) (drop_bit 1 bits)) q'" "seq q' = seq q"
      "qsize q' = qsize q" "bits' = 0" "n \<le> n'" by (auto split: if_splits)
    then show ?thesis using drop_at_trans [OF s(1)] sh o by auto
  next
    case e: 3
    then show ?thesis
      using 1(2) [OF e(1) _ prems(1)] prems(2) unf b0 sh e by auto
  qed
qed

text \<open>The whole of \<open>Ack\<close>: below the cumulative number and at the selected bits the packets
  are dropped, and nothing else is; the window moves up to the cumulative number.\<close>

definition acked :: "u32 \<Rightarrow> u32 \<Rightarrow> u32 \<Rightarrow> u32 set" where
  "acked base a bits = {base..<a} \<union> selected (a + 1) bits"

lemma queue_Ack_spec:
  assumes "queue_inv q" "queue_Ack now q a bits w = Some (n, q', w')"
  shows "queue_inv q'" "qsize q' = qsize q"
    "drop_at q (acked (seq q) a bits) q' \<and> seq q' = max (seq q) a \<or> q_at q' = q_at q \<and> seq q' = seq q"
proof -
  consider "delAck q = a \<and> delAckBits q = bits" "q' = q"
    | "\<not> a - seq q \<le> qsize q" "q' = q\<lparr>delAck := a, delAckBits := bits\<rparr>"
    | n1 q1 w1 b2 q2 w2 where "ackUpTo now a q w 0 = Some (n1, q1, w1)"
      "ackSelect now a 1 bits q1 w1 n1 = Some (n, b2, q2, w2)" "q' = q2\<lparr>delAck := a, delAckBits := b2\<rparr>"
    using assms(2) unfolding queue_Ack_def by (auto simp: bind_eq_Some_conv split: if_splits)
  then have "queue_inv q' \<and> qsize q' = qsize q \<and> (drop_at q (acked (seq q) a bits) q' \<and> seq q' = max (seq q) a
      \<or> q_at q' = q_at q \<and> seq q' = seq q)"
  proof cases
    case 2
    then show ?thesis using assms(1) q_at_cong [of q' q] queue_inv_cong [of q' q] by simp
  next
    case 3
    note u = ackUpTo_spec [OF assms(1) 3(1)]
    then have "queue_inv q1" by (simp add: drop_at_def)
    note v = ackSelect_spec [OF this 3(2)]
    have "drop_at q (acked (seq q) a bits) q2" using drop_at_trans u v unfolding acked_def by blast
    then have "drop_at q (acked (seq q) a bits) q'"
      using q_at_cong [of q' q2] queue_inv_cong [of q' q2] 3(3) by (simp add: drop_at_def)
    then show ?thesis using u v 3(3) by (simp add: drop_at_def)
  qed (use assms in simp)
  then show "queue_inv q'" "qsize q' = qsize q"
    "drop_at q (acked (seq q) a bits) q' \<and> seq q' = max (seq q) a \<or> q_at q' = q_at q \<and> seq q' = seq q"
    by auto
qed

text \<open>With a clock that does not run backwards \<open>Ack\<close> does not panic.\<close>

definition stamped :: "(u32 \<Rightarrow> int) \<Rightarrow> queue \<Rightarrow> bool" where
  "stamped now q \<longleftrightarrow> (\<forall>s l. q_at q s = Some l \<longrightarrow> pl_timestamp l \<le> now s)"

lemma stamped_drop: "stamped now q \<Longrightarrow> drop_at q S q' \<Longrightarrow> stamped now q'"
  by (auto simp: stamped_def drop_at_def split: if_splits)

lemma queue_clear_total:
  assumes "stamped now q"
  obtains b q' w' where "queue_clear now q s (Some w) = Some (b, q', Some w')"
proof (cases "q_at q s")
  case None
  then show ?thesis using that by (auto simp: queue_clear_at)
next
  case (Some l)
  then have "pl_timestamp l \<le> now s" using assms unfolding stamped_def by blast
  then have "\<not> now s - pl_timestamp l < 0" by simp
  then show ?thesis using that Some by (simp add: queue_clear_at Window_Append_def Let_def)
qed

lemma ackUpTo_total: "queue_inv q \<Longrightarrow> stamped now q \<Longrightarrow> ackUpTo now a q w n \<noteq> None"
proof (induction now a q w n rule: ackUpTo.induct)
  case (1 now a q w n)
  obtain b q1 w1 where c: "queue_clear now q (seq q) (Some w) = Some (b, q1, Some w1)"
    by (rule queue_clear_total [OF 1(3)])
  note s = queue_clear_spec [OF 1(2) c]
  let ?q = "q1\<lparr>seq := seq q + 1\<rparr>"
  have d: "drop_at q {seq q} ?q" using s(1) by (rule drop_at_seq)
  show ?case
  proof (cases "seq q < a")
    case True
    then show ?thesis using 1(1) [OF True c refl refl] stamped_drop [OF 1(3) d] d c
        ackUpTo.simps [of now a q w n] by (simp add: drop_at_def)
  qed (simp add: ackUpTo.simps [of now a q w n])
qed

lemma ackSelect_total: "queue_inv q \<Longrightarrow> stamped now q \<Longrightarrow> ackSelect now a offset bits q w n \<noteq> None"
proof (induction now a offset bits q w n rule: ackSelect.induct)
  case (1 now a offset bits q w n)
  obtain b q1 w1 where c: "queue_clear now q (a + offset) (Some w) = Some (b, q1, Some w1)"
    by (rule queue_clear_total [OF 1(4)])
  note s = queue_clear_spec [OF 1(3) c]
  note unf = ackSelect.simps [of now a offset bits q w n]
  consider "bits = 0" | "bits \<noteq> 0" "bits AND 1 \<noteq> 0" | "bits \<noteq> 0" "\<not> bits AND 1 \<noteq> 0" by blast
  then show ?case
  proof cases
    case z: 1
    then show ?thesis using unf by simp
  next
    case o: 2
    then show ?thesis using 1(1) [OF o c refl refl] stamped_drop [OF 1(4) s(1)] s(1) c unf
      by (simp add: drop_at_def)
  next
    case e: 3
    then show ?thesis using 1(2) [OF e 1(3,4)] unf by simp
  qed
qed

lemma queue_Ack_total:
  assumes "queue_inv q" "stamped now q"
  shows "queue_Ack now q a bits w \<noteq> None"
proof -
  obtain n1 q1 w1 where u: "ackUpTo now a q w 0 = Some (n1, q1, w1)"
    using ackUpTo_total [OF assms, of a w 0] by auto
  have d: "drop_at q {seq q..<a} q1" using ackUpTo_spec [OF assms(1) u] by simp
  then have "ackSelect now a 1 bits q1 w1 n1 \<noteq> None"
    using stamped_drop [OF assms(2) d] by (intro ackSelect_total) (simp_all add: drop_at_def)
  then show ?thesis using u by (auto simp: queue_Ack_def)
qed

end
