(* ===== verification/Rdp_Window.thy ===== *)
theory Rdp_Window
  imports Rdp_Queue
begin

text \<open>
  The Go interfaces \<open>recvQueue\<close> and \<open>sendQueue\<close> of \<open>rdp/queue.go\<close> as locales, with
  the facts a connection relies on proved once inside them, and their interpretation on the
  queue. A receive window hands out loads in the order of their numbers whatever the order in
  which they arrive; a send window keeps a load until it is acknowledged.
\<close>

section \<open>The receive window\<close>

datatype recv_op = RSet packetLoad | RRead

fun run_recv :: "('q \<Rightarrow> packetLoad \<Rightarrow> bool \<times> 'q) \<Rightarrow> ('q \<Rightarrow> packetLoad option \<times> 'q) \<Rightarrow>
    recv_op list \<Rightarrow> 'q \<Rightarrow> packetLoad list \<times> 'q" where
  "run_recv rset rread [] q = ([], q)"
| "run_recv rset rread (RSet l # ops) q = run_recv rset rread ops (snd (rset q l))"
| "run_recv rset rread (RRead # ops) q =
     (case rread q of (None, q') \<Rightarrow> run_recv rset rread ops q'
      | (Some l, q') \<Rightarrow> let (ls, q'') = run_recv rset rread ops q' in (l # ls, q''))"

locale recv_window =
  fixes rset :: "'q \<Rightarrow> packetLoad \<Rightarrow> bool \<times> 'q"
    and rread :: "'q \<Rightarrow> packetLoad option \<times> 'q"
    and rnext :: "'q \<Rightarrow> u32"
    and rat :: "'q \<Rightarrow> u32 \<Rightarrow> packetLoad option"
    and rinv :: "'q \<Rightarrow> bool"
  assumes set_accepts: "rinv q \<Longrightarrow>
      fst (rset q l) \<longleftrightarrow> unat (pl_seq l - rnext q) < queueSize \<and> rat q (pl_seq l) = None"
    and set_state: "rinv q \<Longrightarrow> rinv (snd (rset q l)) \<and> rnext (snd (rset q l)) = rnext q \<and>
      rat (snd (rset q l)) = (if fst (rset q l) then (rat q)(pl_seq l \<mapsto> l) else rat q)"
    and read_result: "rinv q \<Longrightarrow> fst (rread q) = rat q (rnext q)"
    and read_state: "rinv q \<Longrightarrow> rinv (snd (rread q)) \<and> (if rat q (rnext q) = None then snd (rread q) = q
      else rnext (snd (rread q)) = rnext q + 1 \<and> rat (snd (rread q)) = (rat q)(rnext q := None))"
    and at_number: "rinv q \<Longrightarrow> rat q s = Some l \<Longrightarrow> pl_seq l = s"
    and at_window: "rinv q \<Longrightarrow> rat q s \<noteq> None \<Longrightarrow> unat (s - rnext q) < queueSize"
begin

text \<open>Whatever loads are set in whatever order, with duplicates and gaps, what is read is the
  consecutive run of numbers from the next expected one, each load being one that was stored or
  set (\<open>G\<close> is any property those loads have).\<close>

lemma in_order:
  assumes "rinv q" "\<And>s l. rat q s = Some l \<Longrightarrow> G l" "\<And>l. RSet l \<in> set ops \<Longrightarrow> G l"
    "run_recv rset rread ops q = (out, q')"
  shows "rinv q' \<and> rnext q' = rnext q + of_nat (length out) \<and>
    map pl_seq out = map (\<lambda>k. rnext q + of_nat k) [0..<length out] \<and> (\<forall>l \<in> set out. G l)"
  using assms
proof (induction ops arbitrary: q out q')
  case (Cons op ops)
  show ?case
  proof (cases op)
    case (RSet l)
    let ?q = "snd (rset q l)"
    have st: "rinv ?q" "rnext ?q = rnext q"
      "rat ?q = (if fst (rset q l) then (rat q)(pl_seq l \<mapsto> l) else rat q)"
      using set_state [OF Cons.prems(1), of l] by auto
    have "G l" using Cons.prems(3) RSet by simp
    then have "rat ?q s = Some l' \<Longrightarrow> G l'" for s l' using st(3) Cons.prems(2) by (auto split: if_splits)
    from Cons.IH [OF st(1) this] Cons.prems(3,4) st(2) RSet show ?thesis by auto
  next
    case RRead
    note st = read_state [OF Cons.prems(1)] and res = read_result [OF Cons.prems(1)]
    show ?thesis
    proof (cases "rat q (rnext q)")
      case None
      then have "rread q = (None, q)" using st res by (metis prod.collapse)
      then show ?thesis using Cons.IH [OF Cons.prems(1,2)] Cons.prems(3,4) RRead by simp
    next
      case (Some l)
      obtain q1 where r: "rread q = (Some l, q1)" using res Some by (metis prod.collapse)
      have q1: "rinv q1" "rnext q1 = rnext q + 1" "rat q1 = (rat q)(rnext q := None)" using st r Some by simp_all
      obtain ls where ls: "run_recv rset rread ops q1 = (ls, q')" "out = l # ls"
        using Cons.prems(4) RRead r by (auto split: prod.splits)
      have "rat q1 s = Some l' \<Longrightarrow> G l'" for s l' using q1(3) Cons.prems(2) by (auto split: if_splits)
      note ih = Cons.IH [OF q1(1) this _ ls(1)]
      have "map (\<lambda>k. rnext q + of_nat k) [0..<Suc (length ls)] =
          rnext q # map (\<lambda>k. rnext q + 1 + of_nat k) [0..<length ls]"
        by (simp only: map_upt_Suc) (simp add: add_ac)
      then show ?thesis using ih ls(2) q1(2) Cons.prems(2) [OF Some] at_number [OF Cons.prems(1) Some]
          Cons.prems(3) by (auto simp del: upt_Suc)
    qed
  qed
qed simp

text \<open>The load the reader waits for is never refused, and once it is set the next read gives it.\<close>

lemma next_accepted:
  assumes "rinv q" "pl_seq l = rnext q" "rat q (rnext q) = None"
  shows "fst (rset q l)" "fst (rread (snd (rset q l))) = Some l"
proof -
  show a: "fst (rset q l)" using set_accepts [OF assms(1), of l] assms by (simp add: queueSize_def)
  show "fst (rread (snd (rset q l))) = Some l"
    using set_state [OF assms(1), of l] a assms read_result [of "snd (rset q l)"] by simp
qed

text \<open>Nothing that arrived is dropped: a number once passed or stored stays so.\<close>

lemma keeps:
  assumes "rinv q" "rat q s \<noteq> None"
  shows "rat (snd (rset q l)) s \<noteq> None"
    "rat (snd (rread q)) s \<noteq> None \<or> (s = rnext q \<and> rnext (snd (rread q)) = rnext q + 1)"
  using set_state [OF assms(1), of l] read_state [OF assms(1)] assms(2) by (auto split: if_splits)

end

interpretation recvq: recv_window queue_Set queue_Read seq q_at recv_inv
proof unfold_locales
  fix q l assume inv: "recv_inv q"
  show "fst (queue_Set q l) \<longleftrightarrow> unat (pl_seq l - seq q) < queueSize \<and> q_at q (pl_seq l) = None"
    by (simp add: queue_Set_eq [OF inv])
  show "recv_inv (snd (queue_Set q l)) \<and> seq (snd (queue_Set q l)) = seq q \<and>
      q_at (snd (queue_Set q l)) = (if fst (queue_Set q l) then (q_at q)(pl_seq l \<mapsto> l) else q_at q)"
    using recv_fill [OF inv, of l] inv by (simp add: queue_Set_eq [OF inv])
next
  fix q assume inv: "recv_inv q"
  show "fst (queue_Read q) = q_at q (seq q)"
    by (simp add: queue_Read_at split: option.split)
  show "recv_inv (snd (queue_Read q)) \<and> (if q_at q (seq q) = None then snd (queue_Read q) = q
      else seq (snd (queue_Read q)) = seq q + 1 \<and> q_at (snd (queue_Read q)) = (q_at q)(seq q := None))"
    using recv_take [OF inv] inv by (auto simp: queue_Read_at split: option.split)
qed (auto simp: q_at_seq recv_inv_def)

section \<open>The send window\<close>

text \<open>\<open>sinv q n\<close>: the window is well-formed and \<open>n\<close> is the next number to be used.\<close>

locale send_window =
  fixes swrite :: "'q \<Rightarrow> packetLoad \<Rightarrow> bool \<times> 'q"
    and sget :: "'q \<Rightarrow> u32 \<Rightarrow> packetLoad option"
    and sack :: "(u32 \<Rightarrow> int) \<Rightarrow> 'q \<Rightarrow> u32 \<Rightarrow> u32 \<Rightarrow> Window \<Rightarrow> (nat \<times> 'q \<times> Window) option"
    and sbase :: "'q \<Rightarrow> u32"
    and sat :: "'q \<Rightarrow> u32 \<Rightarrow> packetLoad option"
    and sinv :: "'q \<Rightarrow> bool"
  assumes write_state: "sinv q \<Longrightarrow> sinv (snd (swrite q l)) \<and> sbase (snd (swrite q l)) = sbase q \<and>
      sat (snd (swrite q l)) = (if fst (swrite q l) then (sat q)(pl_seq l \<mapsto> l) else sat q)"
    and get_at: "sinv q \<Longrightarrow> sget q k = sat q (sbase q + k)"
    and at_number: "sinv q \<Longrightarrow> sat q s = Some l \<Longrightarrow> pl_seq l = s"
    and ack_state: "sinv q \<Longrightarrow> sack now q a bits w = Some (n, q', w') \<Longrightarrow> sinv q' \<and>
      (\<forall>s. sat q' s = sat q s \<or> (sat q' s = None \<and> s \<in> acked (sbase q) a bits))"
begin

text \<open>An acknowledgement only removes what it names, and leaves every other load as it was.\<close>

lemma ack_keeps:
  assumes "sinv q" "sack now q a bits w = Some (n, q', w')" "s \<notin> acked (sbase q) a bits"
  shows "sat q' s = sat q s"
  using ack_state [OF assms(1,2)] assms(3) by blast

lemma ack_only_removes:
  assumes "sinv q" "sack now q a bits w = Some (n, q', w')" "sat q' s = Some l"
  shows "sat q s = Some l"
  using ack_state [OF assms(1,2)] assms(3) by (metis option.distinct(1))

lemma get_number: "sinv q \<Longrightarrow> sget q k = Some l \<Longrightarrow> pl_seq l = sbase q + k \<and> sat q (pl_seq l) = Some l"
  using get_at at_number by metis

end

lemma queue_Write_eq:
  "queue_Write q l = (if known (packets q ! slot q (pl_seq l)) \<and> q_at q (pl_seq l) = None then (False, q)
    else (True, fill q l))"
  by (auto simp: queue_Write_def q_at_def fill_def Let_def)

lemma queue_Write_fill:
  assumes "queue_inv q" "\<not> (known (packets q ! slot q (pl_seq l)) \<and> q_at q (pl_seq l) = None)"
  shows "q_at (fill q l) = (q_at q)(pl_seq l \<mapsto> l)"
  using assms by (intro q_at_fill) (auto simp: q_at_def Let_def split: if_splits)

interpretation sendq: send_window queue_Write queue_Get queue_Ack seq q_at queue_inv
proof unfold_locales
  fix q l assume inv: "queue_inv q"
  show "queue_inv (snd (queue_Write q l)) \<and> seq (snd (queue_Write q l)) = seq q \<and>
      q_at (snd (queue_Write q l)) = (if fst (queue_Write q l) then (q_at q)(pl_seq l \<mapsto> l) else q_at q)"
    using queue_Write_fill [OF inv, of l] inv by (simp add: queue_Write_eq)
next
  fix now and q :: queue and a bits w n q' w'
  assume "queue_inv q" "queue_Ack now q a bits w = Some (n, q', w')"
  from queue_Ack_spec [OF this]
  show "queue_inv q' \<and> (\<forall>s. q_at q' s = q_at q s \<or> (q_at q' s = None \<and> s \<in> acked (seq q) a bits))"
    by (auto simp: drop_at_def split: if_splits)
qed (auto simp: queue_Get_at q_at_seq)

end
