(* ===== verification/Rdp_Conn.thy ===== *)
theory Rdp_Conn
  imports Rdp_Window Channels
begin

text \<open>
  A connection of the reliable protocol, \<open>rdp/conn.go\<close>. The state is the record
  \<open>RdpConn\<close>; the dispatcher is seen through \<open>batchFill\<close>, which appends a datagram with
  its checksum to \<open>c_out\<close>, the messages queued for \<open>c_remote\<close>. The process-wide counters
  of \<open>rdp/metric.go\<close> are the field \<open>c_metrics\<close>.

  What a call takes from outside is explicit: \<open>env\<close> gives the buffers \<open>getBuffer\<close> hands
  out and the readings of the clock; a list of events says what happens while the call waits (a
  datagram dispatched to the connection, a close, the deadline, a tick, the read lock becoming
  free, the reading goroutine handling a packet). A call that still waits when the list ends is
  \<open>Blocked\<close>. \<open>None\<close> is a panic, and for the two loops that may run forever
  (\<open>writeContext\<close> with a split size of zero, \<open>readContext\<close>) also not returning.
\<close>

section \<open>Data\<close>

definition defaultMaxSplitPacketSize :: int where "defaultMaxSplitPacketSize = 500"
definition defaultRedundantNum :: u32 where "defaultRedundantNum = 5"

record UDPAddr =
  IP :: bytes
  Port :: nat

record Metric =
  SendBytes :: u64
  RecvBytes :: u64
  SendPackets :: u64
  RecvPackets :: u64
  UDPSendBytes :: u64
  UDPRecvBytes :: u64
  UDPSendPackets :: u64
  UDPRecvPackets :: u64
  ConnectionNum :: int
  WriteBlockRetransmit :: int
  CheckSumErr :: u64

definition Metric_zero :: Metric where
  "Metric_zero = \<lparr>SendBytes = 0, RecvBytes = 0, SendPackets = 0, RecvPackets = 0, UDPSendBytes = 0,
     UDPRecvBytes = 0, UDPSendPackets = 0, UDPRecvPackets = 0, ConnectionNum = 0,
     WriteBlockRetransmit = 0, CheckSumErr = 0\<rparr>"

record incomingPacket =
  ip_header :: packetHeader
  ip_body :: "bytes option"
  ip_size :: nat

definition incomingPacket_slice :: "incomingPacket \<Rightarrow> bytes option" where
  "incomingPacket_slice p = do {
     body \<leftarrow> ip_body p;
     if ip_size p \<le> length body then Some (take (ip_size p) body) else None }"

record RdpConn =
  c_read :: "incomingPacket switchQ"
  c_remote :: UDPAddr
  c_send :: queue
  c_recv :: queue
  c_seq :: u32
  c_lastSeen :: int
  c_w :: Window
  c_closeFlag :: nat
  c_writeBuf :: bytes
  c_flushBuf :: bytes
  c_maxSplitSize :: int
  c_redundantNum :: u32
  c_haveReadData :: int
  c_out :: "bytes list"
  c_metrics :: Metric

definition NewRdpConn :: "UDPAddr \<Rightarrow> int \<Rightarrow> Metric \<Rightarrow> RdpConn" where
  "NewRdpConn remote now m = \<lparr>c_read = switchQ_Init, c_remote = remote, c_send = newQueue queueSize,
     c_recv = newQueue queueSize, c_seq = 0, c_lastSeen = now, c_w = Window_zero, c_closeFlag = 0,
     c_writeBuf = replicate mtu 0, c_flushBuf = replicate mtu 0,
     c_maxSplitSize = defaultMaxSplitPacketSize, c_redundantNum = defaultRedundantNum,
     c_haveReadData = 0, c_out = [], c_metrics = m\<rparr>"

datatype rdpErr = ErrConnClosed | ErrMTUExceeded | ErrMaxLoadSizeExceeded | ErrDeadline | ErrQueueClosed
  | ErrClosedPipe

record env =
  e_pool :: "nat \<Rightarrow> bytes" \<comment> \<open>the buffers the pool hands out\<close>
  e_now :: int
  e_clk :: "u32 \<Rightarrow> int" \<comment> \<open>\<open>nowMs()\<close> when the packet of that number is cleared\<close>

datatype net_event = EvArrive incomingPacket | EvClose | EvDone | EvTick | EvReadMu | EvTransfer incomingPacket

section \<open>Closing\<close>

definition isClosed :: "RdpConn \<Rightarrow> bool" where
  "isClosed c \<longleftrightarrow> c_closeFlag c > 0"

definition closeConn :: "RdpConn \<Rightarrow> RdpConn" where
  "closeConn c = c\<lparr>c_closeFlag := c_closeFlag c + 1\<rparr>"

definition safeCloseRead :: "RdpConn \<Rightarrow> rdpErr option \<times> RdpConn" where
  "safeCloseRead c =
     (if isClosed c then (Some ErrClosedPipe, c)
      else let c = closeConn c in
        (None, c\<lparr>c_send := queue_CloseAndClear (c_send c), c_recv := queue_CloseAndClear (c_recv c),
                 c_read := switchQ_Close (c_read c)\<rparr>))"

definition SetMaxSplitSize :: "RdpConn \<Rightarrow> int \<Rightarrow> RdpConn" where
  "SetMaxSplitSize c n = c\<lparr>c_maxSplitSize := n\<rparr>"

definition SetRedundantNum :: "RdpConn \<Rightarrow> u32 \<Rightarrow> RdpConn" where
  "SetRedundantNum c redu = (if redu > 10 then c else c\<lparr>c_redundantNum := redu\<rparr>)"

section \<open>Sending a datagram\<close>

text \<open>\<open>crcConn.batchFill\<close> of \<open>rdp/checksum.go\<close> with \<open>XConnBatch.fillWriteQueue\<close>: the
  error, the connection and the buffer after the checksum was written into it.\<close>

definition batchFill :: "RdpConn \<Rightarrow> bytes \<Rightarrow> nat \<Rightarrow> rdpErr option \<times> RdpConn \<times> bytes" where
  "batchFill c packet n =
     (let (n', packet') = putCheckSum packet n in
      if n' = 0 then (Some ErrMTUExceeded, c, packet')
      else (None, c\<lparr>c_out := c_out c @ [take n' packet']\<rparr>, packet'))"

function (sequential) sendBatch :: "env \<Rightarrow> RdpConn \<Rightarrow> bytes \<Rightarrow> nat \<Rightarrow> bool \<Rightarrow> rdpErr option \<times> RdpConn \<times> bytes"
  and sendAckByRead :: "env \<Rightarrow> RdpConn \<Rightarrow> rdpErr option \<times> RdpConn" where
  "sendBatch env c buf n writeAck =
     (if isClosed c then (Some ErrConnClosed, c, buf)
      else let c = (if writeAck
                    then let c' = c\<lparr>c_haveReadData := 0\<rparr> in
                      if c_haveReadData c > 0 then snd (sendAckByRead env c') else c'
                    else c)
           in batchFill c buf n)"
| "sendAckByRead env c =
     (let (a, bits) = queue_GetAck (c_recv c);
          (n, packet) = packetHeader_writeTo \<lparr>packetKind = packetAck, ack = a, ackBits = bits\<rparr> (e_pool env 1);
          (err, c', _) = sendBatch env c packet n False
      in (err, c'))"
  by pat_completeness auto
termination
  by (relation "measure (case_sum (\<lambda>(env, c, buf, n, writeAck). if writeAck then 2 else 0) (\<lambda>_. 1))") auto

declare sendBatch.simps [simp del] sendAckByRead.simps [simp del]

definition sendAckBySelectAck :: "env \<Rightarrow> RdpConn \<Rightarrow> rdpErr option \<times> RdpConn" where
  "sendAckBySelectAck env c =
     (let (a, bits) = queue_GetAck (c_recv c);
          (n, packet) = packetHeader_writeTo \<lparr>packetKind = packetAck, ack = a, ackBits = bits\<rparr> (e_pool env 1);
          (err, c', _) = sendBatch env c packet n False
      in (err, c'))"

definition sendDialAck :: "env \<Rightarrow> RdpConn \<Rightarrow> rdpErr option \<times> RdpConn" where
  "sendDialAck env c =
     (let (n, packet) = packetHeader_writeTo (packetHeader_zero\<lparr>packetKind := packetDialAck\<rparr>) (e_pool env 1);
          (err, c', _) = sendBatch env c packet n False
      in (err, c'))"

section \<open>Receiving a packet\<close>

text \<open>The loop of \<open>transferToQueue\<close> over a data packet: the load whose buffer is reused until a
  \<open>Set\<close> succeeds, the number of successes so far, the rest of the body. A load has at least
  its seven header bytes, so the body shrinks.\<close>

lemma packetLoad_readFrom_consumes:
  "packetLoad_readFrom l b = Some (n, l') \<Longrightarrow> n \<noteq> 0 \<Longrightarrow> 0 < length b \<and> length (drop n b) < length b"
  by (auto simp: packetLoad_readFrom_def packetLoad_overhead_def Let_def bind_eq_Some_conv split: if_splits)

function readLoads :: "(nat \<Rightarrow> bytes) \<Rightarrow> packetLoad \<Rightarrow> queue \<Rightarrow> nat \<Rightarrow> bytes \<Rightarrow> (nat \<times> queue) option" where
  "readLoads pool l q k b =
     (case packetLoad_readFrom l b of
        None \<Rightarrow> None
      | Some (n, l') \<Rightarrow>
          if n = 0 then Some (k, q)
          else let (ok, q') = queue_Set q l' in
            if ok then readLoads pool (l'\<lparr>pl_buf := Some (pool (Suc k))\<rparr>) q' (Suc k) (drop n b)
            else readLoads pool l' q' k (drop n b))"
  by pat_completeness auto
termination
  by (relation "measure (\<lambda>(pool, l, q, k, b). length b)")
    (use packetLoad_readFrom_consumes in \<open>fastforce+\<close>)

declare readLoads.simps [simp del]

definition transferToQueue :: "env \<Rightarrow> incomingPacket \<Rightarrow> RdpConn \<Rightarrow> (nat \<times> RdpConn) option" where
  "transferToQueue env p c =
     (if packetKind (ip_header p) = packetDial then Some (0, snd (sendDialAck env c))
      else if packetKind (ip_header p) = packetData then do {
        b \<leftarrow> incomingPacket_slice p;
        (k, q) \<leftarrow> readLoads (e_pool env) (packetLoad_zero\<lparr>pl_buf := Some (e_pool env 0)\<rparr>) (c_recv c) 0 b;
        Some (k, c\<lparr>c_recv := q\<rparr>) }
      else if packetKind (ip_header p) = packetAck then do {
        (_, q, w) \<leftarrow> queue_Ack (e_clk env) (c_send c) (ack (ip_header p)) (ackBits (ip_header p)) (c_w c);
        Some (0, c\<lparr>c_send := q, c_w := w\<rparr>) }
      else Some (0, c))"

text \<open>\<open>dispatchToConn\<close> of \<open>rdp/dispatcher.go\<close>: a copy of the body is put in the
  connection's packet queue.\<close>

definition dispatchToConn :: "bytes \<Rightarrow> RdpConn \<Rightarrow> packetHeader \<Rightarrow> bytes \<Rightarrow> RdpConn" where
  "dispatchToConn buf c header b =
     (if isClosed c then c
      else c\<lparr>c_read := snd (switchQ_Write (c_read c)
        \<lparr>ip_header = header, ip_body = Some (go_copy buf b), ip_size = min (length buf) (length b)\<rparr>)\<rparr>)"

section \<open>Waiting for a packet\<close>

definition arrive :: "incomingPacket \<Rightarrow> RdpConn \<Rightarrow> RdpConn" where
  "arrive p c = (if isClosed c then c else c\<lparr>c_read := snd (switchQ_Write (c_read c) p)\<rparr>)"

text \<open>What the other goroutines do to the connection while a call waits on its packet queue.\<close>

fun envStep :: "net_event \<Rightarrow> RdpConn \<Rightarrow> RdpConn" where
  "envStep (EvArrive p) c = arrive p c"
| "envStep EvClose c = snd (safeCloseRead c)"
| "envStep _ c = c"

text \<open>\<open>c.read.Read(ctx)\<close>: a packet that is there comes first; otherwise the events decide.\<close>

fun awaitPacket :: "net_event list \<Rightarrow> RdpConn \<Rightarrow>
    ((rdpErr + incomingPacket) outcome \<times> net_event list \<times> RdpConn) option" where
  "awaitPacket evs c =
     (case switchQ_Read False (c_read c) of
        (QPacket (Some p), r) \<Rightarrow> Some (Done (Inr p), evs, c\<lparr>c_read := r\<rparr>)
      | (QPacket None, r) \<Rightarrow> None
      | (QClosed, r) \<Rightarrow> Some (Done (Inl ErrQueueClosed), evs, c\<lparr>c_read := r\<rparr>)
      | (_, r) \<Rightarrow> (case evs of
             [] \<Rightarrow> Some (Blocked, [], c\<lparr>c_read := r\<rparr>)
           | e # evs' \<Rightarrow> if e = EvDone then Some (Done (Inl ErrDeadline), evs', c\<lparr>c_read := r\<rparr>)
                         else awaitPacket evs' (envStep e (c\<lparr>c_read := r\<rparr>))))"

declare awaitPacket.simps [simp del]

definition unread :: "'a switchQ \<Rightarrow> nat" where
  "unread q = (length (sq_read q) - sq_readPos q) + length (sq_write q)"

lemma switchQ_Read_unread_less:
  "switchQ_Read d q = (r, q') \<Longrightarrow> unread q' \<le> unread q \<and> (\<forall>p. r = QPacket p \<longrightarrow> unread q' < unread q)"
proof (induction d q arbitrary: q' r rule: switchQ_Read.induct)
  case (1 d q)
  note unf = switchQ_Read.simps [of d q]
  let ?s = "q\<lparr>sq_readPos := 0, sq_read := sq_write q, sq_write := []\<rparr>"
  let ?e = "q\<lparr>sq_event := False, sq_readPos := 0, sq_read := sq_write q, sq_write := []\<rparr>"
  have le: "unread ?s \<le> unread q" "unread ?e \<le> unread q" by (simp_all add: unread_def)
  consider "sq_closed q" | "\<not> sq_closed q" "sq_readPos q < length (sq_read q)"
    | "\<not> sq_closed q" "\<not> sq_readPos q < length (sq_read q)" "length (sq_write q) < 1" "d \<or> \<not> sq_event q"
    | "\<not> sq_closed q" "\<not> sq_readPos q < length (sq_read q)" "length (sq_write q) < 1" "\<not> d" "sq_event q"
    | "\<not> sq_closed q" "\<not> sq_readPos q < length (sq_read q)" "\<not> length (sq_write q) < 1" by blast
  then show ?case
  proof cases
    case 2
    then show ?thesis using 1(3) unf by (auto simp: unread_def)
  next
    case 4
    then have "switchQ_Read d ?e = (r, q')" using 1(3) unf by simp
    with 1(1) [OF 4(1,2,3,4)] 4(5)
    have "unread q' \<le> unread ?e \<and> (\<forall>p. r = QPacket p \<longrightarrow> unread q' < unread ?e)" by simp
    then show ?thesis using le(2) by fastforce
  next
    case 5
    then have "switchQ_Read d ?s = (r, q')" using 1(3) unf by simp
    from 1(2) [OF 5 this] show ?thesis using le(1) by fastforce
  qed (use 1(3) unf in \<open>auto split: if_splits\<close>)
qed

lemma unread_envStep: "unread (c_read (envStep e c)) \<le> Suc (unread (c_read c))"
  by (cases e) (simp_all add: arrive_def switchQ_Write_def switchQ_notifyDataEvent_def unread_def
      safeCloseRead_def Let_def switchQ_Close_def closeConn_def)

lemma awaitPacket_less:
  "awaitPacket evs c = Some (Done (Inr p), evs', c') \<Longrightarrow>
     2 * length evs' + unread (c_read c') < 2 * length evs + unread (c_read c)"
proof (induction evs arbitrary: c)
  case Nil
  then show ?case using switchQ_Read_unread_less [of False "c_read c"] awaitPacket.simps [of "[]" c]
    by (auto split: prod.splits qresult.splits option.splits)
next
  case (Cons e evs)
  obtain r q where rq: "switchQ_Read False (c_read c) = (r, q)" by fastforce
  note le = switchQ_Read_unread_less [OF rq]
  let ?c = "c\<lparr>c_read := q\<rparr>"
  consider "awaitPacket evs (envStep e ?c) = Some (Done (Inr p), evs', c')"
    | "r = QPacket (Some p)" "evs' = e # evs" "c' = ?c"
    using Cons.prems awaitPacket.simps [of "e # evs" c] rq
    by (auto split: qresult.splits option.splits if_splits)
  then show ?case
  proof cases
    case 1
    then show ?thesis using Cons.IH [OF 1] unread_envStep [of e ?c] le by simp
  next
    case 2
    then show ?thesis using le by simp
  qed
qed

section \<open>Reading\<close>

text \<open>The inner loop of \<open>readContext\<close>: packets are handled until one stores something new.\<close>

lemma transferToQueue_c_read: "transferToQueue env p c = Some (k, c') \<Longrightarrow> c_read c' = c_read c"
  by (auto simp: transferToQueue_def sendDialAck_def sendBatch.simps batchFill_def Let_def bind_eq_Some_conv
      split: if_splits prod.splits)

function readWait :: "env \<Rightarrow> net_event list \<Rightarrow> RdpConn \<Rightarrow>
    (rdpErr option outcome \<times> net_event list \<times> RdpConn) option" where
  "readWait env evs c =
     (case awaitPacket evs c of
        None \<Rightarrow> None
      | Some (Blocked, evs', c') \<Rightarrow> Some (Blocked, evs', c')
      | Some (Done (Inl err), evs', c') \<Rightarrow> Some (Done (Some err), evs', c')
      | Some (Done (Inr p), evs', c') \<Rightarrow>
          (case transferToQueue env p c' of
             None \<Rightarrow> None
           | Some (k, c'') \<Rightarrow>
               if k \<ge> 1 \<and> packetKind (ip_header p) = packetData then Some (Done None, evs', c'')
               else readWait env evs' c''))"
  by pat_completeness auto
termination
  by (relation "measure (\<lambda>(env, evs, c). 2 * length evs + unread (c_read c))")
    (auto dest!: awaitPacket_less transferToQueue_c_read)

declare readWait.simps [simp del]

text \<open>The branch of \<open>readContext\<close> that has a load: it is copied behind what was read before.\<close>

definition takeLoad :: "env \<Rightarrow> packetLoad \<Rightarrow> nat \<Rightarrow> bytes \<Rightarrow> RdpConn \<Rightarrow> (nat \<times> bytes \<times> RdpConn) option" where
  "takeLoad env l readCount b c =
     (case packetLoad_slice l of
        None \<Rightarrow> None
      | Some s \<Rightarrow> let n = min (length b - readCount) (length s); m = c_metrics c in
          Some (readCount + n, take readCount b @ go_copy (drop readCount b) s,
            c\<lparr>c_haveReadData := 1, c_lastSeen := e_now env,
              c_metrics := m\<lparr>RecvBytes := RecvBytes m + of_nat n, RecvPackets := RecvPackets m + 1\<rparr>\<rparr>))"

partial_function (option) readContext :: "env \<Rightarrow> net_event list \<Rightarrow> bool \<Rightarrow> nat \<Rightarrow> bytes \<Rightarrow> RdpConn \<Rightarrow>
    ((nat \<times> rdpErr option) outcome \<times> bytes \<times> net_event list \<times> RdpConn) option" where
  "readContext env evs receiveAny readCount b c =
     (case queue_Read (c_recv c) of
        (Some l, q) \<Rightarrow> do {
          (readCount', b', c') \<leftarrow> takeLoad env l readCount b (c\<lparr>c_recv := q\<rparr>);
          if pl_subPacket l then readContext env evs receiveAny readCount' b' c'
          else Some (Done (readCount', None), b', evs, c') }
      | (None, q) \<Rightarrow> do {
          (r, evs', c') \<leftarrow> readWait env evs (if receiveAny then snd (sendAckBySelectAck env c) else c);
          case r of
            Blocked \<Rightarrow> Some (Blocked, b, evs', c')
          | Done (Some err) \<Rightarrow> Some (Done (0, Some err), b, evs', c')
          | Done None \<Rightarrow> readContext env evs' True readCount b c' })"

definition RdpConn_Read :: "env \<Rightarrow> net_event list \<Rightarrow> bytes \<Rightarrow> RdpConn \<Rightarrow>
    ((nat \<times> rdpErr option) outcome \<times> bytes \<times> net_event list \<times> RdpConn) option" where
  "RdpConn_Read env evs b c = readContext env evs False 0 b c"

section \<open>Writing\<close>

fun flushLoads :: "RdpConn \<Rightarrow> nat \<Rightarrow> nat \<Rightarrow> nat \<Rightarrow> nat \<Rightarrow> bytes \<Rightarrow> (nat \<times> nat \<times> bytes) option" where
  "flushLoads c 0 off w n buf = Some (w, n, buf)"
| "flushLoads c (Suc k) off w n buf =
     (case queue_Get (c_send c) (of_nat off) of
        None \<Rightarrow> flushLoads c k (Suc off) w n buf
      | Some p \<Rightarrow>
          if \<not> after (c_seq c) (pl_seq p) then Some (w, n, buf)
          else if n + packetLoad_overhead + pl_size p + crcOverhead > mtu then Some (w, n, buf)
          else do {
            (m, rest) \<leftarrow> packetLoad_writeTo p (drop n buf);
            let buf' = take n buf @ rest in
              if of_nat (Suc w) \<ge> c_redundantNum c then Some (Suc w, n + m, buf')
              else flushLoads c k (Suc off) (Suc w) (n + m) buf' })"

definition RdpConn_flush :: "env \<Rightarrow> RdpConn \<Rightarrow> (rdpErr option \<times> RdpConn) option" where
  "RdpConn_flush env c0 =
     (let m = c_metrics c0;
          c = c0\<lparr>c_metrics := m\<lparr>WriteBlockRetransmit := WriteBlockRetransmit m + 1\<rparr>\<rparr>;
          (n, buf) = packetHeader_writeTo (packetHeader_zero\<lparr>packetKind := packetData\<rparr>) (c_flushBuf c)
      in do {
        (w, n', buf') \<leftarrow> flushLoads c queueSize 0 0 n buf;
        if w > 0 then (case sendBatch env c buf' n' False of (err, c', buf'') \<Rightarrow>
            Some (err, c'\<lparr>c_flushBuf := buf''\<rparr>))
        else Some (None, c\<lparr>c_flushBuf := buf'\<rparr>) })"

fun redundantLoads :: "RdpConn \<Rightarrow> packetLoad \<Rightarrow> nat \<Rightarrow> nat \<Rightarrow> nat \<Rightarrow> bytes \<Rightarrow> (nat \<times> bytes) option" where
  "redundantLoads c l 0 off n buf = Some (n, buf)"
| "redundantLoads c l (Suc k) off n buf =
     (case queue_Get (c_send c) (of_nat off) of
        None \<Rightarrow> redundantLoads c l k (Suc off) n buf
      | Some p \<Rightarrow>
          if pl_seq l = pl_seq p \<or> \<not> after (pl_seq l) (pl_seq p) then Some (n, buf)
          else if n + packetLoad_overhead + pl_size p + crcOverhead > mtu then Some (n, buf)
          else do {
            (m, rest) \<leftarrow> packetLoad_writeTo p (drop n buf);
            redundantLoads c l k (Suc off) (n + m) (take n buf @ rest) })"

text \<open>Sending only touches the outbox and the flag of pending acknowledgements.\<close>

definition sent_only :: "RdpConn \<Rightarrow> RdpConn \<Rightarrow> bool" where
  "sent_only c c' \<longleftrightarrow> c' = c\<lparr>c_out := c_out c', c_haveReadData := c_haveReadData c'\<rparr>"

lemma sent_only_refl [simp]: "sent_only c c"
  by (simp add: sent_only_def)

lemma sent_only_trans: "sent_only c c' \<Longrightarrow> sent_only c' c'' \<Longrightarrow> sent_only c c''"
  unfolding sent_only_def by (metis RdpConn.update_convs(13,14) RdpConn.surjective)

lemma batchFill_frame: "sent_only c (fst (snd (batchFill c buf n)))"
  by (simp add: batchFill_def sent_only_def split: prod.split)

lemma RdpConn_flush_c_read: "RdpConn_flush env c = Some (err, c') \<Longrightarrow> c_read c' = c_read c"
  by (auto simp: RdpConn_flush_def sendBatch.simps batchFill_def Let_def bind_eq_Some_conv
      split: if_splits prod.splits)

text \<open>The loop \<open>for !c.send.Write(load)\<close>: while the slot is taken, retransmit and wait for one
  of the events of the \<open>select\<close>. \<open>EvReadMu\<close> is the read lock being free; the writer then
  handles one incoming packet itself.\<close>

function (sequential) writeWait :: "env \<Rightarrow> net_event list \<Rightarrow> packetLoad \<Rightarrow> RdpConn \<Rightarrow>
    (rdpErr option outcome \<times> net_event list \<times> RdpConn) option"
  and writeSelect :: "env \<Rightarrow> net_event list \<Rightarrow> packetLoad \<Rightarrow> RdpConn \<Rightarrow>
    (rdpErr option outcome \<times> net_event list \<times> RdpConn) option" where
  "writeWait env evs l c =
     (case queue_Write (c_send c) l of
        (True, q) \<Rightarrow> Some (Done None, evs, c\<lparr>c_send := q\<rparr>)
      | (False, q) \<Rightarrow>
          (case RdpConn_flush env c of
             None \<Rightarrow> None
           | Some (_, c') \<Rightarrow> writeSelect env evs l c'))"
| "writeSelect env [] l c = Some (Blocked, [], c)"
| "writeSelect env (EvDone # evs) l c = Some (Done (Some ErrDeadline), evs, c)"
| "writeSelect env (EvTick # evs) l c = writeWait env evs l c"
| "writeSelect env (EvTransfer p # evs) l c =
     (case transferToQueue env p c of
        None \<Rightarrow> None
      | Some (_, c') \<Rightarrow> writeSelect env evs l c')"
| "writeSelect env (EvReadMu # evs) l c =
     (case awaitPacket evs c of
        None \<Rightarrow> None
      | Some (Blocked, evs', c') \<Rightarrow> Some (Blocked, evs', c')
      | Some (Done (Inl err), evs', c') \<Rightarrow> Some (Done (Some err), evs', c')
      | Some (Done (Inr p), evs', c') \<Rightarrow>
          (case transferToQueue env p c' of
             None \<Rightarrow> None
           | Some (_, c'') \<Rightarrow> writeWait env evs' l c''))"
| "writeSelect env (e # evs) l c = writeSelect env evs l (envStep e c)"
  by pat_completeness auto
termination
proof (relation "measure (case_sum (\<lambda>(env, evs, l, c). 2 * (2 * length evs + unread (c_read c)) + 1)
    (\<lambda>(env, evs, l, c). 2 * (2 * length evs + unread (c_read c))))", goal_cases)
  case (5 env evs l c x1 x2 x3 x4 x5 x6 x7 x8 x9)
  then show ?case by (auto dest!: awaitPacket_less transferToQueue_c_read)
next
  case (6 env p evs l c)
  then show ?case using unread_envStep [of "EvArrive p" c] by auto
next
  case (7 env evs l c)
  then show ?case using unread_envStep [of EvClose c] by auto
qed (auto dest: RdpConn_flush_c_read transferToQueue_c_read)

declare writeWait.simps [simp del] writeSelect.simps [simp del]

text \<open>\<open>writeOne\<close>: the new load, the packet after it has a slot in the send queue, the whole.\<close>

definition mkLoad :: "env \<Rightarrow> RdpConn \<Rightarrow> bytes \<Rightarrow> bool \<Rightarrow> packetLoad" where
  "mkLoad env c b subPacket =
     (let loadBuf = e_pool env 0 in
      \<lparr>pl_seq = c_seq c, pl_size = min (length loadBuf) (length b), pl_subPacket = subPacket,
       pl_buf = Some (go_copy loadBuf b), pl_timestamp = 0\<rparr>)"

definition sendLoads :: "env \<Rightarrow> packetLoad \<Rightarrow> nat \<Rightarrow> bytes \<Rightarrow> bool \<Rightarrow> RdpConn \<Rightarrow>
    ((nat \<times> rdpErr option) \<times> RdpConn) option" where
  "sendLoads env l n b subPacket c = do {
     (n', buf) \<leftarrow> redundantLoads c l (unat (c_redundantNum c)) 0 n (c_writeBuf c);
     (case sendBatch env (c\<lparr>c_writeBuf := buf\<rparr>) buf n' (\<not> subPacket) of
        (Some err, c', buf') \<Rightarrow> Some ((0, Some err), c'\<lparr>c_writeBuf := buf'\<rparr>)
      | (None, c', buf') \<Rightarrow>
          let m = c_metrics c' in
          Some ((length b, None),
            c'\<lparr>c_writeBuf := buf', c_seq := c_seq c' + 1,
               c_metrics := m\<lparr>SendBytes := SendBytes m + of_nat (length b),
                              SendPackets := SendPackets m + 1\<rparr>\<rparr>)) }"

definition writeOne :: "env \<Rightarrow> net_event list \<Rightarrow> bytes \<Rightarrow> bool \<Rightarrow> RdpConn \<Rightarrow>
    ((nat \<times> rdpErr option) outcome \<times> net_event list \<times> RdpConn) option" where
  "writeOne env evs b subPacket c =
     (let (n, buf) = packetHeader_writeTo (packetHeader_zero\<lparr>packetKind := packetData\<rparr>) (c_writeBuf c) in
      if int (length b) > c_maxSplitSize c
      then Some (Done (0, Some ErrMaxLoadSizeExceeded), evs, c\<lparr>c_writeBuf := buf\<rparr>)
      else do {
        (loadLen, rest) \<leftarrow> packetLoad_writeTo (mkLoad env c b subPacket) (drop n buf);
        let l = (mkLoad env c b subPacket)\<lparr>pl_timestamp := e_now env\<rparr> in
        (case writeWait env evs l (c\<lparr>c_writeBuf := take n buf @ rest\<rparr>) of
           None \<Rightarrow> None
         | Some (Blocked, evs', c') \<Rightarrow> Some (Blocked, evs', c')
         | Some (Done (Some err), evs', c') \<Rightarrow> Some (Done (0, Some err), evs', c')
         | Some (Done None, evs', c') \<Rightarrow> do {
             (r, c'') \<leftarrow> sendLoads env l (n + loadLen) b subPacket c';
             Some (Done r, evs', c'') }) })"

text \<open>\<open>writeContext\<close> splits a message into pieces of \<open>maxSplitSize\<close>: \<open>count\<close> bytes are
  written, \<open>left\<close> is \<open>allBufDataLen\<close>. A split size of zero makes no progress, a negative one
  makes the slice bounds panic.\<close>

partial_function (option) writeSplit :: "env \<Rightarrow> net_event list \<Rightarrow> bytes \<Rightarrow> nat \<Rightarrow> int \<Rightarrow> int \<Rightarrow> RdpConn \<Rightarrow>
    ((nat \<times> rdpErr option) outcome \<times> net_event list \<times> RdpConn) option" where
  "writeSplit env evs b count left mss c =
     (if left > mss
      then if mss < 0 then None
           else do {
             (r, evs', c') \<leftarrow> writeOne env evs (take (nat mss) (drop count b)) (left - mss > 0) c;
             case r of
               Blocked \<Rightarrow> Some (Blocked, evs', c')
             | Done (n, Some err) \<Rightarrow> Some (Done (count + n, Some err), evs', c')
             | Done (n, None) \<Rightarrow> writeSplit env evs' b (count + n) (left - int n) mss c' }
      else if left > 0
      then do {
        (r, evs', c') \<leftarrow> writeOne env evs (drop count b) False c;
        case r of
          Blocked \<Rightarrow> Some (Blocked, evs', c')
        | Done (n, err) \<Rightarrow> Some (Done (count + n, err), evs', c') }
      else Some (Done (count, None), evs, c))"

definition writeContext :: "env \<Rightarrow> net_event list \<Rightarrow> bytes \<Rightarrow> RdpConn \<Rightarrow>
    ((nat \<times> rdpErr option) outcome \<times> net_event list \<times> RdpConn) option" where
  "writeContext env evs b c = writeSplit env evs b 0 (int (length b)) (c_maxSplitSize c) c"

end
