(* ===== verification/Rdp_Packets.thy ===== *)
theory Rdp_Packets
  imports Rdp_Conn
begin

text \<open>
  The datagrams a connection emits and how they are taken apart again: a data packet is the
  header followed by loads (\<open>writeOne\<close> and \<open>flush\<close> of \<open>rdp/conn.go\<close>), the
  acknowledgements are headers; the checksum is appended by \<open>batchFill\<close> and checked by
  \<open>recvCrcData\<close> (\<open>rdp/checksum.go\<close>) before \<open>readLogic\<close> (\<open>rdp/dispatcher.go\<close>)
  passes the packet on.
\<close>

section \<open>What is on the wire\<close>

definition data_bytes :: "packetLoad list \<Rightarrow> bytes" where
  "data_bytes ls = [protocolID, packetData] @ concat (map load_bytes ls)"

definition ack_bytes :: "u32 \<Rightarrow> u32 \<Rightarrow> bytes" where
  "ack_bytes a bits = [protocolID, packetAck] @ be_bytes 4 a @ be_bytes 4 bits"

definition with_crc :: "bytes \<Rightarrow> bytes" where
  "with_crc p = p @ be_bytes 4 (ChecksumIEEE p XOR magic)"

text \<open>\<open>crcConn.recvCrcData\<close> followed by the parsing that both dispatchers do; \<open>buf\<close> is the
  buffer \<open>dispatchToConn\<close> takes from the pool. \<open>None\<close>: the datagram is dropped.\<close>

definition recvDatagram :: "bytes \<Rightarrow> bytes \<Rightarrow> incomingPacket option" where
  "recvDatagram buf data = do {
     n \<leftarrow> checkPacket data (length data);
     if n < 1 then None
     else let (body, header) = packetHeader_readFrom packetHeader_zero (take n data); b = drop body (take n data) in
       if body = 0 then None
       else Some \<lparr>ip_header = header, ip_body = Some (go_copy buf b), ip_size = min (length buf) (length b)\<rparr> }"

lemma checkPacket_with_crc: "p \<noteq> [] \<Longrightarrow> checkPacket (with_crc p) (length (with_crc p)) = Some (length p)"
  by (simp add: checkPacket_def with_crc_def crcOverhead_def wire_simps)

lemma recvDatagram_data:
  assumes "length (with_crc (data_bytes ls)) \<le> mtu" "length buf = mtu"
  shows "\<exists>p. recvDatagram buf (with_crc (data_bytes ls)) = Some p \<and> packetKind (ip_header p) = packetData \<and>
    incomingPacket_slice p = Some (concat (map load_bytes ls))"
proof -
  have "checkPacket (with_crc (data_bytes ls)) (length (with_crc (data_bytes ls))) = Some (length (data_bytes ls))"
    by (rule checkPacket_with_crc) (simp add: data_bytes_def)
  moreover have "take (length (data_bytes ls)) (with_crc (data_bytes ls)) = data_bytes ls"
    by (simp add: with_crc_def)
  moreover have "length (concat (map load_bytes ls)) \<le> mtu"
    using assms(1) by (simp add: with_crc_def data_bytes_def)
  ultimately show ?thesis
    using assms(2) by (auto simp: recvDatagram_def packetHeader_readFrom_def data_bytes_def packet_kinds
        incomingPacket_slice_def go_copy_fits min_absorb2 Let_def)
qed

lemma recvDatagram_ack:
  assumes "recvDatagram buf (with_crc (ack_bytes a bits)) = Some p"
  shows "ip_header p = \<lparr>packetKind = packetAck, ack = a, ackBits = bits\<rparr>"
proof -
  have "checkPacket (with_crc (ack_bytes a bits)) (length (with_crc (ack_bytes a bits))) = Some (length (ack_bytes a bits))"
    by (rule checkPacket_with_crc) (simp add: ack_bytes_def)
  moreover have "take (length (ack_bytes a bits)) (with_crc (ack_bytes a bits)) = ack_bytes a bits"
    by (simp add: with_crc_def)
  ultimately show ?thesis using assms
    by (auto simp: recvDatagram_def packetHeader_readFrom_def ack_bytes_def packetHeader_zero_def wire_simps)
qed

lemma recvDatagram_dialack:
  assumes "recvDatagram buf (with_crc [protocolID, packetDialAck]) = Some p"
  shows "packetKind (ip_header p) = packetDialAck"
proof -
  have "checkPacket (with_crc [protocolID, packetDialAck]) (length (with_crc [protocolID, packetDialAck])) = Some 2"
    using checkPacket_with_crc [of "[protocolID, packetDialAck]"] by simp
  moreover have "take 2 (with_crc [protocolID, packetDialAck]) = [protocolID, packetDialAck]"
    by (simp add: with_crc_def)
  ultimately show ?thesis using assms
    by (auto simp: recvDatagram_def packetHeader_readFrom_def packetHeader_zero_def packet_kinds)
qed

text \<open>The parser of a data packet reads back the loads that were written, in their order.\<close>

definition same_load :: "packetLoad \<Rightarrow> packetLoad \<Rightarrow> bool" where
  "same_load l l' \<longleftrightarrow> load_ok l' \<and> pl_seq l' = pl_seq l \<and> pl_size l' = pl_size l \<and>
     pl_subPacket l' = pl_subPacket l \<and> packetLoad_slice l' = packetLoad_slice l"

definition set_all :: "queue \<Rightarrow> packetLoad list \<Rightarrow> queue" where
  "set_all q ls = fold (\<lambda>l q. snd (queue_Set q l)) ls q"

lemma readLoads_loads:
  assumes "\<forall>l \<in> set ls. load_ok l" "pl_buf l0 = Some g" "length g = mtu" "\<And>i. length (pool i) = mtu"
  shows "\<exists>ls' k'. list_all2 same_load ls ls' \<and>
    readLoads pool l0 q k (concat (map load_bytes ls)) = Some (k', set_all q ls')"
  using assms(1,2,3)
proof (induction ls arbitrary: l0 g q k)
  case Nil
  then show ?case
    by (intro exI [of _ "[]"] exI [of _ k])
      (simp add: readLoads.simps [of pool l0 q k "[]"] packetLoad_readFrom_def packetLoad_overhead_def set_all_def)
next
  case (Cons l ls)
  let ?rest = "concat (map load_bytes ls)"
  have ok: "load_ok l" using Cons.prems(1) by simp
  from packetLoad_readFrom_bytes [OF ok Cons.prems(2,3), of ?rest] obtain l'
    where l': "packetLoad_readFrom l0 (load_bytes l @ ?rest) = Some (packetLoad_overhead + pl_size l, l')"
      and same: "same_load l l'" by (auto simp: same_load_def)
  obtain okset q' where s: "queue_Set q l' = (okset, q')" by fastforce
  define l1 where "l1 = (if okset then l'\<lparr>pl_buf := Some (pool (Suc k))\<rparr> else l')"
  have "\<exists>g1. pl_buf l1 = Some g1 \<and> length g1 = mtu"
    using same assms(4) by (auto simp: l1_def same_load_def load_ok_def)
  then obtain g1 where g1: "pl_buf l1 = Some g1" "length g1 = mtu" by blast
  have "drop (packetLoad_overhead + pl_size l) (load_bytes l @ ?rest) = ?rest"
    using length_load_bytes [OF ok] by simp
  moreover have "packetLoad_overhead + pl_size l \<noteq> 0" by (simp add: packetLoad_overhead_def)
  ultimately have step: "readLoads pool l0 q k (load_bytes l @ ?rest) =
      readLoads pool l1 q' (if okset then Suc k else k) ?rest"
    by (auto simp: readLoads.simps [of pool l0 q k] l' s l1_def)
  obtain ls' k' where "list_all2 same_load ls ls'"
    "readLoads pool l1 q' (if okset then Suc k else k) ?rest = Some (k', set_all q' ls')"
    using Cons.IH [OF _ g1, of q' "if okset then Suc k else k"] Cons.prems(1) by auto
  then show ?case using same step s
    by (intro exI [of _ "l' # ls'"] exI [of _ k']) (simp add: set_all_def)
qed

section \<open>What a connection emits\<close>

lemma batchFill_spec:
  assumes "length buf = mtu" "n + crcOverhead \<le> mtu"
  shows "fst (batchFill c buf n) = None" "length (snd (snd (batchFill c buf n))) = mtu"
    "fst (snd (batchFill c buf n)) = c\<lparr>c_out := c_out c @ [with_crc (take n buf)]\<rparr>"
proof -
  obtain m p where pc: "putCheckSum buf n = (m, p)" by fastforce
  then have "m \<noteq> 0" using assms by (auto simp: putCheckSum_def crcOverhead_def split: if_splits)
  note ps = putCheckSum_spec [OF pc this]
  show "fst (batchFill c buf n) = None" "length (snd (snd (batchFill c buf n))) = mtu"
    "fst (snd (batchFill c buf n)) = c\<lparr>c_out := c_out c @ [with_crc (take n buf)]\<rparr>"
    using \<open>m \<noteq> 0\<close> ps assms(1) by (simp_all add: batchFill_def pc with_crc_def)
qed

lemma packetHeader_writeTo_data:
  assumes "length buf = mtu"
  shows "\<exists>buf'. packetHeader_writeTo (packetHeader_zero\<lparr>packetKind := packetData\<rparr>) buf = (2, buf') \<and>
    length buf' = mtu \<and> take 2 buf' = data_bytes []"
  using assms by (simp add: packetHeader_writeTo_def packet_kinds put_at_def data_bytes_def mtu_def)

lemma packetHeader_writeTo_ack:
  assumes "length buf = mtu"
  shows "\<exists>buf'. packetHeader_writeTo \<lparr>packetKind = packetAck, ack = a, ackBits = bits\<rparr> buf = (10, buf') \<and>
    length buf' = mtu \<and> take 10 buf' = ack_bytes a bits"
  using assms by (simp add: packetHeader_writeTo_def put_at_def ack_bytes_def mtu_def Let_def)

lemma packetHeader_writeTo_dialack:
  assumes "length buf = mtu"
  shows "\<exists>buf'. packetHeader_writeTo (packetHeader_zero\<lparr>packetKind := packetDialAck\<rparr>) buf = (2, buf') \<and>
    length buf' = mtu \<and> take 2 buf' = [protocolID, packetDialAck]"
  using assms by (simp add: packetHeader_writeTo_def packet_kinds put_at_def mtu_def)

definition env_ok :: "env \<Rightarrow> bool" where
  "env_ok env \<longleftrightarrow> (\<forall>i. length (e_pool env i) = mtu)"

definition ack_now :: "RdpConn \<Rightarrow> bytes" where
  "ack_now c = with_crc (ack_bytes (fst (queue_GetAck (c_recv c))) (snd (queue_GetAck (c_recv c))))"

lemma sendBatch_plain:
  assumes "\<not> isClosed c" "length buf = mtu" "n + crcOverhead \<le> mtu"
  shows "\<exists>buf'. sendBatch env c buf n False = (None, c\<lparr>c_out := c_out c @ [with_crc (take n buf)]\<rparr>, buf') \<and>
    length buf' = mtu"
  using batchFill_spec [OF assms(2,3), of c] assms(1)
  by (cases "batchFill c buf n") (auto simp: sendBatch.simps)

lemma sendAck_eq:
  assumes "\<not> isClosed c" "env_ok env"
  shows "sendAckByRead env c = (None, c\<lparr>c_out := c_out c @ [ack_now c]\<rparr>)"
    "sendAckBySelectAck env c = (None, c\<lparr>c_out := c_out c @ [ack_now c]\<rparr>)"
proof -
  obtain a bits where ab: "queue_GetAck (c_recv c) = (a, bits)" by fastforce
  obtain buf' where b: "packetHeader_writeTo \<lparr>packetKind = packetAck, ack = a, ackBits = bits\<rparr> (e_pool env 1) = (10, buf')"
    "length buf' = mtu" "take 10 buf' = ack_bytes a bits"
    using packetHeader_writeTo_ack [of "e_pool env 1" a bits] assms(2) by (auto simp: env_ok_def)
  have "\<exists>b2. sendBatch env c buf' 10 False = (None, c\<lparr>c_out := c_out c @ [ack_now c]\<rparr>, b2)"
    using sendBatch_plain [OF assms(1) b(2), of 10 env] b(3) ab by (auto simp: mtu_def crcOverhead_def ack_now_def)
  then show "sendAckByRead env c = (None, c\<lparr>c_out := c_out c @ [ack_now c]\<rparr>)"
    "sendAckBySelectAck env c = (None, c\<lparr>c_out := c_out c @ [ack_now c]\<rparr>)"
    using ab b(1) by (auto simp: sendAckByRead.simps sendAckBySelectAck_def)
qed

lemma sendDialAck_eq:
  assumes "\<not> isClosed c" "env_ok env"
  shows "sendDialAck env c = (None, c\<lparr>c_out := c_out c @ [with_crc [protocolID, packetDialAck]]\<rparr>)"
proof -
  obtain buf' where b: "packetHeader_writeTo (packetHeader_zero\<lparr>packetKind := packetDialAck\<rparr>) (e_pool env 1) = (2, buf')"
    "length buf' = mtu" "take 2 buf' = [protocolID, packetDialAck]"
    using packetHeader_writeTo_dialack [of "e_pool env 1"] assms(2) by (auto simp: env_ok_def)
  have "2 + crcOverhead \<le> mtu" by (simp add: mtu_def crcOverhead_def)
  from sendBatch_plain [OF assms(1) b(2) this, of env] b show ?thesis by (auto simp: sendDialAck_def)
qed

text \<open>A batch that may carry an acknowledgement in front of the packet.\<close>

lemma sendBatch_ack:
  assumes "\<not> isClosed c" "env_ok env" "length buf = mtu" "n + crcOverhead \<le> mtu"
  shows "\<exists>buf' acks h. sendBatch env c buf n w =
      (None, c\<lparr>c_out := c_out c @ acks @ [with_crc (take n buf)], c_haveReadData := h\<rparr>, buf') \<and>
    length buf' = mtu \<and> set acks \<subseteq> {ack_now c}"
proof (cases "w \<and> c_haveReadData c > 0")
  case True
  let ?c = "c\<lparr>c_haveReadData := 0\<rparr>"
  let ?d = "c\<lparr>c_out := c_out c @ [ack_now c], c_haveReadData := 0\<rparr>"
  have "\<not> isClosed ?c" "ack_now ?c = ack_now c" using assms(1) by (simp_all add: isClosed_def ack_now_def)
  moreover have comm: "c\<lparr>c_haveReadData := 0, c_out := x\<rparr> = c\<lparr>c_out := x, c_haveReadData := 0\<rparr>" for x by simp
  ultimately have "sendAckByRead env ?c = (None, ?d)" using sendAck_eq(1) [of ?c env] assms(2) by simp
  then have eq: "sendBatch env c buf n w = batchFill ?d buf n"
    using True assms(1) by (simp add: sendBatch.simps [of env c buf])
  show ?thesis unfolding eq using batchFill_spec [OF assms(3,4), of ?d]
    by (intro exI [of _ "snd (snd (batchFill ?d buf n))"]
        exI [of _ "[ack_now c]"] exI [of _ 0]) (simp add: prod_eq_iff)
next
  case False
  let ?c = "if w then c\<lparr>c_haveReadData := 0\<rparr> else c"
  have "sendBatch env c buf n w = batchFill ?c buf n"
    using False assms(1) by (simp add: sendBatch.simps [of env c buf n w])
  then show ?thesis using batchFill_spec [OF assms(3,4), of ?c]
    by (cases "batchFill ?c buf n", intro exI [of _ "snd (snd (batchFill ?c buf n))"] exI [of _ "[]"]
        exI [of _ "c_haveReadData ?c"]) auto
qed

section \<open>Packets under construction\<close>

definition built :: "packetLoad list \<Rightarrow> nat \<Rightarrow> bytes \<Rightarrow> bool" where
  "built ls n buf \<longleftrightarrow> length buf = mtu \<and> n + crcOverhead \<le> mtu \<and> n = length (data_bytes ls) \<and>
     take n buf = data_bytes ls"

lemma built_header:
  assumes "length buf = mtu" "packetHeader_writeTo (packetHeader_zero\<lparr>packetKind := packetData\<rparr>) buf = (n, buf')"
  shows "built [] n buf'"
  using packetHeader_writeTo_data [OF assms(1)] assms(2)
  by (auto simp: built_def data_bytes_def mtu_def crcOverhead_def)

lemma built_add:
  assumes "built ls n buf" "load_ok p" "n + packetLoad_overhead + pl_size p + crcOverhead \<le> mtu"
  shows "\<exists>m rest. packetLoad_writeTo p (drop n buf) = Some (m, rest) \<and> built (ls @ [p]) (n + m) (take n buf @ rest)"
proof -
  let ?m = "packetLoad_overhead + pl_size p" and ?rest = "put_at 0 (load_bytes p) (drop n buf)"
  have len: "length (load_bytes p) = ?m" using length_load_bytes [OF assms(2)] .
  have "\<not> length (drop n buf) < ?m" using assms by (simp add: built_def)
  then have "packetLoad_writeTo p (drop n buf) = Some (?m, ?rest)"
    by (simp only: packetLoad_writeTo_spec [OF assms(2)] if_False)
  moreover have "built (ls @ [p]) (n + ?m) (take n buf @ ?rest)"
  proof -
    have n: "n = length (data_bytes ls)" "n \<le> length buf" "take n buf = data_bytes ls"
      using assms(1) by (auto simp: built_def)
    have "data_bytes (ls @ [p]) = data_bytes ls @ load_bytes p" by (simp add: data_bytes_def)
    then show ?thesis using assms(1,3) len n by (simp add: built_def put_at_def)
  qed
  ultimately show ?thesis by blast
qed

definition sendable :: "queue \<Rightarrow> bool" where
  "sendable q \<longleftrightarrow> queue_inv q \<and> (\<forall>s l. q_at q s = Some l \<longrightarrow> load_ok l \<and> pl_size l + 13 \<le> mtu)"

definition stored :: "queue \<Rightarrow> packetLoad set" where
  "stored q = {l. q_at q (pl_seq l) = Some l}"

lemma queue_Get_stored: "queue_Get q off = Some p \<Longrightarrow> p \<in> stored q"
  using q_at_seq by (fastforce simp: queue_Get_at stored_def)

lemma sendable_stored:
  "sendable q \<Longrightarrow> p \<in> stored q \<Longrightarrow> load_ok p" "sendable q \<Longrightarrow> p \<in> stored q \<Longrightarrow> pl_size p + 13 \<le> mtu"
  by (auto simp: sendable_def stored_def)

text \<open>The redundant loads \<open>writeOne\<close> adds come from the send queue and leave room for the checksum.\<close>

lemma redundantLoads_spec:
  assumes "sendable (c_send c)" "built ls n buf"
  shows "\<exists>n' buf' ls'. redundantLoads c l k off n buf = Some (n', buf') \<and> built (ls @ ls') n' buf' \<and>
    set ls' \<subseteq> {p \<in> stored (c_send c). after (pl_seq l) (pl_seq p)}"
  using assms(2)
proof (induction k arbitrary: off n buf ls)
  case 0
  then show ?case by (intro exI [of _ n] exI [of _ buf] exI [of _ "[]"]) simp
next
  case (Suc k)
  show ?case
  proof (cases "queue_Get (c_send c) (of_nat off)")
    case None
    then show ?thesis using Suc.IH [OF Suc.prems] by simp
  next
    case (Some p)
    have st: "p \<in> stored (c_send c)" by (rule queue_Get_stored [OF Some])
    show ?thesis
    proof (cases "(pl_seq l = pl_seq p \<or> \<not> after (pl_seq l) (pl_seq p)) \<or>
        n + packetLoad_overhead + pl_size p + crcOverhead > mtu")
      case True
      then show ?thesis using Some Suc.prems
        by (intro exI [of _ n] exI [of _ buf] exI [of _ "[]"]) auto
    next
      case False
      then obtain m rest where w: "packetLoad_writeTo p (drop n buf) = Some (m, rest)"
        "built (ls @ [p]) (n + m) (take n buf @ rest)"
        using built_add [OF Suc.prems sendable_stored(1) [OF assms(1) st]] by auto
      obtain n' buf' ls' where ih: "redundantLoads c l k (Suc off) (n + m) (take n buf @ rest) = Some (n', buf')"
        "built ((ls @ [p]) @ ls') n' buf'" "set ls' \<subseteq> {p \<in> stored (c_send c). after (pl_seq l) (pl_seq p)}"
        using Suc.IH [OF w(2), of "Suc off"] by blast
      have "redundantLoads c l (Suc k) off n buf = Some (n', buf')" using False Some w(1) ih(1) by simp
      then show ?thesis using False ih st
        by (intro exI [of _ n'] exI [of _ buf'] exI [of _ "p # ls'"]) auto
    qed
  qed
qed

text \<open>The same for \<open>flush\<close>, which always takes the first outstanding load that fits.\<close>

lemma flushLoads_spec:
  assumes "sendable (c_send c)" "built ls n buf"
  shows "\<exists>w' n' buf' ls'. flushLoads c k off w n buf = Some (w', n', buf') \<and> built (ls @ ls') n' buf' \<and>
    w' = w + length ls' \<and> set ls' \<subseteq> {p \<in> stored (c_send c). after (c_seq c) (pl_seq p)} \<and>
    (\<forall>p. 0 < k \<and> queue_Get (c_send c) (of_nat off) = Some p \<and> after (c_seq c) (pl_seq p) \<and>
       n + packetLoad_overhead + pl_size p + crcOverhead \<le> mtu \<longrightarrow> p \<in> set ls')"
  using assms(2)
proof (induction k arbitrary: off w n buf ls)
  case 0
  then show ?case by (intro exI [of _ w] exI [of _ n] exI [of _ buf] exI [of _ "[]"]) simp
next
  case (Suc k)
  show ?case
  proof (cases "queue_Get (c_send c) (of_nat off)")
    case None
    obtain w' n' buf' ls' where "flushLoads c k (Suc off) w n buf = Some (w', n', buf')" "built (ls @ ls') n' buf'"
      "w' = w + length ls'" "set ls' \<subseteq> {p \<in> stored (c_send c). after (c_seq c) (pl_seq p)}"
      using Suc.IH [OF Suc.prems, of "Suc off" w] by blast
    then show ?thesis using None
      by (intro exI [of _ w'] exI [of _ n'] exI [of _ buf'] exI [of _ ls']) simp
  next
    case (Some p)
    have st: "p \<in> stored (c_send c)" by (rule queue_Get_stored [OF Some])
    show ?thesis
    proof (cases "\<not> after (c_seq c) (pl_seq p) \<or> n + packetLoad_overhead + pl_size p + crcOverhead > mtu")
      case True
      then show ?thesis using Some Suc.prems
        by (intro exI [of _ w] exI [of _ n] exI [of _ buf] exI [of _ "[]"]) auto
    next
      case False
      then obtain m rest where w: "packetLoad_writeTo p (drop n buf) = Some (m, rest)"
        "built (ls @ [p]) (n + m) (take n buf @ rest)"
        using built_add [OF Suc.prems sendable_stored(1) [OF assms(1) st]] by auto
      show ?thesis
      proof (cases "of_nat (Suc w) \<ge> c_redundantNum c")
        case True
        then have "flushLoads c (Suc k) off w n buf = Some (Suc w, n + m, take n buf @ rest)"
          using False Some w(1) by simp
        then show ?thesis using False w st Some
          by (intro exI [of _ "Suc w"] exI [of _ "n + m"] exI [of _ "take n buf @ rest"] exI [of _ "[p]"]) auto
      next
        case more: False
        obtain w' n' buf' ls' where ih: "flushLoads c k (Suc off) (Suc w) (n + m) (take n buf @ rest) = Some (w', n', buf')"
          "built ((ls @ [p]) @ ls') n' buf'" "w' = Suc w + length ls'"
          "set ls' \<subseteq> {p \<in> stored (c_send c). after (c_seq c) (pl_seq p)}"
          using Suc.IH [OF w(2), of "Suc off" "Suc w"] by blast
        have "flushLoads c (Suc k) off w n buf = Some (w', n', buf')" using False more Some w(1) ih(1) by simp
        then show ?thesis using False ih st Some
          by (intro exI [of _ w'] exI [of _ n'] exI [of _ buf'] exI [of _ "p # ls'"]) auto
      qed
    qed
  qed
qed

section \<open>Flush and write\<close>

text \<open>What a sending operation leaves alone: everything but the outbox, the counters, the flag of
  pending acknowledgements and the scratch buffers.\<close>

definition emits :: "RdpConn \<Rightarrow> bytes list \<Rightarrow> RdpConn \<Rightarrow> bool" where
  "emits c outs c' \<longleftrightarrow> c_out c' = c_out c @ outs \<and> c_read c' = c_read c \<and> c_send c' = c_send c \<and>
     c_recv c' = c_recv c \<and> c_seq c' = c_seq c \<and> c_w c' = c_w c \<and> c_closeFlag c' = c_closeFlag c \<and>
     c_maxSplitSize c' = c_maxSplitSize c \<and> c_redundantNum c' = c_redundantNum c \<and>
     c_remote c' = c_remote c \<and> length (c_writeBuf c') = length (c_writeBuf c) \<and>
     length (c_flushBuf c') = length (c_flushBuf c)"

definition conn_ok :: "RdpConn \<Rightarrow> bool" where
  "conn_ok c \<longleftrightarrow> \<not> isClosed c \<and> sendable (c_send c) \<and> recv_inv (c_recv c) \<and>
     length (c_writeBuf c) = mtu \<and> length (c_flushBuf c) = mtu \<and>
     0 < c_maxSplitSize c \<and> c_maxSplitSize c + 13 \<le> int mtu"

lemma emits_conn_ok: "conn_ok c \<Longrightarrow> emits c outs c' \<Longrightarrow> conn_ok c'"
  by (simp add: conn_ok_def emits_def isClosed_def)

lemma RdpConn_flush_spec:
  assumes "conn_ok c" "env_ok env"
  shows "\<exists>c' ls. RdpConn_flush env c = Some (None, c') \<and>
    emits c (if ls = [] then [] else [with_crc (data_bytes ls)]) c' \<and>
    length (with_crc (data_bytes ls)) \<le> mtu \<and>
    set ls \<subseteq> {p \<in> stored (c_send c). after (c_seq c) (pl_seq p)} \<and>
    (\<forall>p. queue_Get (c_send c) 0 = Some p \<and> after (c_seq c) (pl_seq p) \<and> pl_size p + 13 \<le> mtu \<longrightarrow> p \<in> set ls)"
proof -
  define m where "m = (c_metrics c)\<lparr>WriteBlockRetransmit := WriteBlockRetransmit (c_metrics c) + 1\<rparr>"
  let ?c = "c\<lparr>c_metrics := m\<rparr>"
  obtain n buf where h: "packetHeader_writeTo (packetHeader_zero\<lparr>packetKind := packetData\<rparr>) (c_flushBuf c) = (n, buf)"
    by fastforce
  have b0: "built [] n buf" using built_header [OF _ h] assms(1) by (simp add: conn_ok_def)
  then have n2: "n = 2" by (simp add: built_def data_bytes_def)
  have sd: "sendable (c_send ?c)" using assms(1) by (simp add: conn_ok_def)
  obtain w n' buf' ls where f: "flushLoads ?c queueSize 0 0 n buf = Some (w, n', buf')" "built ls n' buf'"
    "w = length ls" "set ls \<subseteq> {p \<in> stored (c_send c). after (c_seq c) (pl_seq p)}"
    "\<forall>p. queue_Get (c_send c) 0 = Some p \<and> after (c_seq c) (pl_seq p) \<and> pl_size p + 13 \<le> mtu \<longrightarrow> p \<in> set ls"
    using flushLoads_spec [OF sd b0, of queueSize 0 0]
    by (auto simp: queueSize_def n2 packetLoad_overhead_def crcOverhead_def)
  have len: "length (with_crc (data_bytes ls)) \<le> mtu"
    using f(2) by (simp add: built_def with_crc_def crcOverhead_def)
  show ?thesis
  proof (cases "ls = []")
    case True
    then have "RdpConn_flush env c = Some (None, ?c\<lparr>c_flushBuf := buf'\<rparr>)"
      using f h by (simp add: RdpConn_flush_def Let_def flip: m_def)
    then show ?thesis using True f len assms(1)
      by (intro exI [of _ "?c\<lparr>c_flushBuf := buf'\<rparr>"] exI [of _ "[]"]) (simp add: emits_def built_def conn_ok_def)
  next
    case False
    have "\<not> isClosed ?c" using assms(1) by (simp add: conn_ok_def isClosed_def)
    then obtain b2 where b2: "sendBatch env ?c buf' n' False =
        (None, ?c\<lparr>c_out := c_out c @ [with_crc (data_bytes ls)]\<rparr>, b2)" "length b2 = mtu"
      using sendBatch_plain [of ?c buf' n' env] f(2) by (auto simp: built_def)
    then have "RdpConn_flush env c = Some (None, ?c\<lparr>c_out := c_out c @ [with_crc (data_bytes ls)], c_flushBuf := b2\<rparr>)"
      using f h False by (simp add: RdpConn_flush_def Let_def flip: m_def)
    then show ?thesis using False f len assms(1) b2(2)
      by (intro exI [of _ "?c\<lparr>c_out := c_out c @ [with_crc (data_bytes ls)], c_flushBuf := b2\<rparr>"] exI [of _ ls])
        (simp add: emits_def conn_ok_def)
  qed
qed

text \<open>The load \<open>writeOne\<close> stores, with its time stamp.\<close>

definition new_load :: "env \<Rightarrow> RdpConn \<Rightarrow> bytes \<Rightarrow> bool \<Rightarrow> packetLoad" where
  "new_load env c b subPacket = (mkLoad env c b subPacket)\<lparr>pl_timestamp := e_now env\<rparr>"

lemma new_load_sel [simp]: "pl_seq (new_load env c b s) = c_seq c" "pl_subPacket (new_load env c b s) = s"
  by (simp_all add: new_load_def mkLoad_def Let_def)

lemma mkLoad_ok:
  assumes "env_ok env" "length b \<le> mtu"
  shows "load_ok (mkLoad env c b s)" "packetLoad_slice (mkLoad env c b s) = Some b" "pl_size (mkLoad env c b s) = length b"
  using assms by (simp_all add: mkLoad_def load_ok_def packetLoad_slice_def env_ok_def go_copy_fits Let_def)

lemma load_ok_stamp [simp]: "load_ok (l\<lparr>pl_timestamp := t\<rparr>) = load_ok l"
  by (simp add: load_ok_def)

lemma slice_stamp [simp]: "packetLoad_slice (l\<lparr>pl_timestamp := t\<rparr>) = packetLoad_slice l"
  by (cases "pl_buf l") (simp_all add: packetLoad_slice_def)

lemma load_bytes_stamp [simp]: "load_bytes (l\<lparr>pl_timestamp := t\<rparr>) = load_bytes l"
  by (simp add: load_bytes_def)

lemma new_load_ok:
  assumes "env_ok env" "length b \<le> mtu"
  shows "load_ok (new_load env c b s)" "packetLoad_slice (new_load env c b s) = Some b"
    "pl_size (new_load env c b s) = length b"
  using mkLoad_ok [OF assms] by (simp_all add: new_load_def)

lemma sendable_fill:
  assumes "sendable q" "load_ok l" "queue_Write q l = (True, q')" "pl_size l + 13 \<le> mtu"
  shows "sendable q'" "q_at q' = (q_at q)(pl_seq l \<mapsto> l)"
  using sendq.write_state [of q l] assms by (auto simp: sendable_def split: if_splits)

lemma data_bytes_same: "load_bytes l = load_bytes l' \<Longrightarrow> data_bytes (l # ls) = data_bytes (l' # ls)"
  by (simp add: data_bytes_def)

text \<open>Sending the packet once the load has its slot.\<close>

lemma sendLoads_spec:
  assumes "conn_ok c" "env_ok env" "built [l0] n (c_writeBuf c)" "load_bytes l0 = load_bytes l"
  shows "\<exists>c' acks ls. sendLoads env l n b sub c = Some ((length b, None), c') \<and>
    emits (c\<lparr>c_seq := c_seq c + 1\<rparr>) (acks @ [with_crc (data_bytes (l # ls))]) c' \<and>
    set acks \<subseteq> {ack_now c} \<and> length (with_crc (data_bytes (l # ls))) \<le> mtu \<and>
    set ls \<subseteq> {p \<in> stored (c_send c). after (pl_seq l) (pl_seq p)}"
proof -
  have "sendable (c_send c)" using assms(1) by (simp add: conn_ok_def)
  from redundantLoads_spec [OF this assms(3), of l "unat (c_redundantNum c)" 0] obtain n' buf ls
    where rl: "redundantLoads c l (unat (c_redundantNum c)) 0 n (c_writeBuf c) = Some (n', buf)"
      "built (l0 # ls) n' buf" "set ls \<subseteq> {p \<in> stored (c_send c). after (pl_seq l) (pl_seq p)}" by auto
  let ?d = "with_crc (data_bytes (l # ls))"
  have d: "with_crc (take n' buf) = ?d"
    using rl(2) data_bytes_same [OF assms(4), of ls] unfolding built_def by metis
  have len: "length ?d \<le> mtu"
    using rl(2) unfolding d [symmetric] by (simp add: built_def with_crc_def crcOverhead_def)
  let ?conn = "c\<lparr>c_writeBuf := buf\<rparr>"
  have "\<not> isClosed ?conn" using assms(1) by (simp add: conn_ok_def isClosed_def)
  then obtain buf' acks hr where sb: "sendBatch env ?conn buf n' (\<not> sub) =
      (None, ?conn\<lparr>c_out := c_out c @ acks @ [?d], c_haveReadData := hr\<rparr>, buf')"
    "length buf' = mtu" "set acks \<subseteq> {ack_now c}"
    using sendBatch_ack [of ?conn env buf n' "\<not> sub"] rl(2) assms(2) d by (auto simp: built_def ack_now_def)
  then have "\<exists>c'. sendLoads env l n b sub c = Some ((length b, None), c') \<and>
      emits (c\<lparr>c_seq := c_seq c + 1\<rparr>) (acks @ [?d]) c'"
    using rl(1) assms(1) by (simp add: sendLoads_def Let_def emits_def conn_ok_def)
  then show ?thesis using sb(3) len rl(3) by blast
qed

text \<open>A write first puts header and load into the buffer, then waits for its slot.\<close>

lemma writeOne_start:
  assumes "conn_ok c" "env_ok env" "int (length b) \<le> c_maxSplitSize c"
  shows "\<exists>n buf. built [mkLoad env c b sub] n buf \<and> writeOne env evs b sub c =
    (case writeWait env evs (new_load env c b sub) (c\<lparr>c_writeBuf := buf\<rparr>) of
       None \<Rightarrow> None
     | Some (Blocked, evs', c') \<Rightarrow> Some (Blocked, evs', c')
     | Some (Done (Some err), evs', c') \<Rightarrow> Some (Done (0, Some err), evs', c')
     | Some (Done None, evs', c') \<Rightarrow> do {
         (r, c'') \<leftarrow> sendLoads env (new_load env c b sub) n b sub c';
         Some (Done r, evs', c'') })"
proof -
  have lb: "length b + 13 \<le> mtu" using assms(1,3) by (simp add: conn_ok_def)
  note ok = mkLoad_ok [OF assms(2), of b c sub]
  obtain n buf where h: "packetHeader_writeTo (packetHeader_zero\<lparr>packetKind := packetData\<rparr>) (c_writeBuf c) = (n, buf)"
    by fastforce
  have b0: "built [] n buf" using built_header [OF _ h] assms(1) by (simp add: conn_ok_def)
  then have "n = 2" by (simp add: built_def data_bytes_def)
  then obtain m rest where w: "packetLoad_writeTo (mkLoad env c b sub) (drop n buf) = Some (m, rest)"
    "built [mkLoad env c b sub] (n + m) (take n buf @ rest)"
    using built_add [OF b0 ok(1)] lb ok(3) by (auto simp: packetLoad_overhead_def crcOverhead_def)
  show ?thesis unfolding new_load_def using assms(3) w
    by (intro exI [of _ "n + m"] exI [of _ "take n buf @ rest"]) (simp add: writeOne_def h Let_def)
qed

text \<open>A write whose slot is free emits one data packet that starts with the new load.\<close>

lemma writeOne_free:
  assumes "conn_ok c" "env_ok env" "int (length b) \<le> c_maxSplitSize c"
    and "queue_Write (c_send c) (new_load env c b sub) = (True, q)"
  shows "\<exists>c' acks ls. writeOne env evs b sub c = Some (Done (length b, None), evs, c') \<and>
    emits (c\<lparr>c_send := q, c_seq := c_seq c + 1\<rparr>) (acks @ [with_crc (data_bytes (new_load env c b sub # ls))]) c' \<and>
    set acks \<subseteq> {ack_now c} \<and> length (with_crc (data_bytes (new_load env c b sub # ls))) \<le> mtu \<and>
    set ls \<subseteq> {p \<in> stored q. after (c_seq c) (pl_seq p)}"
proof -
  let ?l = "new_load env c b sub"
  have lb: "length b + 13 \<le> mtu" using assms(1,3) by (simp add: conn_ok_def)
  obtain n buf where st: "built [mkLoad env c b sub] n buf"
    and eq: "writeOne env evs b sub c =
      (case writeWait env evs (new_load env c b sub) (c\<lparr>c_writeBuf := buf\<rparr>) of
         None \<Rightarrow> None
       | Some (Blocked, evs', c') \<Rightarrow> Some (Blocked, evs', c')
       | Some (Done (Some err), evs', c') \<Rightarrow> Some (Done (0, Some err), evs', c')
       | Some (Done None, evs', c') \<Rightarrow> do {
           (r, c'') \<leftarrow> sendLoads env (new_load env c b sub) n b sub c';
           Some (Done r, evs', c'') })"
    using writeOne_start [OF assms(1-3), of sub evs] by blast
  define c1 where "c1 = c\<lparr>c_writeBuf := buf, c_send := q\<rparr>"
  have ww: "writeWait env evs ?l (c\<lparr>c_writeBuf := buf\<rparr>) = Some (Done None, evs, c1)"
    using assms(4) by (simp add: writeWait.simps c1_def)
  have "load_ok ?l" using new_load_ok(1) [OF assms(2)] lb by simp
  from sendable_fill(1) [OF _ this assms(4)] have "conn_ok c1"
    using assms(1) st lb new_load_ok(3) [OF assms(2), of b c sub] by (simp add: c1_def conn_ok_def isClosed_def built_def)
  moreover have "built [mkLoad env c b sub] n (c_writeBuf c1)" using st by (simp add: c1_def)
  ultimately obtain c' acks ls where sl: "sendLoads env ?l n b sub c1 = Some ((length b, None), c')"
    "emits (c1\<lparr>c_seq := c_seq c1 + 1\<rparr>) (acks @ [with_crc (data_bytes (?l # ls))]) c'"
    "set acks \<subseteq> {ack_now c1}" "length (with_crc (data_bytes (?l # ls))) \<le> mtu"
    "set ls \<subseteq> {p \<in> stored (c_send c1). after (pl_seq ?l) (pl_seq p)}"
    using sendLoads_spec [OF _ assms(2), of c1 "mkLoad env c b sub" n ?l b sub] by (auto simp: new_load_def)
  have "emits (c\<lparr>c_send := q, c_seq := c_seq c + 1\<rparr>) (acks @ [with_crc (data_bytes (?l # ls))]) c'"
    using sl(2) st assms(1) by (simp add: emits_def c1_def built_def conn_ok_def)
  moreover have "ack_now c1 = ack_now c" by (simp add: ack_now_def c1_def)
  ultimately show ?thesis using sl eq ww by (auto simp: c1_def)
qed

end
