(* ===== verification/Rdp_Delivery.thy ===== *)
theory Rdp_Delivery
  imports Rdp_Packets
begin

text \<open>
  Two connections and a network between them that loses, duplicates, delays and reorders
  datagrams. Each side keeps two ghost histories: the chunks written (\<open>wrote\<close>: payload and
  sub-packet mark of every successful \<open>writeOne\<close>) and the chunks read (\<open>got\<close>: every load
  \<open>readContext\<close> took from the receive queue). \<open>c_out\<close> is the log of everything a side has
  sent, and the network may deliver any element of it at any time and any number of times.
  The steps are the pieces of \<open>rdp/conn.go\<close> that run without letting another goroutine in
  between: a write, handling one queued packet, taking one load, an acknowledgement, a flush.
\<close>

section \<open>The system\<close>

record peer =
  conn :: RdpConn
  wrote :: "(bytes \<times> bool) list"
  got :: "(bytes \<times> bool) list"

definition content :: "packetLoad \<Rightarrow> bytes \<times> bool" where
  "content l = (the (packetLoad_slice l), pl_subPacket l)"

definition seq_limit :: nat where "seq_limit = 2 ^ 32"

inductive local_step :: "bytes list \<Rightarrow> peer \<Rightarrow> peer \<Rightarrow> bool" for net :: "bytes list" where
  do_write: "env_ok env \<Longrightarrow> int (length b) \<le> c_maxSplitSize (conn P) \<Longrightarrow> Suc (length (wrote P)) < seq_limit \<Longrightarrow>
    writeOne env [] b sub (conn P) = Some (Done (n, None), evs, c') \<Longrightarrow>
    local_step net P (P\<lparr>conn := c', wrote := wrote P @ [(b, sub)]\<rparr>)"
| write_waits: "env_ok env \<Longrightarrow> int (length b) \<le> c_maxSplitSize (conn P) \<Longrightarrow>
    writeOne env [] b sub (conn P) = Some (Blocked, evs, c') \<Longrightarrow>
    local_step net P (P\<lparr>conn := c'\<rparr>)"
| arrive: "d \<in> set net \<Longrightarrow> length buf = mtu \<Longrightarrow> recvDatagram buf d = Some p \<Longrightarrow>
    local_step net P (P\<lparr>conn := arrive p (conn P)\<rparr>)"
| handle: "env_ok env \<Longrightarrow> switchQ_Read False (c_read (conn P)) = (QPacket (Some p), r) \<Longrightarrow>
    transferToQueue env p ((conn P)\<lparr>c_read := r\<rparr>) = Some (k, c') \<Longrightarrow>
    local_step net P (P\<lparr>conn := c'\<rparr>)"
| poll: "switchQ_Read d (c_read (conn P)) = (QBlocked, r) \<Longrightarrow>
    local_step net P (P\<lparr>conn := (conn P)\<lparr>c_read := r\<rparr>\<rparr>)"
| read_load: "env_ok env \<Longrightarrow> queue_Read (c_recv (conn P)) = (Some l, q) \<Longrightarrow>
    takeLoad env l readCount b ((conn P)\<lparr>c_recv := q\<rparr>) = Some (readCount', b', c') \<Longrightarrow>
    local_step net P (P\<lparr>conn := c', got := got P @ [content l]\<rparr>)"
| do_ack: "env_ok env \<Longrightarrow> sendAckBySelectAck env (conn P) = (err, c') \<Longrightarrow>
    local_step net P (P\<lparr>conn := c'\<rparr>)"
| do_flush: "env_ok env \<Longrightarrow> RdpConn_flush env (conn P) = Some (err, c') \<Longrightarrow>
    local_step net P (P\<lparr>conn := c'\<rparr>)"

definition fresh_peer :: "UDPAddr \<Rightarrow> int \<Rightarrow> Metric \<Rightarrow> peer" where
  "fresh_peer remote now m = \<lparr>conn = NewRdpConn remote now m, wrote = [], got = []\<rparr>"

inductive rdp_reachable :: "peer \<Rightarrow> peer \<Rightarrow> bool" where
  start: "rdp_reachable (fresh_peer ra na ma) (fresh_peer rb nb mb)"
| left: "rdp_reachable P Q \<Longrightarrow> local_step (c_out (conn Q)) P P' \<Longrightarrow> rdp_reachable P' Q"
| right: "rdp_reachable P Q \<Longrightarrow> local_step (c_out (conn P)) Q Q' \<Longrightarrow> rdp_reachable P Q'"

section \<open>Invariants\<close>

definition genuine :: "(bytes \<times> bool) list \<Rightarrow> packetLoad \<Rightarrow> bool" where
  "genuine H l \<longleftrightarrow> load_ok l \<and> unat (pl_seq l) < length H \<and> content l = H ! unat (pl_seq l)"

text \<open>The numbers a side has received: those read and those stored.\<close>

definition received :: "peer \<Rightarrow> u32 set" where
  "received Q = {s. unat s < length (got Q)} \<union> {s. q_at (c_recv (conn Q)) s \<noteq> None}"

definition truthful :: "peer \<Rightarrow> u32 \<Rightarrow> u32 \<Rightarrow> bool" where
  "truthful Q a bits \<longleftrightarrow> unat a \<le> length (got Q) \<and> selected (a + 1) bits \<subseteq> received Q"

text \<open>What a packet may say, of the data \<open>H\<close> its sender wrote and of what the sender \<open>Q\<close> has received.\<close>

definition packet_ok :: "peer \<Rightarrow> incomingPacket \<Rightarrow> bool" where
  "packet_ok Q p \<longleftrightarrow>
     (packetKind (ip_header p) = packetData \<longrightarrow>
        (\<exists>ls. incomingPacket_slice p = Some (concat (map load_bytes ls)) \<and> (\<forall>l \<in> set ls. genuine (wrote Q) l))) \<and>
     (packetKind (ip_header p) = packetAck \<longrightarrow> truthful Q (ack (ip_header p)) (ackBits (ip_header p)))"

definition datagram_ok :: "peer \<Rightarrow> bytes \<Rightarrow> bool" where
  "datagram_ok Q d \<longleftrightarrow> (\<forall>buf p. length buf = mtu \<longrightarrow> recvDatagram buf d = Some p \<longrightarrow> packet_ok Q p)"

text \<open>One side against its peer: the peer's packets in its queue, its own datagrams, its
  windows; \<open>one_way P Q\<close> speaks of the data from \<open>P\<close> to \<open>Q\<close>.\<close>

definition side_inv :: "peer \<Rightarrow> bool" where
  "side_inv P \<longleftrightarrow> conn_ok (conn P) \<and> switchQ_inv (c_read (conn P)) \<and> \<not> sq_closed (c_read (conn P)) \<and>
     c_seq (conn P) = of_nat (length (wrote P)) \<and> length (wrote P) < seq_limit \<and>
     (\<forall>l \<in> stored (c_send (conn P)). genuine (wrote P) l) \<and>
     (\<forall>d \<in> set (c_out (conn P)). datagram_ok P d)"

definition one_way :: "peer \<Rightarrow> peer \<Rightarrow> bool" where
  "one_way P Q \<longleftrightarrow> (\<forall>p \<in> set (switchQ_list (c_read (conn Q))). packet_ok P p) \<and>
     seq (c_recv (conn Q)) = of_nat (length (got Q)) \<and>
     got Q = take (length (got Q)) (wrote P) \<and> length (got Q) \<le> length (wrote P) \<and>
     (\<forall>s l. q_at (c_recv (conn Q)) s = Some l \<longrightarrow> genuine (wrote P) l) \<and>
     (\<forall>s. unat s < length (wrote P) \<longrightarrow> s \<in> received Q \<or> q_at (c_send (conn P)) s \<noteq> None) \<and>
     unat (seq (c_send (conn P))) \<le> length (got Q)"

definition sys_inv :: "peer \<Rightarrow> peer \<Rightarrow> bool" where
  "sys_inv P Q \<longleftrightarrow> side_inv P \<and> side_inv Q \<and> one_way P Q \<and> one_way Q P"

lemma sys_inv_sym: "sys_inv P Q \<Longrightarrow> sys_inv Q P"
  by (simp add: sys_inv_def)

section \<open>Monotonicity\<close>

text \<open>What was true of a side stays true when its histories and its received set grow.\<close>

definition grows :: "peer \<Rightarrow> peer \<Rightarrow> bool" where
  "grows P P' \<longleftrightarrow> (\<exists>xs. wrote P' = wrote P @ xs) \<and> length (got P) \<le> length (got P') \<and> received P \<subseteq> received P'"

lemma genuine_mono: "genuine H l \<Longrightarrow> genuine (H @ xs) l"
  by (auto simp: genuine_def nth_append)

lemma packet_ok_mono:
  assumes "grows P P'" "packet_ok P p"
  shows "packet_ok P' p"
proof -
  obtain xs where xs: "wrote P' = wrote P @ xs" using assms(1) by (auto simp: grows_def)
  have "truthful P a bits \<Longrightarrow> truthful P' a bits" for a bits
    using assms(1) by (auto simp: truthful_def grows_def)
  then show ?thesis using assms(2) genuine_mono xs unfolding packet_ok_def by metis
qed

lemma datagram_ok_mono: "grows P P' \<Longrightarrow> datagram_ok P d \<Longrightarrow> datagram_ok P' d"
  using packet_ok_mono by (auto simp: datagram_ok_def)

section \<open>What each side emits is in order\<close>

lemma datagram_data:
  assumes "\<forall>l \<in> set ls. genuine (wrote P) l" "length (with_crc (data_bytes ls)) \<le> mtu"
  shows "datagram_ok P (with_crc (data_bytes ls))"
  using recvDatagram_data [OF assms(2)] assms(1)
  by (fastforce simp: datagram_ok_def packet_ok_def packet_kinds)

lemma datagram_dialack: "datagram_ok P (with_crc [protocolID, packetDialAck])"
  using recvDatagram_dialack by (auto simp: datagram_ok_def packet_ok_def packet_kinds)

lemma datagram_ack:
  assumes "truthful P a bits"
  shows "datagram_ok P (with_crc (ack_bytes a bits))"
  using recvDatagram_ack assms by (fastforce simp: datagram_ok_def packet_ok_def packet_kinds)

lemma ack_now_ok:
  assumes "side_inv P" "one_way Q P" "side_inv Q"
  shows "datagram_ok P (ack_now (conn P))"
proof -
  have inv: "queue_inv (c_recv (conn P))" using assms(1) by (simp add: side_inv_def conn_ok_def recv_inv_def)
  have "length (got P) < 2 ^ 32"
    using assms(2,3) by (auto simp: one_way_def side_inv_def seq_limit_def)
  then have n: "unat (seq (c_recv (conn P))) \<le> length (got P)"
    using assms(2) by (simp add: one_way_def unat_of_nat)
  have "selected (seq (c_recv (conn P)) + 1) (snd (queue_GetAck (c_recv (conn P)))) \<subseteq> received P"
    using queue_GetAck_spec(2) [OF inv] by (auto simp: selected_def received_def)
  with n have "truthful P (fst (queue_GetAck (c_recv (conn P)))) (snd (queue_GetAck (c_recv (conn P))))"
    by (simp add: truthful_def queue_GetAck_spec(1) [OF inv])
  then show ?thesis unfolding ack_now_def by (rule datagram_ack)
qed

section \<open>Preservation\<close>

lemma one_way_sender:
  assumes "one_way P Q" "grows P P'"
    and "\<And>s. unat s < length (wrote P') \<Longrightarrow> s \<in> received Q \<or> q_at (c_send (conn P')) s \<noteq> None"
    and "unat (seq (c_send (conn P'))) \<le> length (got Q)"
  shows "one_way P' Q"
proof -
  obtain xs where xs: "wrote P' = wrote P @ xs" using assms(2) by (auto simp: grows_def)
  have "\<forall>p \<in> set (switchQ_list (c_read (conn Q))). packet_ok P' p"
    using assms(1) packet_ok_mono [OF assms(2)] by (auto simp: one_way_def)
  moreover have "\<forall>s l. q_at (c_recv (conn Q)) s = Some l \<longrightarrow> genuine (wrote P') l"
    using assms(1) genuine_mono unfolding one_way_def xs by blast
  ultimately show ?thesis using assms xs unfolding one_way_def by simp
qed

lemma one_way_receiver:
  assumes "one_way Q P" "grows P P'" "got P' = got P"
    and "\<And>p. p \<in> set (switchQ_list (c_read (conn P'))) \<Longrightarrow> packet_ok Q p"
    and "seq (c_recv (conn P')) = seq (c_recv (conn P))"
    and "\<And>s l. q_at (c_recv (conn P')) s = Some l \<Longrightarrow> genuine (wrote Q) l"
  shows "one_way Q P'"
  using assms unfolding one_way_def grows_def by (metis subsetD)

text \<open>A step that only emits datagrams which are in order.\<close>

lemma emit_step:
  assumes inv: "sys_inv P Q" and em: "emits (conn P) outs c'" and ok: "\<forall>d \<in> set outs. datagram_ok P d"
  shows "sys_inv (P\<lparr>conn := c'\<rparr>) Q"
proof -
  let ?P = "P\<lparr>conn := c'\<rparr>"
  have rcv: "received ?P = received P" using em by (simp add: received_def emits_def)
  have g: "grows P ?P" by (simp add: grows_def rcv)
  have "conn_ok (conn P)" using inv by (simp add: sys_inv_def side_inv_def)
  then have "conn_ok c'" using emits_conn_ok em by blast
  moreover have "\<forall>d \<in> set (c_out c'). datagram_ok ?P d"
    using inv ok em datagram_ok_mono [OF g] by (auto simp: sys_inv_def side_inv_def emits_def)
  ultimately have "side_inv ?P" using inv em by (simp add: sys_inv_def side_inv_def emits_def)
  moreover have "one_way ?P Q"
    using inv em by (intro one_way_sender [OF _ g]) (auto simp: sys_inv_def one_way_def emits_def)
  moreover have "one_way Q ?P"
    using inv em by (intro one_way_receiver [OF _ g]) (auto simp: sys_inv_def one_way_def emits_def)
  ultimately show ?thesis using inv by (simp add: sys_inv_def)
qed

lemma stored_genuine:
  assumes "sys_inv P Q" "set ls \<subseteq> stored (c_send (conn P))"
  shows "\<forall>l \<in> set ls. genuine (wrote P) l"
  using assms by (auto simp: sys_inv_def side_inv_def)

lemma flush_step:
  assumes "sys_inv P Q" "env_ok env" "RdpConn_flush env (conn P) = Some (err, c')"
  shows "sys_inv (P\<lparr>conn := c'\<rparr>) Q"
proof -
  have "conn_ok (conn P)" using assms(1) by (simp add: sys_inv_def side_inv_def)
  from RdpConn_flush_spec [OF this assms(2)] assms(3) obtain ls
    where ls: "emits (conn P) (if ls = [] then [] else [with_crc (data_bytes ls)]) c'"
      "length (with_crc (data_bytes ls)) \<le> mtu" "set ls \<subseteq> stored (c_send (conn P))" by auto
  from datagram_data [OF stored_genuine [OF assms(1) ls(3)] ls(2)]
  show ?thesis by (intro emit_step [OF assms(1) ls(1)]) simp
qed

lemma emits_ack: "emits c [d] (c\<lparr>c_out := c_out c @ [d]\<rparr>)"
  by (simp add: emits_def)

lemma ack_step:
  assumes "sys_inv P Q" "env_ok env" "sendAckBySelectAck env (conn P) = (err, c')"
  shows "sys_inv (P\<lparr>conn := c'\<rparr>) Q"
proof -
  have "\<not> isClosed (conn P)" using assms(1) by (simp add: sys_inv_def side_inv_def conn_ok_def)
  from sendAck_eq(2) [OF this assms(2)] assms(3)
  have "c' = (conn P)\<lparr>c_out := c_out (conn P) @ [ack_now (conn P)]\<rparr>" by simp
  moreover have "datagram_ok P (ack_now (conn P))" using ack_now_ok assms(1) by (auto simp: sys_inv_def)
  ultimately show ?thesis using emit_step [OF assms(1) emits_ack] by simp
qed

text \<open>The two outcomes of a write that is not interrupted.\<close>

lemma writeOne_cases:
  assumes "conn_ok c" "env_ok env" "int (length b) \<le> c_maxSplitSize c" "writeOne env [] b sub c = Some (r, evs, c')"
  obtains (free) q where "queue_Write (c_send c) (new_load env c b sub) = (True, q)" "r = Done (length b, None)"
  | (full) ls where "r = Blocked" "emits c (if ls = [] then [] else [with_crc (data_bytes ls)]) c'"
      "length (with_crc (data_bytes ls)) \<le> mtu" "set ls \<subseteq> stored (c_send c)"
proof -
  obtain ok q where w: "queue_Write (c_send c) (new_load env c b sub) = (ok, q)" by fastforce
  show ?thesis
  proof (cases ok)
    case True
    then show ?thesis using writeOne_free [OF assms(1-3), of sub q "[]"] w assms(4) free by auto
  next
    case False
    obtain n buf where st: "built [mkLoad env c b sub] n buf"
      and eq: "writeOne env [] b sub c =
        (case writeWait env [] (new_load env c b sub) (c\<lparr>c_writeBuf := buf\<rparr>) of
           None \<Rightarrow> None
         | Some (Blocked, evs', c') \<Rightarrow> Some (Blocked, evs', c')
         | Some (Done (Some err), evs', c') \<Rightarrow> Some (Done (0, Some err), evs', c')
         | Some (Done None, evs', c') \<Rightarrow> do {
             (r, c'') \<leftarrow> sendLoads env (new_load env c b sub) n b sub c';
             Some (Done r, evs', c'') })"
      using writeOne_start [OF assms(1-3), of sub "[]"] by blast
    let ?c = "c\<lparr>c_writeBuf := buf\<rparr>"
    have "conn_ok ?c" using assms(1) st by (simp add: conn_ok_def isClosed_def built_def)
    from RdpConn_flush_spec [OF this assms(2)] obtain c1 ls
      where fl: "RdpConn_flush env ?c = Some (None, c1)" "emits ?c (if ls = [] then [] else [with_crc (data_bytes ls)]) c1"
        "length (with_crc (data_bytes ls)) \<le> mtu" "set ls \<subseteq> stored (c_send c)" by auto
    then have "writeWait env [] (new_load env c b sub) ?c = Some (Blocked, [], c1)"
      using w False by (simp add: writeWait.simps writeSelect.simps)
    then have "r = Blocked" "c' = c1" using eq assms(4) by auto
    moreover have "emits c (if ls = [] then [] else [with_crc (data_bytes ls)]) c1"
      using fl(2) st assms(1) by (simp add: emits_def built_def conn_ok_def)
    ultimately show ?thesis using fl full by blast
  qed
qed

lemma unat_seq: "n < seq_limit \<Longrightarrow> unat (of_nat n :: u32) = n"
  by (simp add: seq_limit_def unat_of_nat)

lemma write_step:
  assumes inv: "sys_inv P Q" and env: "env_ok env" and b: "int (length b) \<le> c_maxSplitSize (conn P)"
    and lim: "Suc (length (wrote P)) < seq_limit"
    and w: "writeOne env [] b sub (conn P) = Some (Done (n, None), evs, c')"
  shows "sys_inv (P\<lparr>conn := c', wrote := wrote P @ [(b, sub)]\<rparr>) Q"
proof -
  let ?c = "conn P" and ?P = "P\<lparr>conn := c', wrote := wrote P @ [(b, sub)]\<rparr>"
  let ?l = "new_load env ?c b sub"
  have ok: "conn_ok ?c" using inv by (simp add: sys_inv_def side_inv_def)
  then have lb: "length b \<le> mtu" "length b + 13 \<le> mtu" using b by (simp_all add: conn_ok_def)
  from writeOne_cases [OF ok env b w] obtain q where q: "queue_Write (c_send ?c) ?l = (True, q)" by auto
  from writeOne_free [OF ok env b q, of "[]"] w obtain acks ls
    where em: "emits (?c\<lparr>c_send := q, c_seq := c_seq ?c + 1\<rparr>) (acks @ [with_crc (data_bytes (?l # ls))]) c'"
      and out: "set acks \<subseteq> {ack_now ?c}" "length (with_crc (data_bytes (?l # ls))) \<le> mtu" "set ls \<subseteq> stored q"
    by auto
  have lok: "load_ok ?l" "packetLoad_slice ?l = Some b" "pl_size ?l = length b" using new_load_ok [OF env lb(1)] by simp_all
  have sd: "sendable q" and at: "q_at q = (q_at (c_send ?c))(c_seq ?c \<mapsto> ?l)"
    using sendable_fill [OF _ lok(1) q] ok lb(2) lok(3) by (simp_all add: conn_ok_def)
  have sq: "c_seq ?c = of_nat (length (wrote P))" using inv by (simp add: sys_inv_def side_inv_def)
  then have usq: "unat (c_seq ?c) = length (wrote P)" using lim by (simp add: unat_seq)
  have gl: "genuine (wrote ?P) ?l" using lok usq by (simp add: genuine_def content_def)
  have gst: "genuine (wrote ?P) l" if "l \<in> stored q" for l
  proof (cases "pl_seq l = c_seq ?c")
    case True
    then show ?thesis using that at gl by (simp add: stored_def)
  next
    case False
    then have "l \<in> stored (c_send ?c)" using that at by (simp add: stored_def)
    then show ?thesis using inv genuine_mono by (auto simp: sys_inv_def side_inv_def)
  qed
  have rcv: "received ?P = received P" using em by (simp add: received_def emits_def)
  have g: "grows P ?P" by (simp add: grows_def rcv)
  have "datagram_ok ?P (ack_now ?c)" using ack_now_ok datagram_ok_mono [OF g] inv by (auto simp: sys_inv_def)
  moreover have "datagram_ok ?P (with_crc (data_bytes (?l # ls)))"
    using gl gst out(2,3) by (intro datagram_data) auto
  ultimately have outs: "\<forall>d \<in> set (c_out c'). datagram_ok ?P d"
    using inv em out(1) datagram_ok_mono [OF g] by (auto simp: sys_inv_def side_inv_def emits_def)
  have "conn_ok c'" using ok sd em by (simp add: conn_ok_def emits_def isClosed_def)
  then have "side_inv ?P" using inv em outs gst lim sq
    by (auto simp: sys_inv_def side_inv_def emits_def add.commute)
  moreover have "one_way ?P Q"
  proof (rule one_way_sender [OF _ g])
    fix s :: u32 assume "unat s < length (wrote ?P)"
    then have "unat s < length (wrote P) \<or> s = c_seq ?c" using usq by (auto simp: less_Suc_eq word_unat_eq_iff)
    then show "s \<in> received Q \<or> q_at (c_send (conn ?P)) s \<noteq> None"
      using inv em at by (auto simp: sys_inv_def one_way_def emits_def)
  qed (use inv em sendq.write_state [of "c_send ?c" ?l] q ok in
      \<open>auto simp: sys_inv_def one_way_def emits_def conn_ok_def sendable_def\<close>)
  moreover have "one_way Q ?P"
    using inv em by (intro one_way_receiver [OF _ g]) (auto simp: sys_inv_def one_way_def emits_def)
  ultimately show ?thesis using inv by (simp add: sys_inv_def)
qed

lemma write_waits_step:
  assumes "sys_inv P Q" "env_ok env" "int (length b) \<le> c_maxSplitSize (conn P)"
    and "writeOne env [] b sub (conn P) = Some (Blocked, evs, c')"
  shows "sys_inv (P\<lparr>conn := c'\<rparr>) Q"
proof -
  have "conn_ok (conn P)" using assms(1) by (simp add: sys_inv_def side_inv_def)
  from writeOne_cases [OF this assms(2-4)] obtain ls
    where ls: "emits (conn P) (if ls = [] then [] else [with_crc (data_bytes ls)]) c'"
      "length (with_crc (data_bytes ls)) \<le> mtu" "set ls \<subseteq> stored (c_send (conn P))" by auto
  from datagram_data [OF stored_genuine [OF assms(1) ls(3)] ls(2)]
  show ?thesis by (intro emit_step [OF assms(1) ls(1)]) simp
qed

text \<open>Changing the packet queue only.\<close>

lemma c_read_step:
  assumes inv: "sys_inv P Q" and r: "switchQ_inv r" "\<not> sq_closed r" "\<And>p. p \<in> set (switchQ_list r) \<Longrightarrow> packet_ok Q p"
  shows "sys_inv (P\<lparr>conn := (conn P)\<lparr>c_read := r\<rparr>\<rparr>) Q"
proof -
  let ?P = "P\<lparr>conn := (conn P)\<lparr>c_read := r\<rparr>\<rparr>"
  have g: "grows P ?P" by (simp add: grows_def received_def)
  have "side_inv ?P" using inv r datagram_ok_mono [OF g]
    by (auto simp: sys_inv_def side_inv_def conn_ok_def isClosed_def)
  moreover have "one_way ?P Q" using inv by (intro one_way_sender [OF _ g]) (auto simp: sys_inv_def one_way_def)
  moreover have "one_way Q ?P" using inv r by (intro one_way_receiver [OF _ g]) (auto simp: sys_inv_def one_way_def)
  ultimately show ?thesis using inv by (simp add: sys_inv_def)
qed

lemma arrive_step:
  assumes inv: "sys_inv P Q" and d: "d \<in> set (c_out (conn Q))" "length buf = mtu" "recvDatagram buf d = Some p"
  shows "sys_inv (P\<lparr>conn := arrive p (conn P)\<rparr>) Q"
proof -
  have "packet_ok Q p" using inv d by (auto simp: sys_inv_def side_inv_def datagram_ok_def)
  moreover have i: "switchQ_inv (c_read (conn P))" "\<not> sq_closed (c_read (conn P))" "\<not> isClosed (conn P)"
    "\<forall>p \<in> set (switchQ_list (c_read (conn P))). packet_ok Q p"
    using inv by (auto simp: sys_inv_def side_inv_def one_way_def conn_ok_def)
  ultimately show ?thesis using c_read_step [OF inv, of "snd (switchQ_Write (c_read (conn P)) p)"]
      switchQ_Write_spec [OF i(1,2), of p] by (auto simp: arrive_def)
qed

lemma take_packet:
  assumes inv: "sys_inv P Q" and r: "switchQ_Read False (c_read (conn P)) = (QPacket (Some p), r)"
  shows "sys_inv (P\<lparr>conn := (conn P)\<lparr>c_read := r\<rparr>\<rparr>) Q" "packet_ok Q p"
proof -
  have i: "switchQ_inv (c_read (conn P))" "\<not> sq_closed (c_read (conn P))"
    and ok: "\<forall>p \<in> set (switchQ_list (c_read (conn P))). packet_ok Q p"
    using inv by (auto simp: sys_inv_def side_inv_def one_way_def)
  let ?xs = "switchQ_list (c_read (conn P))"
  have sp: "?xs \<noteq> []" "p = hd ?xs" "switchQ_inv r" "\<not> sq_closed r" "switchQ_list r = tl ?xs"
    using switchQ_Read_spec [OF i, of False] r by (auto split: if_splits)
  then show "packet_ok Q p" using ok by simp
  show "sys_inv (P\<lparr>conn := (conn P)\<lparr>c_read := r\<rparr>\<rparr>) Q"
    using sp ok by (intro c_read_step [OF inv]) (auto dest: list.set_sel(2))
qed

lemma poll_step:
  assumes inv: "sys_inv P Q" and r: "switchQ_Read d (c_read (conn P)) = (QBlocked, r)"
  shows "sys_inv (P\<lparr>conn := (conn P)\<lparr>c_read := r\<rparr>\<rparr>) Q"
proof -
  have i: "switchQ_inv (c_read (conn P))" "\<not> sq_closed (c_read (conn P))"
    using inv by (auto simp: sys_inv_def side_inv_def)
  have "switchQ_inv r" "\<not> sq_closed r" "switchQ_list r = tl (switchQ_list (c_read (conn P)))"
    "switchQ_list (c_read (conn P)) = []"
    using switchQ_Read_spec [OF i, of d] r by (auto split: if_splits)
  then show ?thesis by (intro c_read_step [OF inv]) auto
qed

text \<open>Storing the loads of a data packet.\<close>

lemma same_genuine: "same_load l l' \<Longrightarrow> genuine H l \<Longrightarrow> genuine H l'"
  by (auto simp: same_load_def genuine_def content_def)

lemma set_all_spec:
  assumes "recv_inv q" "\<forall>l \<in> set ls. genuine H l" "\<forall>s l. q_at q s = Some l \<longrightarrow> genuine H l"
  shows "recv_inv (set_all q ls) \<and> seq (set_all q ls) = seq q \<and>
    (\<forall>s l. q_at (set_all q ls) s = Some l \<longrightarrow> genuine H l) \<and> (\<forall>s. q_at q s \<noteq> None \<longrightarrow> q_at (set_all q ls) s \<noteq> None)"
  using assms
proof (induction ls arbitrary: q)
  case Nil
  then show ?case by (simp add: set_all_def)
next
  case (Cons l ls)
  let ?q = "snd (queue_Set q l)"
  have st: "recv_inv ?q" "seq ?q = seq q" "q_at ?q = (if fst (queue_Set q l) then (q_at q)(pl_seq l \<mapsto> l) else q_at q)"
    using recvq.set_state [OF Cons.prems(1), of l] by auto
  have "genuine H l'" if "q_at ?q s = Some l'" for s l'
    using that st(3) Cons.prems(2,3) by (cases "fst (queue_Set q l)"; cases "s = pl_seq l") simp_all
  moreover have "\<forall>l \<in> set ls. genuine H l" using Cons.prems(2) by simp
  ultimately have ih: "recv_inv (set_all ?q ls) \<and> seq (set_all ?q ls) = seq ?q \<and>
      (\<forall>s l. q_at (set_all ?q ls) s = Some l \<longrightarrow> genuine H l) \<and>
      (\<forall>s. q_at ?q s \<noteq> None \<longrightarrow> q_at (set_all ?q ls) s \<noteq> None)"
    using Cons.IH [OF st(1)] by blast
  have "q_at ?q s \<noteq> None" if "q_at q s \<noteq> None" for s using st(3) that by simp
  moreover have "set_all q (l # ls) = set_all ?q ls" by (simp add: set_all_def)
  ultimately show ?case using ih st(2) by metis
qed

lemma set_all_keeps:
  assumes "recv_inv q" "q_at q s \<noteq> None"
  shows "q_at (set_all q ls) s \<noteq> None"
  using assms
proof (induction ls arbitrary: q)
  case (Cons l ls)
  have "recv_inv (snd (queue_Set q l))" using recvq.set_state [OF Cons.prems(1), of l] by blast
  from Cons.IH [OF this recvq.keeps(1) [OF Cons.prems, of l]] show ?case by (simp add: set_all_def)
qed (simp add: set_all_def)

lemma recv_step:
  assumes inv: "sys_inv P Q" and q: "recv_inv q" "seq q = seq (c_recv (conn P))"
    "\<forall>s l. q_at q s = Some l \<longrightarrow> genuine (wrote Q) l" "\<forall>s. q_at (c_recv (conn P)) s \<noteq> None \<longrightarrow> q_at q s \<noteq> None"
  shows "sys_inv (P\<lparr>conn := (conn P)\<lparr>c_recv := q\<rparr>\<rparr>) Q"
proof -
  let ?P = "P\<lparr>conn := (conn P)\<lparr>c_recv := q\<rparr>\<rparr>"
  have g: "grows P ?P" using q(4) by (auto simp: grows_def received_def)
  have "side_inv ?P" using inv q(1) datagram_ok_mono [OF g]
    by (auto simp: sys_inv_def side_inv_def conn_ok_def isClosed_def)
  moreover have "one_way ?P Q" using inv by (intro one_way_sender [OF _ g]) (auto simp: sys_inv_def one_way_def)
  moreover have "one_way Q ?P" using inv q by (intro one_way_receiver [OF _ g]) (auto simp: sys_inv_def one_way_def)
  ultimately show ?thesis using inv by (simp add: sys_inv_def)
qed

text \<open>Handling an acknowledgement: what is dropped has been received.\<close>

lemma send_step:
  assumes inv: "sys_inv P Q" and ack: "truthful Q a bits"
    and q: "queue_Ack now (c_send (conn P)) a bits (c_w (conn P)) = Some (n, q, w)"
  shows "sys_inv (P\<lparr>conn := (conn P)\<lparr>c_send := q, c_w := w\<rparr>\<rparr>) Q"
proof -
  let ?P = "P\<lparr>conn := (conn P)\<lparr>c_send := q, c_w := w\<rparr>\<rparr>" and ?s = "c_send (conn P)"
  have g: "grows P ?P" by (simp add: grows_def received_def)
  have sd: "sendable ?s" using inv by (simp add: sys_inv_def side_inv_def conn_ok_def)
  then have i: "queue_inv ?s" by (simp add: sendable_def)
  note st = sendq.ack_state [OF i q] and only = sendq.ack_only_removes [OF i q]
  have sdq: "sendable q" using st only sd unfolding sendable_def by blast
  have stq: "stored q \<subseteq> stored ?s" using only by (auto simp: stored_def)
  have acked: "acked (seq ?s) a bits \<subseteq> received Q"
  proof -
    have "s \<in> received Q" if "s < a" for s
      using that ack by (auto simp: received_def truthful_def word_less_nat_alt)
    then show ?thesis using ack by (auto simp: acked_def truthful_def)
  qed
  have mono: "unat (seq q) \<le> length (got Q)"
    using queue_Ack_spec(3) [OF i q] ack inv by (auto simp: truthful_def sys_inv_def one_way_def max_def)
  have "side_inv ?P" using inv sdq stq datagram_ok_mono [OF g]
    by (auto simp: sys_inv_def side_inv_def conn_ok_def isClosed_def)
  moreover have "one_way ?P Q"
  proof (rule one_way_sender [OF _ g])
    fix s :: u32 assume "unat s < length (wrote ?P)"
    then have "s \<in> received Q \<or> q_at ?s s \<noteq> None" using inv by (simp add: sys_inv_def one_way_def)
    then show "s \<in> received Q \<or> q_at (c_send (conn ?P)) s \<noteq> None"
      using st acked by (simp, metis subsetD)
  qed (use inv mono in \<open>auto simp: sys_inv_def one_way_def\<close>)
  moreover have "one_way Q ?P" using inv by (intro one_way_receiver [OF _ g]) (auto simp: sys_inv_def one_way_def)
  ultimately show ?thesis using inv by (simp add: sys_inv_def)
qed

lemma transfer_step:
  assumes inv: "sys_inv P Q" and env: "env_ok env" and p: "packet_ok Q p"
    and t: "transferToQueue env p (conn P) = Some (k, c')"
  shows "sys_inv (P\<lparr>conn := c'\<rparr>) Q"
proof -
  let ?c = "conn P"
  have ok: "conn_ok ?c" using inv by (simp add: sys_inv_def side_inv_def)
  then have cl: "\<not> isClosed ?c" by (simp add: conn_ok_def)
  consider (dial) "packetKind (ip_header p) = packetDial" | (data) "packetKind (ip_header p) = packetData"
    | (ack) "packetKind (ip_header p) = packetAck"
    | (other) "packetKind (ip_header p) \<notin> {packetDial, packetData, packetAck}" by blast
  then show ?thesis
  proof cases
    case dial
    then have "c' = ?c\<lparr>c_out := c_out ?c @ [with_crc [protocolID, packetDialAck]]\<rparr>"
      using t sendDialAck_eq [OF cl env] by (simp add: transferToQueue_def)
    then show ?thesis using emit_step [OF inv emits_ack] datagram_dialack by simp
  next
    case data
    then obtain ls where ls: "incomingPacket_slice p = Some (concat (map load_bytes ls))" "\<forall>l \<in> set ls. genuine (wrote Q) l"
      using p by (auto simp: packet_ok_def)
    let ?raw = "packetLoad_zero\<lparr>pl_buf := Some (e_pool env 0)\<rparr>"
    have "\<forall>l \<in> set ls. load_ok l" using ls(2) by (simp add: genuine_def)
    from readLoads_loads [OF this, of ?raw "e_pool env 0" "e_pool env" "c_recv ?c" 0] env
    obtain ls' k' where ls': "list_all2 same_load ls ls'"
      "readLoads (e_pool env) ?raw (c_recv ?c) 0 (concat (map load_bytes ls)) = Some (k', set_all (c_recv ?c) ls')"
      by (auto simp: env_ok_def)
    have "\<forall>l \<in> set ls'. genuine (wrote Q) l"
      using ls'(1) ls(2) same_genuine by (fastforce simp: list_all2_conv_all_nth in_set_conv_nth)
    moreover have "recv_inv (c_recv ?c)" using ok by (simp add: conn_ok_def)
    moreover have "\<forall>s l. q_at (c_recv ?c) s = Some l \<longrightarrow> genuine (wrote Q) l"
      using inv by (simp add: sys_inv_def one_way_def)
    ultimately have sa: "recv_inv (set_all (c_recv ?c) ls')" "seq (set_all (c_recv ?c) ls') = seq (c_recv ?c)"
      "\<forall>s l. q_at (set_all (c_recv ?c) ls') s = Some l \<longrightarrow> genuine (wrote Q) l"
      "\<forall>s. q_at (c_recv ?c) s \<noteq> None \<longrightarrow> q_at (set_all (c_recv ?c) ls') s \<noteq> None"
      using set_all_spec [of "c_recv ?c" ls' "wrote Q"] by blast+
    have "c' = ?c\<lparr>c_recv := set_all (c_recv ?c) ls'\<rparr>"
      using data t ls(1) ls'(2) by (simp add: transferToQueue_def packet_kinds)
    then show ?thesis using recv_step [OF inv sa] by simp
  next
    case ack
    then have "truthful Q (Rdp_Datagram.ack (ip_header p)) (ackBits (ip_header p))"
      using p by (simp add: packet_ok_def)
    moreover obtain n q w where "queue_Ack (e_clk env) (c_send ?c) (Rdp_Datagram.ack (ip_header p)) (ackBits (ip_header p)) (c_w ?c)
        = Some (n, q, w)" "c' = ?c\<lparr>c_send := q, c_w := w\<rparr>"
      using ack t by (auto simp: transferToQueue_def packet_kinds bind_eq_Some_conv)
    ultimately show ?thesis using send_step [OF inv] by simp
  next
    case other
    then have "c' = ?c" using t by (simp add: transferToQueue_def)
    then show ?thesis using inv by simp
  qed
qed

lemma read_step:
  assumes inv: "sys_inv P Q" and q: "queue_Read (c_recv (conn P)) = (Some l, q)"
    and t: "takeLoad env l rc b ((conn P)\<lparr>c_recv := q\<rparr>) = Some (rc', b', c')"
  shows "sys_inv (P\<lparr>conn := c', got := got P @ [content l]\<rparr>) Q"
proof -
  let ?P = "P\<lparr>conn := c', got := got P @ [content l]\<rparr>" and ?r = "c_recv (conn P)"
  have ri: "recv_inv ?r" using inv by (simp add: sys_inv_def side_inv_def conn_ok_def)
  have at: "q_at ?r (seq ?r) = Some l" using recvq.read_result [OF ri] q by simp
  then have q': "recv_inv q" "seq q = seq ?r + 1" "q_at q = (q_at ?r)(seq ?r := None)"
    using recvq.read_state [OF ri] q by simp_all
  have ow: "one_way Q P" and lim: "length (wrote Q) < seq_limit" using inv by (auto simp: sys_inv_def side_inv_def)
  have sq: "seq ?r = of_nat (length (got P))" and le: "length (got P) \<le> length (wrote Q)"
    and gp: "got P = take (length (got P)) (wrote Q)" using ow by (auto simp: one_way_def)
  have gl: "genuine (wrote Q) l" using ow at by (auto simp: one_way_def)
  have un: "unat (pl_seq l) = length (got P)" using q_at_seq [OF at] sq le lim by (simp add: unat_seq)
  have c': "c_recv c' = q" "c_read c' = c_read (conn P)" "c_send c' = c_send (conn P)" "c_seq c' = c_seq (conn P)"
    "c_out c' = c_out (conn P)" "conn_ok c'"
    using t inv q'(1)
    by (auto simp: takeLoad_def Let_def sys_inv_def side_inv_def conn_ok_def isClosed_def split: option.splits)
  have rc: "received P \<subseteq> received ?P"
  proof
    fix s assume "s \<in> received P"
    then have "unat s < length (got P) \<or> q_at ?r s \<noteq> None" by (auto simp: received_def)
    moreover have "unat (seq ?r) = length (got P)" using sq le lim by (simp add: unat_seq)
    ultimately show "s \<in> received ?P" using q'(3) c'(1) by (auto simp: received_def less_Suc_eq)
  qed
  then have g: "grows P ?P" by (simp add: grows_def)
  have "side_inv ?P" using inv c' datagram_ok_mono [OF g] by (auto simp: sys_inv_def side_inv_def)
  moreover have "one_way ?P Q"
    using inv c' by (intro one_way_sender [OF _ g]) (auto simp: sys_inv_def one_way_def)
  moreover have "one_way Q ?P"
  proof -
    have lt: "length (got P) < length (wrote Q)" "content l = wrote Q ! length (got P)"
      using gl un by (auto simp: genuine_def)
    then have "got P @ [content l] = take (Suc (length (got P))) (wrote Q)"
      using gp by (simp add: take_Suc_conv_app_nth)
    moreover have "\<forall>s l. q_at q s = Some l \<longrightarrow> genuine (wrote Q) l"
      using ow q'(3) by (auto simp: one_way_def)
    ultimately show ?thesis using ow lt q'(2) sq c' rc by (auto simp: one_way_def add.commute)
  qed
  ultimately show ?thesis using inv by (simp add: sys_inv_def)
qed

lemma local_step_inv:
  assumes "local_step (c_out (conn Q)) P P'" "sys_inv P Q"
  shows "sys_inv P' Q"
  using assms
proof (induction rule: local_step.induct)
  case (handle env P p r k c')
  then show ?case using take_packet [of P Q p r]
      transfer_step [of "P\<lparr>conn := (conn P)\<lparr>c_read := r\<rparr>\<rparr>" Q env p k c'] by simp
qed (blast intro: write_step write_waits_step arrive_step poll_step read_step ack_step flush_step)+

lemma fresh_inv: "sys_inv (fresh_peer ra na ma) (fresh_peer rb nb mb)"
  by (simp add: sys_inv_def side_inv_def one_way_def fresh_peer_def NewRdpConn_def conn_ok_def isClosed_def
      sendable_def stored_def recv_inv_def received_def seq_limit_def defaultMaxSplitPacketSize_def mtu_def)

lemma rdp_reachable_inv: "rdp_reachable P Q \<Longrightarrow> sys_inv P Q"
proof (induction rule: rdp_reachable.induct)
  case (left P Q P')
  then show ?case by (blast intro: local_step_inv)
next
  case (right P Q Q')
  then show ?case by (blast intro: local_step_inv sys_inv_sym)
qed (rule fresh_inv)

section \<open>Retransmission makes progress\<close>

lemma set_all_next:
  assumes "recv_inv q" "l \<in> set ls" "pl_seq l = seq q"
  shows "q_at (set_all q ls) (seq q) \<noteq> None"
  using assms
proof (induction ls arbitrary: q)
  case (Cons x ls)
  let ?q = "snd (queue_Set q x)"
  have st: "recv_inv ?q" "seq ?q = seq q" "q_at ?q = (if fst (queue_Set q x) then (q_at q)(pl_seq x \<mapsto> x) else q_at q)"
    using recvq.set_state [OF Cons.prems(1), of x] by auto
  have eq: "set_all q (x # ls) = set_all ?q ls" by (simp add: set_all_def)
  show ?case
  proof (cases "l \<in> set ls")
    case True
    then show ?thesis using Cons.IH [OF st(1) True] Cons.prems(3) st(2) eq by simp
  next
    case False
    then have "q_at ?q (seq q) \<noteq> None"
      using Cons.prems st(3) recvq.set_accepts [OF Cons.prems(1), of x] by (auto simp: queueSize_def split: if_splits)
    then show ?thesis using eq set_all_keeps [OF st(1)] by simp
  qed
qed simp

text \<open>Handling a data packet, as a function of its loads.\<close>

lemma transfer_data:
  assumes "env_ok env" "packetKind (ip_header p) = packetData" "incomingPacket_slice p = Some (concat (map load_bytes ls))"
    "\<forall>l \<in> set ls. load_ok l"
  obtains ls' k where "list_all2 same_load ls ls'" "transferToQueue env p c = Some (k, c\<lparr>c_recv := set_all (c_recv c) ls'\<rparr>)"
proof -
  let ?raw = "packetLoad_zero\<lparr>pl_buf := Some (e_pool env 0)\<rparr>"
  from readLoads_loads [OF assms(4), of ?raw "e_pool env 0" "e_pool env" "c_recv c" 0] assms(1)
  obtain ls' k' where "list_all2 same_load ls ls'"
    "readLoads (e_pool env) ?raw (c_recv c) 0 (concat (map load_bytes ls)) = Some (k', set_all (c_recv c) ls')"
    by (auto simp: env_ok_def)
  then show ?thesis using that assms(2,3) by (simp add: transferToQueue_def packet_kinds)
qed

text \<open>When everything read so far is acknowledged, a flush brings the chunk the reader waits for:
  once its datagram is delivered and handled, the next read gives that chunk.\<close>

lemma flush_delivers_next:
  assumes reach: "rdp_reachable P Q" and base: "seq (c_send (conn P)) = of_nat (length (got Q))"
    and lt: "length (got Q) < length (wrote P)" and gap: "length (wrote P) \<le> length (got Q) + 2 ^ 31"
    and none: "q_at (c_recv (conn Q)) (seq (c_recv (conn Q))) = None"
    and env: "env_ok env" "env_ok env'" and buf: "length buf = mtu"
  shows "\<exists>c' d p k c''. RdpConn_flush env (conn P) = Some (None, c') \<and> c_out c' = c_out (conn P) @ [d] \<and>
    recvDatagram buf d = Some p \<and> transferToQueue env' p (conn Q) = Some (k, c'') \<and>
    (\<exists>l q. queue_Read (c_recv c'') = (Some l, q) \<and> content l = wrote P ! length (got Q))"
proof -
  have inv: "sys_inv P Q" by (rule rdp_reachable_inv [OF reach])
  then have okP: "conn_ok (conn P)" and okQ: "conn_ok (conn Q)" and ow: "one_way P Q"
    and lim: "length (wrote P) < seq_limit" and cs: "c_seq (conn P) = of_nat (length (wrote P))"
    by (auto simp: sys_inv_def side_inv_def)
  let ?s = "of_nat (length (got Q)) :: u32" and ?r = "c_recv (conn Q)"
  have us: "unat ?s = length (got Q)" using lt lim by (simp add: unat_seq)
  have sr: "seq ?r = ?s" using ow by (simp add: one_way_def)
  have "?s \<notin> received Q" using none us sr by (simp add: received_def)
  moreover have "unat ?s < length (wrote P) \<longrightarrow> ?s \<in> received Q \<or> q_at (c_send (conn P)) ?s \<noteq> None"
    using ow unfolding one_way_def by blast
  ultimately obtain l where l: "q_at (c_send (conn P)) ?s = Some l" using us lt by auto
  have ls: "pl_seq l = ?s" using q_at_seq [OF l] .
  then have st: "l \<in> stored (c_send (conn P))" using l by (simp add: stored_def)
  have "sendable (c_send (conn P))" using okP by (simp add: conn_ok_def)
  then have sz: "pl_size l + 13 \<le> mtu" using sendable_stored(2) st by blast
  have "c_seq (conn P) = ?s + of_nat (length (wrote P) - length (got Q))" using cs lt by simp
  then have af: "after (c_seq (conn P)) (pl_seq l)"
    using after_add [of "length (wrote P) - length (got Q)" ?s] lt gap ls by simp
  have get: "queue_Get (c_send (conn P)) 0 = Some l" using l base by (simp add: queue_Get_at)
  from RdpConn_flush_spec [OF okP env(1)] get af sz obtain c' fs
    where f: "RdpConn_flush env (conn P) = Some (None, c')" "emits (conn P) (if fs = [] then [] else [with_crc (data_bytes fs)]) c'"
      "length (with_crc (data_bytes fs)) \<le> mtu" "set fs \<subseteq> stored (c_send (conn P))" "l \<in> set fs" by auto
  let ?d = "with_crc (data_bytes fs)"
  have out: "c_out c' = c_out (conn P) @ [?d]" using f(2,5) by (auto simp: emits_def)
  have gen: "\<forall>l \<in> set fs. genuine (wrote P) l" by (rule stored_genuine [OF inv f(4)])
  then have oks: "\<forall>l \<in> set fs. load_ok l" by (simp add: genuine_def)
  obtain p where p: "recvDatagram buf ?d = Some p" "packetKind (ip_header p) = packetData"
    "incomingPacket_slice p = Some (concat (map load_bytes fs))" using recvDatagram_data [OF f(3) buf] by blast
  obtain fs' k where t: "list_all2 same_load fs fs'"
    "transferToQueue env' p (conn Q) = Some (k, (conn Q)\<lparr>c_recv := set_all ?r fs'\<rparr>)"
    by (rule transfer_data [OF env(2) p(2,3) oks])
  obtain i where "i < length fs" "fs ! i = l" using f(5) by (auto simp: in_set_conv_nth)
  then obtain l' where l': "l' \<in> set fs'" "same_load l l'"
    using list_all2_nthD [OF t(1)] list_all2_lengthD [OF t(1)] nth_mem by metis
  have ri: "recv_inv ?r" using okQ by (simp add: conn_ok_def)
  have "pl_seq l' = seq ?r" using l'(2) ls sr by (simp add: same_load_def)
  from set_all_next [OF ri l'(1) this] obtain m where m: "q_at (set_all ?r fs') (seq ?r) = Some m" by auto
  have "\<forall>l \<in> set fs'. genuine (wrote P) l"
    using t(1) gen same_genuine by (fastforce simp: list_all2_conv_all_nth in_set_conv_nth)
  moreover have "\<forall>s l. q_at ?r s = Some l \<longrightarrow> genuine (wrote P) l" using ow by (simp add: one_way_def)
  ultimately have sa: "seq (set_all ?r fs') = seq ?r" "genuine (wrote P) m"
    using set_all_spec [OF ri, of fs' "wrote P"] m by blast+
  have "content m = wrote P ! length (got Q)"
    using sa(2) q_at_seq [OF m] sr us by (simp add: genuine_def)
  moreover have "\<exists>q. queue_Read (set_all ?r fs') = (Some m, q)"
    using m sa(1) by (simp add: queue_Read_at)
  ultimately have "\<exists>m q. queue_Read (c_recv ((conn Q)\<lparr>c_recv := set_all ?r fs'\<rparr>)) = (Some m, q) \<and>
      content m = wrote P ! length (got Q)" by auto
  then show ?thesis using f(1) out p(1) t(2) by blast
qed

section \<open>Duplicates are not acknowledged again\<close>

text \<open>A load that was read or is stored is refused; a packet of such loads changes nothing and is
  answered by nothing, so a sender whose acknowledgements were lost hears nothing more from a
  reader that does not write.\<close>

definition refused :: "queue \<Rightarrow> packetLoad \<Rightarrow> bool" where
  "refused q l \<longleftrightarrow> \<not> (unat (pl_seq l - seq q) < queueSize \<and> q_at q (pl_seq l) = None)"

lemma readLoads_refused:
  assumes "recv_inv q" "\<forall>l \<in> set ls. load_ok l \<and> refused q l" "pl_buf l0 = Some g" "length g = mtu"
  shows "readLoads pool l0 q k (concat (map load_bytes ls)) = Some (k, q)"
  using assms(2,3,4)
proof (induction ls arbitrary: l0 g)
  case Nil
  then show ?case by (simp add: readLoads.simps [of pool l0 q k "[]"] packetLoad_readFrom_def packetLoad_overhead_def)
next
  case (Cons l ls)
  let ?rest = "concat (map load_bytes ls)"
  have ok: "load_ok l" using Cons.prems(1) by simp
  from packetLoad_readFrom_bytes [OF ok Cons.prems(2,3), of ?rest] obtain l'
    where l': "packetLoad_readFrom l0 (load_bytes l @ ?rest) = Some (packetLoad_overhead + pl_size l, l')"
      and same: "same_load l l'" by (auto simp: same_load_def)
  obtain g' where g': "pl_buf l' = Some g'" "length g' = mtu" using same by (auto simp: same_load_def load_ok_def)
  have "queue_Set q l' = (False, q)"
    using Cons.prems(1) same queue_Set_eq [OF assms(1), of l'] by (auto simp: refused_def same_load_def)
  moreover have "drop (packetLoad_overhead + pl_size l) (load_bytes l @ ?rest) = ?rest"
    using length_load_bytes [OF ok] by simp
  moreover have "packetLoad_overhead + pl_size l \<noteq> 0" by (simp add: packetLoad_overhead_def)
  ultimately have "readLoads pool l0 q k (load_bytes l @ ?rest) = readLoads pool l' q k ?rest"
    by (auto simp: readLoads.simps [of pool l0 q k] l')
  then show ?case using Cons.IH [OF _ g'] Cons.prems(1) by simp
qed

lemma transfer_refused:
  assumes "env_ok env" "recv_inv (c_recv c)" "packetKind (ip_header p) = packetData"
    "incomingPacket_slice p = Some (concat (map load_bytes ls))" "\<forall>l \<in> set ls. load_ok l \<and> refused (c_recv c) l"
  shows "transferToQueue env p c = Some (0, c)"
  using readLoads_refused [OF assms(2,5), of "packetLoad_zero\<lparr>pl_buf := Some (e_pool env 0)\<rparr>" "e_pool env 0" "e_pool env" 0]
    assms(1,3,4) by (simp add: transferToQueue_def packet_kinds env_ok_def)

end
