(* ===== verification/Rdp_Messages.thy ===== *)
theory Rdp_Messages
  imports Rdp_Delivery
begin

text \<open>
  Messages over chunks: \<open>writeContext\<close> cuts a message into chunks, \<open>readContext\<close> puts the
  chunks up to the one that is not a sub-packet together. Both calls are runs of the steps of
  the two-party system, so what holds of reachable states holds of programs that use
  \<open>Read\<close> and \<open>Write\<close>.
\<close>

section \<open>Splitting and joining\<close>

function split_msg :: "nat \<Rightarrow> bytes \<Rightarrow> (bytes \<times> bool) list" where
  "split_msg mss b =
     (if mss = 0 then []
      else if length b > mss then (take mss b, True) # split_msg mss (drop mss b)
      else if b \<noteq> [] then [(b, False)] else [])"
  by pat_completeness auto
termination
  by (relation "measure (\<lambda>(mss, b). length b)") auto

declare split_msg.simps [simp del]

fun assemble :: "bytes \<Rightarrow> (bytes \<times> bool) list \<Rightarrow> bytes list" where
  "assemble acc [] = []"
| "assemble acc ((b, sub) # cs) = (if sub then assemble (acc @ b) cs else (acc @ b) # assemble [] cs)"

lemma assemble_split:
  assumes "0 < mss" "b \<noteq> []"
  shows "assemble acc (split_msg mss b @ cs) = (acc @ b) # assemble [] cs"
  using assms
proof (induction mss b arbitrary: acc rule: split_msg.induct)
  case (1 mss b)
  show ?case
  proof (cases "length b > mss")
    case True
    then have "drop mss b \<noteq> []" by simp
    then show ?thesis using 1 True by (simp add: split_msg.simps [of mss b])
  next
    case False
    then show ?thesis using 1(2,3) by (simp add: split_msg.simps [of mss b])
  qed
qed

lemma assemble_messages:
  "0 < mss \<Longrightarrow> \<forall>b \<in> set msgs. b \<noteq> [] \<Longrightarrow> assemble [] (concat (map (split_msg mss) msgs)) = msgs"
  by (induction msgs) (simp_all add: assemble_split)

lemma assemble_take: "\<exists>zs. assemble acc cs = assemble acc (take n cs) @ zs"
proof (induction acc cs arbitrary: n rule: assemble.induct)
  case (2 acc b sub cs)
  then show ?case by (cases n) auto
qed simp

lemma split_msg_sizes: "(x, sub) \<in> set (split_msg mss b) \<Longrightarrow> length x \<le> mss"
proof (induction mss b rule: split_msg.induct)
  case (1 mss b)
  then show ?case using split_msg.simps [of mss b] by (auto split: if_splits)
qed

lemma length_split_msg: "length (split_msg mss b) \<le> length b"
proof (induction mss b rule: split_msg.induct)
  case (1 mss b)
  then show ?case using split_msg.simps [of mss b] by (cases b) auto
qed

section \<open>A write is a run of chunk writes\<close>

lemma writeOne_count:
  assumes "conn_ok c" "env_ok env" "int (length b) \<le> c_maxSplitSize c"
    "writeOne env [] b sub c = Some (Done (n, err), evs, c')"
  shows "n = length b" "err = None" "evs = []" "conn_ok c'" "c_maxSplitSize c' = c_maxSplitSize c"
proof -
  from writeOne_cases [OF assms] obtain q where q: "queue_Write (c_send c) (new_load env c b sub) = (True, q)"
    and r: "Done (n, err) = Done (length b, None)" by auto
  from writeOne_free [OF assms(1-3) q, of "[]"] assms(4) obtain acks ls
    where em: "emits (c\<lparr>c_send := q, c_seq := c_seq c + 1\<rparr>) (acks @ [with_crc (data_bytes (new_load env c b sub # ls))]) c'"
      and "evs = []" by auto
  then show "n = length b" "err = None" "evs = []" "c_maxSplitSize c' = c_maxSplitSize c"
    using r by (auto simp: emits_def)
  have "length b + 13 \<le> mtu" using assms(1,3) by (simp add: conn_ok_def)
  then have "load_ok (new_load env c b sub)" "pl_size (new_load env c b sub) + 13 \<le> mtu"
    using new_load_ok [OF assms(2), of b c sub] by auto
  from sendable_fill(1) [OF _ this(1) q this(2)]
  have "conn_ok (c\<lparr>c_send := q, c_seq := c_seq c + 1\<rparr>)" using assms(1) by (simp add: conn_ok_def isClosed_def)
  then show "conn_ok c'" using emits_conn_ok em by blast
qed

lemma writeSplit_steps:
  assumes "conn_ok (conn P)" "env_ok env" "c_maxSplitSize (conn P) = int mss" "count \<le> length b"
    "length (wrote P) + length (drop count b) < seq_limit"
    "writeSplit env [] b count (int (length (drop count b))) (int mss) (conn P) = Some (Done (n, None), evs, c')"
  shows "(local_step net)\<^sup>*\<^sup>* P (P\<lparr>conn := c', wrote := wrote P @ split_msg mss (drop count b)\<rparr>)"
  using assms
proof (induction "length (drop count b)" arbitrary: count P rule: less_induct)
  case less
  let ?left = "length (drop count b)"
  have mss: "0 < mss" using less.prems(1,3) by (simp add: conn_ok_def)
  note unf = writeSplit.simps [of env "[]" b count "int ?left" "int mss" "conn P"]
  show ?case
  proof (cases "?left > mss")
    case True
    let ?x = "take mss (drop count b)"
    have big: "int ?left > int mss" "int mss < int (length b) - int count" using True by simp_all
    obtain r evs1 c1 where w: "writeOne env [] ?x True (conn P) = Some (r, evs1, c1)"
      and rest: "(case r of Blocked \<Rightarrow> Some (Blocked, evs1, c1)
         | Done (m, Some err) \<Rightarrow> Some (Done (count + m, Some err), evs1, c1)
         | Done (m, None) \<Rightarrow> writeSplit env evs1 b (count + m) (int ?left - int m) (int mss) c1)
         = Some (Done (n, None), evs, c')"
      using less.prems(6) big unfolding unf by (auto simp: bind_eq_Some_conv)
    have lx: "int (length ?x) \<le> c_maxSplitSize (conn P)" using less.prems(3) by simp
    obtain m err where r: "r = Done (m, err)" using rest by (cases r) auto
    note wc = writeOne_count [OF less.prems(1,2) lx w [unfolded r]]
    have m: "m = mss" using wc(1) True by simp
    let ?P = "P\<lparr>conn := c1, wrote := wrote P @ [(?x, True)]\<rparr>"
    have dd: "drop (count + mss) b = drop mss (drop count b)" by (simp add: add.commute)
    have step: "local_step net P ?P"
      using local_step.do_write [OF less.prems(2) lx _ w [unfolded r wc(2)]] less.prems(5) True mss by simp
    have "int ?left - int m = int (length (drop (count + mss) b))" using True m by simp
    then have "writeSplit env [] b (count + mss) (int (length (drop (count + mss) b))) (int mss) (conn ?P)
        = Some (Done (n, None), evs, c')" using rest r wc(2,3) m by simp
    from less.hyps [OF _ _ less.prems(2) _ _ _ this]
    have "(local_step net)\<^sup>*\<^sup>* ?P (?P\<lparr>conn := c', wrote := wrote ?P @ split_msg mss (drop (count + mss) b)\<rparr>)"
      using True mss wc(4,5) less.prems(3,4,5) by simp
    moreover have "split_msg mss (drop count b) = (?x, True) # split_msg mss (drop (count + mss) b)"
      using True mss dd by (simp add: split_msg.simps [of mss "drop count b"])
    ultimately show ?thesis using step by (auto intro: converse_rtranclp_into_rtranclp)
  next
    case False
    show ?thesis
    proof (cases "?left = 0")
      case True
      then have "c' = conn P" using less.prems(6) mss unfolding unf by auto
      moreover have "split_msg mss (drop count b) = []" using True by (simp add: split_msg.simps)
      ultimately show ?thesis by simp
    next
      case ne: False
      let ?x = "drop count b"
      have lx: "int (length ?x) \<le> c_maxSplitSize (conn P)" using less.prems(3) False by simp
      obtain r evs1 c1 where w1: "writeOne env [] ?x False (conn P) = Some (r, evs1, c1)"
        and rest: "(case r of Blocked \<Rightarrow> Some (Blocked, evs1, c1)
          | Done (m, err) \<Rightarrow> Some (Done (count + m, err), evs1, c1)) = Some (Done (n, None), evs, c')"
        using less.prems(6) False ne unfolding unf by (auto simp: bind_eq_Some_conv)
      obtain m err where w: "writeOne env [] ?x False (conn P) = Some (Done (m, err), evs1, c')" and e: "err = None"
        using w1 rest by (cases r) auto
      have "local_step net P (P\<lparr>conn := c', wrote := wrote P @ [(?x, False)]\<rparr>)"
        using local_step.do_write [OF less.prems(2) lx _ w [unfolded e]] less.prems(5) ne by simp
      moreover have "split_msg mss ?x = [(?x, False)]"
        using False ne mss by (simp add: split_msg.simps [of mss ?x])
      ultimately show ?thesis by auto
    qed
  qed
qed

text \<open>A whole \<open>Write\<close> that returns without error.\<close>

lemma writeContext_steps:
  assumes "conn_ok (conn P)" "env_ok env" "length (wrote P) + length b < seq_limit"
    "writeContext env [] b (conn P) = Some (Done (n, None), evs, c')"
  shows "(local_step net)\<^sup>*\<^sup>* P
    (P\<lparr>conn := c', wrote := wrote P @ split_msg (nat (c_maxSplitSize (conn P))) b\<rparr>)"
proof -
  have "c_maxSplitSize (conn P) = int (nat (c_maxSplitSize (conn P)))" using assms(1) by (simp add: conn_ok_def)
  then show ?thesis
    using writeSplit_steps [OF assms(1,2), of "nat (c_maxSplitSize (conn P))" 0 b n evs c' net] assms(3,4)
    by (simp add: writeContext_def)
qed

section \<open>A read is a run of steps\<close>

lemma awaitPacket_Nil:
  assumes "awaitPacket [] c = Some (r, evs, c')"
  shows "evs = []" "r = Blocked \<Longrightarrow> \<exists>q. switchQ_Read False (c_read c) = (QBlocked, q) \<and> c' = c\<lparr>c_read := q\<rparr> \<or>
      (\<exists>q. switchQ_Read False (c_read c) = (QDeadline, q))"
    "r = Done (Inr p) \<Longrightarrow> \<exists>q. switchQ_Read False (c_read c) = (QPacket (Some p), q) \<and> c' = c\<lparr>c_read := q\<rparr>"
  using assms by (auto simp: awaitPacket.simps [of "[]" c] split: prod.splits qresult.splits option.splits)

lemma readWait_steps:
  assumes "env_ok env" "readWait env [] (conn P) = Some (r, evs, c')" "r = Done None \<or> r = Blocked"
    "sys_inv P Q"
  shows "evs = [] \<and> (local_step net)\<^sup>*\<^sup>* P (P\<lparr>conn := c'\<rparr>)"
  using assms
proof (induction "unread (c_read (conn P))" arbitrary: P rule: less_induct)
  case less
  let ?c = "conn P"
  have i: "switchQ_inv (c_read ?c)" "\<not> sq_closed (c_read ?c)"
    using less.prems(4) by (auto simp: sys_inv_def side_inv_def)
  note sp = switchQ_Read_spec [OF i, of False]
  note unf = readWait.simps [of env "[]" ?c]
  obtain a evs1 c1 where a: "awaitPacket [] ?c = Some (a, evs1, c1)"
    using less.prems(2) unfolding unf by (cases "awaitPacket [] ?c") auto
  note aw = awaitPacket_Nil [OF a]
  show ?case
  proof (cases a)
    case Blocked
    then have "r = Blocked" "evs = []" "c' = c1" using less.prems(2) a aw(1) unfolding unf by auto
    moreover obtain q where "switchQ_Read False (c_read ?c) = (QBlocked, q)" "c1 = ?c\<lparr>c_read := q\<rparr>"
      using aw(2) [OF Blocked] sp by (auto split: if_splits)
    ultimately show ?thesis using local_step.poll [of False P q net] by auto
  next
    case (Done x)
    then obtain p where x: "x = Inr p" using less.prems(2,3) a unfolding unf by (cases x) auto
    obtain q where q: "switchQ_Read False (c_read ?c) = (QPacket (Some p), q)" "c1 = ?c\<lparr>c_read := q\<rparr>"
      using aw(3) Done x by blast
    obtain k c2 where t: "transferToQueue env p c1 = Some (k, c2)"
      using less.prems(2) a Done x unfolding unf by (cases "transferToQueue env p c1") auto
    have step: "local_step net P (P\<lparr>conn := c2\<rparr>)"
      using local_step.handle [OF less.prems(1) q(1), of k c2 net] t q(2) by simp
    have inv2: "sys_inv (P\<lparr>conn := c2\<rparr>) Q"
      using take_packet [OF less.prems(4) q(1)] transfer_step [of "P\<lparr>conn := c1\<rparr>" Q env p k c2] t q(2)
        less.prems(1) by simp
    show ?thesis
    proof (cases "k \<ge> 1 \<and> packetKind (ip_header p) = packetData")
      case True
      then show ?thesis using less.prems(2) a Done x t aw(1) step unfolding unf by auto
    next
      case False
      then have rec: "readWait env [] c2 = Some (r, evs, c')"
        using less.prems(2) a Done x t aw(1) unfolding unf by auto
      have "unread (c_read c2) < unread (c_read ?c)"
        using switchQ_Read_unread_less [OF q(1)] transferToQueue_c_read [OF t] q(2) by simp
      with less.hyps [of "P\<lparr>conn := c2\<rparr>"] rec less.prems(1,3) inv2
      have "evs = [] \<and> (local_step net)\<^sup>*\<^sup>* (P\<lparr>conn := c2\<rparr>) (P\<lparr>conn := c'\<rparr>)" by simp
      then show ?thesis using step by (auto intro: converse_rtranclp_into_rtranclp)
    qed
  qed
qed

lemma takeLoad_spec:
  assumes "takeLoad env l rc b c = Some (rc', b', c')" "rc \<le> length b"
  obtains s where "packetLoad_slice l = Some s" "rc' = min (length b) (rc + length s)" "length b' = length b"
    "take rc' b' = take rc b @ take (length b - rc) s" "rc' \<le> length b"
  using assms by (auto simp: takeLoad_def Let_def go_copy_def min_def split: option.splits if_splits)

text \<open>What a successful read returns: the chunks it took, of which all but the last are
  sub-packets, put together and cut to the size of the caller's buffer.\<close>

definition read_result :: "nat \<Rightarrow> bytes \<Rightarrow> nat \<Rightarrow> bytes \<Rightarrow> (bytes \<times> bool) list \<Rightarrow> bytes \<Rightarrow> bool" where
  "read_result rc b n b' cs x \<longleftrightarrow> (let msg = concat (map fst cs) @ x in
     (\<forall>c \<in> set cs. snd c) \<and> n = min (length b) (rc + length msg) \<and> length b' = length b \<and>
     take n b' = take rc b @ take (length b - rc) msg)"

lemma read_result_0:
  assumes "read_result 0 b n b' cs x"
  shows "\<forall>c \<in> set cs. snd c" "n = min (length b) (length (concat (map fst cs) @ x))"
    "take n b' = take (length b) (concat (map fst cs) @ x)"
  using assms unfolding read_result_def Let_def by (metis add_0 append_Nil diff_zero take_0)+

lemma read_result_Cons:
  assumes "read_result rc' b1 n b' cs x" "rc' = min (length b) (rc + length s)" "length b1 = length b"
    "take rc' b1 = take rc b @ take (length b - rc) s" "rc \<le> length b"
  shows "read_result rc b n b' ((s, True) # cs) x"
proof -
  let ?msg = "concat (map fst cs) @ x"
  have tk: "take n b' = take rc b @ take (length b - rc) s @ take (length b - rc') ?msg"
    and n: "n = min (length b) (rc' + length ?msg)"
    using assms(1,3,4) unfolding read_result_def Let_def by (metis append_assoc)+
  have "take (length b - rc) (s @ ?msg) = take (length b - rc) s @ take (length b - rc') ?msg"
    using assms(2,5) by (auto simp: min_def)
  with tk have "take n b' = take rc b @ take (length b - rc) (s @ ?msg)" by (simp only:)
  moreover have "n = min (length b) (rc + length (s @ ?msg))" using n assms(2,5) by (simp add: min_def)
  ultimately show ?thesis using assms(1,3) unfolding read_result_def Let_def
    by (simp only: list.map concat.simps fst_conv append_assoc) simp
qed

lemma local_steps_inv:
  assumes "(local_step (c_out (conn Q)))\<^sup>*\<^sup>* P P'" "sys_inv P Q"
  shows "sys_inv P' Q"
  using assms by (induction rule: rtranclp_induct) (auto intro: local_step_inv)

lemmas readContext_induct = readContext.raw_induct [rotated, consumes 1, case_names step]

lemma readContext_steps:
  assumes "readContext env evs ra rc b c = Some y" "evs = []" "conn P = c" "y = (Done (n, None), b', evs', c')"
    "env_ok env" "sys_inv P Q" "rc \<le> length b"
  shows "\<exists>cs x. (local_step (c_out (conn Q)))\<^sup>*\<^sup>* P (P\<lparr>conn := c', got := got P @ cs @ [(x, False)]\<rparr>) \<and>
    read_result rc b n b' cs x"
  using assms
proof (induction arbitrary: P rule: readContext_induct)
  case (step readCtx env evs ra rc b c y)
  let ?net = "c_out (conn Q)"
  obtain lo q where rd: "queue_Read (c_recv c) = (lo, q)" by fastforce
  show ?case
  proof (cases lo)
    case (Some l)
    obtain rc1 b1 c1 where t: "takeLoad env l rc b (c\<lparr>c_recv := q\<rparr>) = Some (rc1, b1, c1)"
      and rest: "(if pl_subPacket l then readCtx env evs ra rc1 b1 c1 else Some (Done (rc1, None), b1, evs, c1)) = Some y"
      using step.hyps rd Some by (auto simp: bind_eq_Some_conv)
    obtain sl where sl: "packetLoad_slice l = Some sl" "rc1 = min (length b) (rc + length sl)" "length b1 = length b"
      "take rc1 b1 = take rc b @ take (length b - rc) sl" "rc1 \<le> length b"
      by (rule takeLoad_spec [OF t step.prems(6)])
    let ?P = "P\<lparr>conn := c1, got := got P @ [content l]\<rparr>"
    have st: "local_step ?net P ?P"
      using local_step.read_load [OF step.prems(4), of P l q rc b rc1 b1 c1] rd Some t step.prems(2) by simp
    show ?thesis
    proof (cases "pl_subPacket l")
      case True
      then have "readCtx env evs ra rc1 b1 c1 = Some y" using rest by simp
      from step.IH [OF this step.prems(1) _ step.prems(3,4) local_step_inv [OF st step.prems(5)]] sl(3,5)
      obtain cs x where ih: "(local_step ?net)\<^sup>*\<^sup>* ?P (?P\<lparr>conn := c', got := got ?P @ cs @ [(x, False)]\<rparr>)"
        "read_result rc1 b1 n b' cs x" by auto
      have "content l = (sl, True)" using sl(1) True by (simp add: content_def)
      then have "(local_step ?net)\<^sup>*\<^sup>* P (P\<lparr>conn := c', got := got P @ ((sl, True) # cs) @ [(x, False)]\<rparr>)"
        using converse_rtranclp_into_rtranclp [OF st ih(1)] by simp
      moreover have "read_result rc b n b' ((sl, True) # cs) x"
        by (rule read_result_Cons [OF ih(2) sl(2,3,4) step.prems(6)])
      ultimately show ?thesis by blast
    next
      case False
      then have "y = (Done (rc1, None), b1, evs, c1)" "content l = (sl, False)"
        using rest sl(1) by (auto simp: content_def)
      moreover have "read_result rc b rc1 b1 [] sl"
        using sl by (simp add: read_result_def)
      ultimately show ?thesis using st step.prems(3)
        by (intro exI [of _ "[]"] exI [of _ sl]) auto
    qed
  next
    case None
    let ?c = "if ra then snd (sendAckBySelectAck env c) else c"
    obtain r evs1 c1 where w: "readWait env evs ?c = Some (r, evs1, c1)"
      and rest: "(case r of Blocked \<Rightarrow> Some (Blocked, b, evs1, c1) | Done (Some err) \<Rightarrow> Some (Done (0, Some err), b, evs1, c1)
        | Done None \<Rightarrow> readCtx env evs1 True rc b c1) = Some y"
      using step.hyps rd None by (auto simp: bind_eq_Some_conv)
    have r: "r = Done None" using rest step.prems(3) by (cases r) (auto split: option.splits)
    have ackst: "(local_step ?net)\<^sup>*\<^sup>* P (P\<lparr>conn := ?c\<rparr>)"
      using local_step.do_ack [OF step.prems(4), of P "fst (sendAckBySelectAck env c)" "snd (sendAckBySelectAck env c)" ?net]
        step.prems(2) by auto
    have "evs1 = [] \<and> (local_step ?net)\<^sup>*\<^sup>* (P\<lparr>conn := ?c\<rparr>) (P\<lparr>conn := c1\<rparr>)"
      using readWait_steps [OF step.prems(4), of "P\<lparr>conn := ?c\<rparr>" r evs1 c1 Q ?net] w step.prems(1) r
        local_steps_inv [OF ackst step.prems(5)] by simp
    then have st: "evs1 = []" "(local_step ?net)\<^sup>*\<^sup>* P (P\<lparr>conn := c1\<rparr>)" using ackst by auto
    have "readCtx env evs1 True rc b c1 = Some y" using rest r by simp
    from step.IH [OF this st(1) _ step.prems(3,4) local_steps_inv [OF st(2) step.prems(5)] step.prems(6)]
    obtain cs x where ih: "(local_step ?net)\<^sup>*\<^sup>* (P\<lparr>conn := c1\<rparr>) (P\<lparr>conn := c', got := got P @ cs @ [(x, False)]\<rparr>)"
      "read_result rc b n b' cs x" by auto
    then show ?thesis using st(2) by (meson rtranclp_trans)
  qed
qed

section \<open>Reads and writes that return\<close>

text \<open>A message whose chunks are all stored at the front of the receive window.\<close>

definition message_ready :: "queue \<Rightarrow> packetLoad list \<Rightarrow> bool" where
  "message_ready q ls \<longleftrightarrow> ls \<noteq> [] \<and> length ls \<le> queueSize \<and>
     (\<forall>k < length ls. q_at q (seq q + of_nat k) = Some (ls ! k)) \<and>
     (\<forall>l \<in> set ls. load_ok l) \<and> (\<forall>l \<in> set (butlast ls). pl_subPacket l) \<and> \<not> pl_subPacket (last ls)"

lemma message_ready_hd: "message_ready q (l # ls) \<Longrightarrow> q_at q (seq q) = Some l"
proof -
  assume "message_ready q (l # ls)"
  then have "\<forall>k < length (l # ls). q_at q (seq q + of_nat k) = Some ((l # ls) ! k)"
    unfolding message_ready_def by blast
  from this [rule_format, of 0] show ?thesis by simp
qed

lemma message_ready_Cons:
  assumes "recv_inv q" "message_ready q (l # l2 # ls)"
  shows "message_ready ((vacate q (seq q) packetLoad_zero)\<lparr>seq := seq q + 1\<rparr>) (l2 # ls)"
proof -
  let ?q = "(vacate q (seq q) packetLoad_zero)\<lparr>seq := seq q + 1\<rparr>"
  note t = recv_take [OF assms(1) message_ready_hd [OF assms(2)]]
  have "q_at ?q (seq ?q + of_nat k) = Some ((l2 # ls) ! k)" if k: "k < length (l2 # ls)" for k
  proof -
    have "Suc k < 2 ^ 32" using k assms(2) by (simp add: message_ready_def queueSize_def)
    then have "unat (of_nat (Suc k) :: u32) = Suc k" by (intro unat_of_nat_fits) simp
    then have "(of_nat (Suc k) :: u32) \<noteq> 0" by (metis nat.distinct(1) unat_0)
    then have ne: "seq q + of_nat (Suc k) \<noteq> seq q" by simp
    have "q_at q (seq q + of_nat (Suc k)) = Some ((l # l2 # ls) ! Suc k)"
      using assms(2) k by (simp add: message_ready_def del: of_nat_Suc)
    then show ?thesis using t(1) ne t(3) by (simp add: add_ac)
  qed
  then show ?thesis using assms(2) by (simp add: message_ready_def)
qed

lemma takeLoad_returns:
  assumes "load_ok l" "rc \<le> length b"
  shows "\<exists>rc' b' c'. takeLoad env l rc b c = Some (rc', b', c') \<and> c_recv c' = c_recv c \<and> rc' \<le> length b \<and>
    length b' = length b"
  using load_ok_slice [OF assms(1)] assms(2) by (auto simp: takeLoad_def Let_def)

lemma readContext_returns:
  assumes "recv_inv (c_recv c)" "message_ready (c_recv c) ls" "rc \<le> length b"
  shows "\<exists>n b' c'. readContext env evs ra rc b c = Some (Done (n, None), b', evs, c') \<and>
    read_result rc b n b' (map content (butlast ls)) (fst (content (last ls)))"
  using assms
proof (induction ls arbitrary: c rc b)
  case (Cons l ls)
  let ?q = "(vacate (c_recv c) (seq (c_recv c)) packetLoad_zero)\<lparr>seq := seq (c_recv c) + 1\<rparr>"
  have at: "q_at (c_recv c) (seq (c_recv c)) = Some l" by (rule message_ready_hd [OF Cons.prems(2)])
  then have rd: "queue_Read (c_recv c) = (Some l, ?q)" by (simp add: queue_Read_at)
  have lok: "load_ok l" using Cons.prems(2) by (simp add: message_ready_def)
  obtain rc1 b1 c1 where t: "takeLoad env l rc b (c\<lparr>c_recv := ?q\<rparr>) = Some (rc1, b1, c1)" "c_recv c1 = ?q"
    "rc1 \<le> length b1" using takeLoad_returns [OF lok Cons.prems(3), of env "c\<lparr>c_recv := ?q\<rparr>"] by auto
  obtain sl where sl: "packetLoad_slice l = Some sl" "rc1 = min (length b) (rc + length sl)" "length b1 = length b"
    "take rc1 b1 = take rc b @ take (length b - rc) sl" by (rule takeLoad_spec [OF t(1) Cons.prems(3)])
  have unf: "readContext env evs ra rc b c = (if pl_subPacket l then readContext env evs ra rc1 b1 c1
      else Some (Done (rc1, None), b1, evs, c1))"
    by (subst readContext.simps) (simp add: rd t(1))
  show ?case
  proof (cases ls)
    case Nil
    then have "\<not> pl_subPacket l" using Cons.prems(2) by (simp add: message_ready_def)
    then show ?thesis using Nil unf sl by (auto simp: read_result_def content_def)
  next
    case (Cons l2 ls2)
    note ready = Cons.prems(2) [unfolded Cons]
    have sub: "pl_subPacket l" using ready by (simp add: message_ready_def)
    have "recv_inv (c_recv c1)" "message_ready (c_recv c1) ls"
      using recv_take(2) [OF Cons.prems(1) at] message_ready_Cons [OF Cons.prems(1) ready] t(2) Cons by simp_all
    from Cons.IH [OF this t(3)] obtain n b' c'
      where ih: "readContext env evs ra rc1 b1 c1 = Some (Done (n, None), b', evs, c')"
        "read_result rc1 b1 n b' (map content (butlast ls)) (fst (content (last ls)))" by blast
    have "read_result rc b n b' ((sl, True) # map content (butlast ls)) (fst (content (last ls)))"
      by (rule read_result_Cons [OF ih(2) sl(2,3,4) Cons.prems(3)])
    moreover have "content l = (sl, True)" using sl(1) sub by (simp add: content_def)
    ultimately show ?thesis using unf sub ih(1) Cons by simp
  qed
qed (simp add: message_ready_def)

end
