(* ===== verification/Rdp_Properties.thy ===== *)
theory Rdp_Properties
  imports Rdp_Messages
begin

text \<open>
  The properties of the reliable protocol, each a consequence of the library of the preceding
  theories, with a concrete connection on which they are applied.
\<close>

section \<open>A concrete run\<close>

definition demo_env :: env where
  "demo_env = \<lparr>e_pool = \<lambda>i. replicate mtu 0, e_now = 100, e_clk = \<lambda>s. 120\<rparr>"

definition demo_peer :: peer where
  "demo_peer = fresh_peer \<lparr>IP = [127, 0, 0, 1], Port = 9000\<rparr> 0 Metric_zero"

lemma demo_env_ok [simp]: "env_ok demo_env"
  by (simp add: demo_env_def env_ok_def)

lemma demo_conn_ok [simp]: "conn_ok (conn demo_peer)" "wrote demo_peer = []" "got demo_peer = []"
  "c_send (conn demo_peer) = newQueue queueSize" "c_recv (conn demo_peer) = newQueue queueSize"
  "c_maxSplitSize (conn demo_peer) = 500" "c_read (conn demo_peer) = switchQ_Init" "c_out (conn demo_peer) = []"
  "c_seq (conn demo_peer) = 0" "\<not> isClosed (conn demo_peer)"
  using fresh_inv [of "\<lparr>IP = [127, 0, 0, 1], Port = 9000\<rparr>" 0 Metric_zero]
  by (auto simp: demo_peer_def sys_inv_def side_inv_def)
    (simp_all add: fresh_peer_def NewRdpConn_def defaultMaxSplitPacketSize_def isClosed_def)

lemma slot_newQueue: "slot (newQueue queueSize) s < queueSize"
  by (simp add: slot_def newQueue_def queueSize_def unat_mod)

lemma newQueue_Write: "fst (queue_Write (newQueue queueSize) l)"
  using slot_newQueue [of "pl_seq l"] by (simp add: queue_Write_eq newQueue_def)

text \<open>One chunk written, delivered and read.\<close>

lemma demo_write:
  assumes "length b \<le> 500"
  obtains c' d ls where "writeOne demo_env [] b sub (conn demo_peer) = Some (Done (length b, None), [], c')"
    "d \<in> set (c_out c')" "d = with_crc (data_bytes (new_load demo_env (conn demo_peer) b sub # ls))"
    "length d \<le> mtu" "\<forall>l \<in> set (new_load demo_env (conn demo_peer) b sub # ls). load_ok l"
proof -
  let ?l = "new_load demo_env (conn demo_peer) b sub"
  obtain q where q: "queue_Write (c_send (conn demo_peer)) ?l = (True, q)"
    using newQueue_Write [of ?l] by (cases "queue_Write (newQueue queueSize) ?l") simp
  have "int (length b) \<le> c_maxSplitSize (conn demo_peer)" using assms by simp
  from writeOne_free [OF demo_conn_ok(1) demo_env_ok this q, of "[]"]
  obtain c' acks ls where w: "writeOne demo_env [] b sub (conn demo_peer) = Some (Done (length b, None), [], c')"
    "emits ((conn demo_peer)\<lparr>c_send := q, c_seq := c_seq (conn demo_peer) + 1\<rparr>) (acks @ [with_crc (data_bytes (?l # ls))]) c'"
    "length (with_crc (data_bytes (?l # ls))) \<le> mtu" "set ls \<subseteq> {p \<in> stored q. after (c_seq (conn demo_peer)) (pl_seq p)}"
    by blast
  have "load_ok ?l" "pl_size ?l + 13 \<le> mtu" using new_load_ok [OF demo_env_ok, of b] assms by (simp_all add: mtu_def)
  from sendable_fill(1) [OF _ this(1) q this(2)] have "sendable q" using demo_conn_ok(1) by (simp add: conn_ok_def)
  then have ok: "\<forall>l \<in> set (?l # ls). load_ok l" using w(4) sendable_stored(1) \<open>load_ok ?l\<close> by auto
  have "with_crc (data_bytes (?l # ls)) \<in> set (c_out c')" using w(2) by (simp add: emits_def)
  then show ?thesis using that [OF w(1) _ refl w(3) ok] by blast
qed


lemma demo_handled:
  assumes "length b \<le> 500"
  obtains P Q where "rdp_reachable P Q" "wrote P = [(b, sub)]" "got Q = []" "q_at (c_recv (conn Q)) 0 \<noteq> None"
proof -
  let ?l = "new_load demo_env (conn demo_peer) b sub" and ?C = "conn demo_peer"
  obtain c' d ls where w: "writeOne demo_env [] b sub ?C = Some (Done (length b, None), [], c')"
    "d \<in> set (c_out c')" "d = with_crc (data_bytes (?l # ls))" "length d \<le> mtu" "\<forall>l \<in> set (?l # ls). load_ok l"
    by (rule demo_write [OF assms])
  define P where "P = demo_peer\<lparr>conn := c', wrote := [(b, sub)]\<rparr>"
  have r0: "rdp_reachable demo_peer demo_peer" unfolding demo_peer_def by (rule rdp_reachable.start)
  have r1: "rdp_reachable P demo_peer"
    using rdp_reachable.left [OF r0 local_step.do_write [OF demo_env_ok _ _ w(1)]] assms
    by (simp add: P_def seq_limit_def)
  obtain p where p: "recvDatagram (replicate mtu 0) d = Some p" "packetKind (ip_header p) = packetData"
    "incomingPacket_slice p = Some (concat (map load_bytes (?l # ls)))"
    using recvDatagram_data [of "?l # ls" "replicate mtu 0"] w(3,4) by auto
  define Q1 where "Q1 = demo_peer\<lparr>conn := arrive p ?C\<rparr>"
  have r2: "rdp_reachable P Q1"
    using rdp_reachable.right [OF r1 local_step.arrive [OF _ _ p(1)]] w(2) by (simp add: P_def Q1_def)
  have ar: "arrive p ?C = ?C\<lparr>c_read := snd (switchQ_Write switchQ_Init p)\<rparr>" by (simp add: arrive_def)
  have si: "switchQ_inv (c_read (conn Q1))" "\<not> sq_closed (c_read (conn Q1))" "switchQ_list (c_read (conn Q1)) = [p]"
    using switchQ_Write_spec [of switchQ_Init p] by (simp_all add: Q1_def ar)
  obtain r where r: "switchQ_Read False (c_read (conn Q1)) = (QPacket (Some p), r)"
    using switchQ_Read_spec [OF si(1,2), of False] si(3) by (cases "switchQ_Read False (c_read (conn Q1))") auto
  obtain ls' k where t: "list_all2 same_load (?l # ls) ls'"
    "transferToQueue demo_env p ((conn Q1)\<lparr>c_read := r\<rparr>) = Some (k, (conn Q1)\<lparr>c_read := r, c_recv := set_all (c_recv ((conn Q1)\<lparr>c_read := r\<rparr>)) ls'\<rparr>)"
    using transfer_data [OF demo_env_ok p(2,3) w(5), of "(conn Q1)\<lparr>c_read := r\<rparr>"] by metis
  define Q2 where "Q2 = Q1\<lparr>conn := (conn Q1)\<lparr>c_read := r, c_recv := set_all (newQueue queueSize) ls'\<rparr>\<rparr>"
  have rq: "c_recv (conn Q1) = newQueue queueSize" by (simp add: Q1_def ar)
  have r3: "rdp_reachable P Q2"
    using rdp_reachable.right [OF r2 local_step.handle [OF demo_env_ok r t(2)]] by (simp add: Q2_def rq)
  obtain l1 ls1 where l1: "ls' = l1 # ls1" "same_load ?l l1" using t(1) by (cases ls') auto
  have ri: "recv_inv (newQueue queueSize)" by (simp add: recv_inv_def)
  have "pl_seq l1 = seq (newQueue queueSize)" using l1(2) by (simp add: same_load_def)
  from set_all_next [OF ri, of l1 ls'] l1(1) this
  have "q_at (set_all (newQueue queueSize) ls') 0 \<noteq> None" by simp
  then show ?thesis using that r3 by (simp add: P_def Q2_def Q1_def)
qed


lemma demo_run:
  assumes "length b \<le> 500"
  obtains P Q where "rdp_reachable P Q" "wrote P = [(b, sub)]" "got Q = [(b, sub)]"
proof -
  obtain P Q where r: "rdp_reachable P Q" "wrote P = [(b, sub)]" "got Q = []" "q_at (c_recv (conn Q)) 0 \<noteq> None"
    by (rule demo_handled [OF assms])
  have inv: "sys_inv P Q" by (rule rdp_reachable_inv [OF r(1)])
  then have sq: "seq (c_recv (conn Q)) = 0" using r(3) by (simp add: sys_inv_def one_way_def)
  obtain l where l: "q_at (c_recv (conn Q)) 0 = Some l" using r(4) by auto
  have gl: "genuine (wrote P) l" using inv l by (simp add: sys_inv_def one_way_def)
  then have cl: "content l = (b, sub)" using q_at_seq [OF l] r(2) by (simp add: genuine_def)
  obtain q where q: "queue_Read (c_recv (conn Q)) = (Some l, q)" using l sq by (simp add: queue_Read_at)
  obtain rc' b' c2 where tl: "takeLoad demo_env l 0 [] ((conn Q)\<lparr>c_recv := q\<rparr>) = Some (rc', b', c2)"
    using takeLoad_returns [of l 0 "[]" demo_env "(conn Q)\<lparr>c_recv := q\<rparr>"] gl by (auto simp: genuine_def)
  have "rdp_reachable P (Q\<lparr>conn := c2, got := got Q @ [content l]\<rparr>)"
    by (rule rdp_reachable.right [OF r(1) local_step.read_load [OF demo_env_ok q tl]])
  then show ?thesis using that cl r(2,3) by simp
qed

lemma demo_wrote:
  obtains P where "rdp_reachable P demo_peer" "wrote P = [([7, 8], False)]" "seq (c_send (conn P)) = 0"
proof -
  let ?l = "new_load demo_env (conn demo_peer) [7, 8] False"
  obtain q where q: "queue_Write (c_send (conn demo_peer)) ?l = (True, q)"
    using newQueue_Write [of ?l] by (cases "queue_Write (newQueue queueSize) ?l") simp
  have le: "int (length [7, 8 :: byte]) \<le> c_maxSplitSize (conn demo_peer)" by simp
  from writeOne_free [OF demo_conn_ok(1) demo_env_ok le q, of "[]"] obtain c' outs
    where w: "writeOne demo_env [] [7, 8] False (conn demo_peer) = Some (Done (2, None), [], c')"
      and em: "emits ((conn demo_peer)\<lparr>c_send := q, c_seq := c_seq (conn demo_peer) + 1\<rparr>) outs c'" by auto
  have "seq q = 0" using sendq.write_state [of "newQueue queueSize" ?l] q by simp
  then have "seq (c_send c') = 0" using em by (simp add: emits_def)
  moreover have r0: "rdp_reachable demo_peer demo_peer" unfolding demo_peer_def by (rule rdp_reachable.start)
  have "rdp_reachable (demo_peer\<lparr>conn := c', wrote := [([7, 8], False)]\<rparr>) demo_peer"
    using rdp_reachable.left [OF r0 local_step.do_write [OF demo_env_ok le _ w]] by (simp add: seq_limit_def)
  ultimately show ?thesis using that by simp
qed

section \<open>Reliable delivery\<close>

text \<open>C1: Over a network that loses, duplicates and reorders datagrams, the chunks a side has read
  are exactly the first chunks its peer wrote, in order, without gap, duplicate or corruption (for
  fewer than \<open>2 ^ 32\<close> chunks).\<close>

theorem rdp_in_order:
  assumes "rdp_reachable P Q"
  shows "got Q = take (length (got Q)) (wrote P) \<and> got P = take (length (got P)) (wrote Q)"
  using rdp_reachable_inv [OF assms] by (simp add: sys_inv_def one_way_def)

theorem rdp_in_order_witness:
  "\<exists>P Q. rdp_reachable P Q \<and> got Q = [([1, 2, 3], True)] \<and> wrote P = [([1, 2, 3], True)] \<and>
     got Q = take (length (got Q)) (wrote P) \<and> got P = take (length (got P)) (wrote Q)"
proof -
  obtain P Q where r: "rdp_reachable P Q" "wrote P = [([1, 2, 3], True)]" "got Q = [([1, 2, 3], True)]"
    by (rule demo_run [of "[1, 2, 3]" True]) auto
  then show ?thesis using rdp_in_order [OF r(1)] by blast
qed

text \<open>C2: No chunk is ever dropped: as long as the connection is open, every chunk written has been
  read by the peer, is stored in the peer's receive queue, or is still in the send queue, from
  which it is retransmitted.\<close>

theorem rdp_no_loss:
  assumes "rdp_reachable P Q" "s < length (wrote P)"
  shows "s < length (got Q) \<or> q_at (c_recv (conn Q)) (of_nat s) \<noteq> None \<or> q_at (c_send (conn P)) (of_nat s) \<noteq> None"
proof -
  have inv: "sys_inv P Q" by (rule rdp_reachable_inv [OF assms(1)])
  then have "unat (of_nat s :: u32) = s" using assms(2) by (intro unat_seq) (simp add: sys_inv_def side_inv_def)
  moreover have "unat (of_nat s :: u32) < length (wrote P) \<longrightarrow>
      of_nat s \<in> received Q \<or> q_at (c_send (conn P)) (of_nat s) \<noteq> None"
    using inv unfolding sys_inv_def one_way_def by blast
  ultimately show ?thesis using assms(2) by (auto simp: received_def)
qed

theorem rdp_no_loss_witness:
  "\<exists>P Q. rdp_reachable P Q \<and> 0 < length (wrote P) \<and> (0 < length (got Q) \<or>
     q_at (c_recv (conn Q)) (of_nat 0) \<noteq> None \<or> q_at (c_send (conn P)) (of_nat 0) \<noteq> None)"
proof -
  obtain P where r: "rdp_reachable P demo_peer" "wrote P = [([7, 8], False)]" by (rule demo_wrote) auto
  then have "0 < length (wrote P)" by simp
  from rdp_no_loss [OF r(1) this] this r(1) show ?thesis by blast
qed



text \<open>C4: Retransmission makes progress: when the peer waits for a chunk that is not there and
  everything before it is acknowledged, \<open>flush\<close> emits a datagram which, once delivered and
  handled, makes the next read return exactly that chunk.\<close>

theorem rdp_flush_progress:
  assumes "rdp_reachable P Q" "seq (c_send (conn P)) = of_nat (length (got Q))"
    "length (got Q) < length (wrote P)" "length (wrote P) \<le> length (got Q) + 2 ^ 31"
    "q_at (c_recv (conn Q)) (seq (c_recv (conn Q))) = None" "env_ok env" "env_ok env'" "length buf = mtu"
  shows "\<exists>c' d p k c''. RdpConn_flush env (conn P) = Some (None, c') \<and> c_out c' = c_out (conn P) @ [d] \<and>
    recvDatagram buf d = Some p \<and> transferToQueue env' p (conn Q) = Some (k, c'') \<and>
    (\<exists>l q. queue_Read (c_recv c'') = (Some l, q) \<and> content l = wrote P ! length (got Q))"
  by (rule flush_delivers_next [OF assms])

theorem rdp_flush_progress_witness:
  "\<exists>P Q. rdp_reachable P Q \<and> length (got Q) < length (wrote P) \<and>
    (\<exists>c' d p k c''. RdpConn_flush demo_env (conn P) = Some (None, c') \<and> c_out c' = c_out (conn P) @ [d] \<and>
      recvDatagram (replicate mtu 0) d = Some p \<and> transferToQueue demo_env p (conn Q) = Some (k, c'') \<and>
      (\<exists>l q. queue_Read (c_recv c'') = (Some l, q) \<and> content l = wrote P ! length (got Q)))"
proof -
  obtain P where r: "rdp_reachable P demo_peer" "wrote P = [([7, 8], False)]" "seq (c_send (conn P)) = 0"
    by (rule demo_wrote) auto
  have "\<exists>c' d p k c''. RdpConn_flush demo_env (conn P) = Some (None, c') \<and> c_out c' = c_out (conn P) @ [d] \<and>
      recvDatagram (replicate mtu 0) d = Some p \<and> transferToQueue demo_env p (conn demo_peer) = Some (k, c'') \<and>
      (\<exists>l q. queue_Read (c_recv c'') = (Some l, q) \<and> content l = wrote P ! length (got demo_peer))"
    by (rule rdp_flush_progress [OF r(1)]) (simp_all add: r)
  then show ?thesis using r(1,2) by (intro exI [of _ P] exI [of _ demo_peer]) simp
qed

section \<open>Reads and writes\<close>


text \<open>C6: A connection that has a whole message at the front of its receive window returns it at
  once, whatever else happens: \<open>Read\<close> terminates, with the concatenated payloads.\<close>

theorem rdp_read_returns:
  assumes "recv_inv (c_recv c)" "message_ready (c_recv c) ls"
  shows "\<exists>n b' c'. RdpConn_Read env evs b c = Some (Done (n, None), b', evs, c') \<and>
    take n b' = take (length b) (concat (map (fst \<circ> content) ls))"
proof -
  from readContext_returns [OF assms, of 0 b env evs False] obtain n b' c'
    where rd: "readContext env evs False 0 b c = Some (Done (n, None), b', evs, c')"
      "read_result 0 b n b' (map content (butlast ls)) (fst (content (last ls)))" by auto
  have "ls \<noteq> []" using assms(2) by (simp add: message_ready_def)
  then have "concat (map (fst \<circ> content) ls) = concat (map fst (map content (butlast ls))) @ fst (content (last ls))"
    by (subst append_butlast_last_id [symmetric]) (simp_all del: append_butlast_last_id)
  then have "take n b' = take (length b) (concat (map (fst \<circ> content) ls))"
    using read_result_0(3) [OF rd(2)] by (simp only:)
  then show ?thesis using rd(1) by (auto simp: RdpConn_Read_def)
qed

definition demo_load :: packetLoad where
  "demo_load = \<lparr>pl_seq = 0, pl_size = 3, pl_subPacket = False, pl_buf = Some ([5, 6, 7] @ replicate 1197 0), pl_timestamp = 0\<rparr>"

lemma demo_load_ok [simp]: "load_ok demo_load" "packetLoad_slice demo_load = Some [5, 6, 7]"
  by (simp_all add: demo_load_def load_ok_def packetLoad_slice_def mtu_def)

lemma demo_filled:
  "recv_inv (fill (newQueue queueSize) demo_load)" "q_at (fill (newQueue queueSize) demo_load) = [0 \<mapsto> demo_load]"
proof -
  have i: "recv_inv (newQueue queueSize)" by (simp add: recv_inv_def)
  have "unat (pl_seq demo_load - seq (newQueue queueSize)) < queueSize" using newQueue_spec(3) by (simp add: demo_load_def) (simp add: queueSize_def)
  from recv_fill [OF i this] show "recv_inv (fill (newQueue queueSize) demo_load)"
    "q_at (fill (newQueue queueSize) demo_load) = [0 \<mapsto> demo_load]" by (auto simp: demo_load_def)
qed

theorem rdp_read_returns_witness:
  "\<exists>n b' c'. RdpConn_Read demo_env [] (replicate 9 0) ((conn demo_peer)\<lparr>c_recv := fill (newQueue queueSize) demo_load\<rparr>)
     = Some (Done (n, None), b', [], c') \<and> take n b' = [5, 6, 7]"
proof -
  let ?c = "(conn demo_peer)\<lparr>c_recv := fill (newQueue queueSize) demo_load\<rparr>"
  have "message_ready (c_recv ?c) [demo_load]"
    using demo_filled(2) newQueue_spec(3) demo_load_ok(1)
    by (simp add: message_ready_def) (simp add: demo_load_def queueSize_def)
  moreover have "recv_inv (c_recv ?c)" using demo_filled(1) by simp
  ultimately show ?thesis using rdp_read_returns [of ?c "[demo_load]" demo_env "[]" "replicate 9 0"]
    by (simp add: content_def)
qed






section \<open>Wire format\<close>



text \<open>A packet header survives the wire: what \<open>writeTo\<close> puts into a buffer of at least ten
  bytes is what \<open>readFrom\<close> takes out of it, acknowledgement numbers included.\<close>

theorem rdp_header_roundtrip:
  assumes "10 \<le> length packet"
  shows "let (n, packet') = packetHeader_writeTo h packet in
    packetHeader_readFrom h0 (take n packet' @ rest) =
      (n, if packetKind h = packetAck then h else h0\<lparr>packetKind := packetKind h\<rparr>)"
  using packetHeader_roundtrip [OF assms, of h] by (cases "packetHeader_writeTo h packet") simp

theorem rdp_header_roundtrip_witness:
  "let (n, packet') = packetHeader_writeTo \<lparr>packetKind = packetAck, ack = 77, ackBits = 5\<rparr> (replicate 12 0) in
    packetHeader_readFrom packetHeader_zero (take n packet' @ [1]) = (n, \<lparr>packetKind = packetAck, ack = 77, ackBits = 5\<rparr>)"
  using rdp_header_roundtrip [of "replicate 12 0" "\<lparr>packetKind = packetAck, ack = 77, ackBits = 5\<rparr>" packetHeader_zero "[1]"]
  by simp

lemma be_word_inj:
  assumes "length bs = n" "length bs' = n" "8 * n \<le> LENGTH('a)" "be_word bs = (be_word bs' :: 'a::len word)"
  shows "bs = bs'"
  using be_bytes_word [OF assms(1,3)] be_bytes_word [OF assms(2,3)] assms(4) by metis

text \<open>C10: A datagram in which any one byte was changed, in the packet or in the checksum, is dropped.\<close>

theorem rdp_checksum_detects:
  assumes "p \<noteq> []" "i < length (with_crc p)" "x \<noteq> with_crc p ! i"
  shows "recvDatagram buf ((with_crc p)[i := x]) = None"
proof -
  let ?d = "(with_crc p)[i := x]" and ?crc = "be_bytes 4 (ChecksumIEEE p XOR magic)"
  have len: "length ?d = length p + 4" by (simp add: with_crc_def)
  have parts: "take (length p) ?d = p[i := x]" "drop (length p) ?d = (if i < length p then ?crc else ?crc[i - length p := x])"
    by (auto simp: with_crc_def list_update_append list_update_beyond not_less)
  have "be_word (drop (length p) ?d) \<noteq> ChecksumIEEE (take (length p) ?d) XOR magic"
  proof (cases "i < length p")
    case True
    then have "x \<noteq> p ! i" using assms(3) by (simp add: with_crc_def nth_append)
    from ChecksumIEEE_one_byte [OF True this] have "ChecksumIEEE (p[i := x]) XOR magic \<noteq> ChecksumIEEE p XOR magic"
      by (metis word_xor_left_inj xor.commute)
    then show ?thesis using True parts by (simp add: wire_simps)
  next
    case False
    let ?k = "i - length p"
    have k: "?k < 4" "x \<noteq> ?crc ! ?k" using assms(2,3) False by (simp_all add: with_crc_def nth_append)
    have "?crc[?k := x] \<noteq> ?crc" using k by (metis length_be_bytes nth_list_update_eq)
    then have "be_word (?crc[?k := x]) \<noteq> (be_word ?crc :: u32)"
      using be_word_inj [of "?crc[?k := x]" 4 ?crc, where 'a = 32] by auto
    moreover have "p[i := x] = p" using False by (simp add: list_update_beyond)
    ultimately show ?thesis using False parts by (simp add: wire_simps)
  qed
  then have "checkPacket ?d (length ?d) = Some 0"
    using assms(1) len by (simp add: checkPacket_def crcOverhead_def Let_def)
  then show ?thesis by (simp add: recvDatagram_def)
qed

theorem rdp_checksum_detects_witness:
  "recvDatagram (replicate mtu 0) ((with_crc [0x43, 2])[1 := 3]) = None"
  by (rule rdp_checksum_detects) (simp_all add: with_crc_def)

section \<open>Windows\<close>

lemma newQueue_at:
  "q_at ((newQueue queueSize)\<lparr>seq := s\<rparr>) t = None" "recv_inv ((newQueue queueSize)\<lparr>seq := s\<rparr>)"
proof -
  let ?q = "(newQueue queueSize)\<lparr>seq := s\<rparr>"
  have at: "q_at ?q = q_at (newQueue queueSize)" by (rule q_at_cong) simp_all
  have "queue_inv ?q = queue_inv (newQueue queueSize)" by (rule queue_inv_cong) simp_all
  then have "queue_inv ?q" using newQueue_spec(1) by (simp only:)
  then show "recv_inv ?q" by (simp add: recv_inv_def at)
  show "q_at ?q t = None" by (simp add: at)
qed

text \<open>C11: The receive window hands loads out in the order of their numbers, starting anywhere and
  across the wrap-around of the 32-bit numbers, whatever loads are set in whatever order.\<close>

theorem recv_window_in_order:
  "map pl_seq (fst (run_recv queue_Set queue_Read ops ((newQueue queueSize)\<lparr>seq := s\<rparr>))) =
     map (\<lambda>k. s + of_nat k) [0..<length (fst (run_recv queue_Set queue_Read ops ((newQueue queueSize)\<lparr>seq := s\<rparr>)))] \<and>
   set (fst (run_recv queue_Set queue_Read ops ((newQueue queueSize)\<lparr>seq := s\<rparr>))) \<subseteq> {l. RSet l \<in> set ops}"
proof -
  let ?q = "(newQueue queueSize)\<lparr>seq := s\<rparr>"
  from recvq.in_order [OF newQueue_at(2), of s "\<lambda>l. RSet l \<in> set ops" ops] newQueue_at(1) show ?thesis
    by (cases "run_recv queue_Set queue_Read ops ?q") auto
qed






text \<open>A data packet that brings nothing new is not answered: all its loads were read or are
  stored, so \<open>transferToQueue\<close> stores nothing, reports zero and emits nothing, and
  \<open>readContext\<close> sends no acknowledgement. A sender whose acknowledgements were lost therefore
  keeps retransmitting unanswered as long as the reader does not write.\<close>

lemma rdp_duplicates_unanswered:
  assumes "env_ok env" "recv_inv (c_recv c)" "packetKind (ip_header p) = packetData"
    "incomingPacket_slice p = Some (concat (map load_bytes ls))"
    "\<forall>l \<in> set ls. load_ok l \<and> (queueSize \<le> unat (pl_seq l - seq (c_recv c)) \<or> q_at (c_recv c) (pl_seq l) \<noteq> None)"
  shows "transferToQueue env p c = Some (0, c)"
proof -
  have "\<forall>l \<in> set ls. load_ok l \<and> refused (c_recv c) l" using assms(5) by (auto simp: refused_def)
  then show ?thesis by (rule transfer_refused [OF assms(1-4)])
qed

theorem rdp_duplicates_unanswered_witness:
  "\<exists>p c. packetKind (ip_header p) = packetData \<and> q_at (c_recv c) 0 = Some demo_load \<and>
     incomingPacket_slice p = Some (load_bytes demo_load) \<and> transferToQueue demo_env p c = Some (0, c)"
proof -
  let ?c = "(conn demo_peer)\<lparr>c_recv := fill (newQueue queueSize) demo_load\<rparr>"
  let ?b = "load_bytes demo_load"
  let ?p = "\<lparr>ip_header = \<lparr>packetKind = packetData, ack = 0, ackBits = 0\<rparr>, ip_body = Some ?b, ip_size = length ?b\<rparr>"
  have "transferToQueue demo_env ?p ?c = Some (0, ?c)"
    by (rule rdp_duplicates_unanswered [of _ _ _ "[demo_load]"])
      (use demo_filled in \<open>simp_all add: incomingPacket_slice_def\<close>, simp add: demo_load_def)
  then show ?thesis using demo_filled(2)
    by (intro exI [of _ ?p] exI [of _ ?c]) (simp add: incomingPacket_slice_def)
qed

text \<open>The round-trip window keeps four samples but \<open>Min\<close> reads three of them: after four
  samples the fourth is ignored.\<close>

theorem window_ignores_fourth:
  "\<exists>w. Window_Append Window_zero (int a) \<bind> (\<lambda>w1. Window_Append w1 (int b)) \<bind>
      (\<lambda>w2. Window_Append w2 (int c)) \<bind> (\<lambda>w3. Window_Append w3 (int d)) = Some w \<and>
     fst (Window_Min w) = min (int a) (min (int b) (int c))"
proof -
  let ?w = "\<lambda>v i n. \<lparr>w_v = v, w_i = i, w_n = n, w_min = -1\<rparr>"
  have "replicate 4 (0 :: int) = [0, 0, 0, 0]" by code_simp
  then have "Window_Append Window_zero (int a) = Some (?w [int a, 0, 0, 0] 1 1)"
    by (simp add: Window_Append_def Window_zero_def rttWindow_def)
  moreover have "Window_Append (?w [int a, 0, 0, 0] 1 1) (int b) = Some (?w [int a, int b, 0, 0] 2 2)"
    "Window_Append (?w [int a, int b, 0, 0] 2 2) (int c) = Some (?w [int a, int b, int c, 0] 3 3)"
    "Window_Append (?w [int a, int b, int c, 0] 3 3) (int d) = Some (?w [int a, int b, int c, int d] 0 3)"
    by (simp_all add: Window_Append_def rttWindow_def)
  moreover have "fst (Window_Min (?w [int a, int b, int c, int d] 0 3)) = min (int a) (min (int b) (int c))"
    by (simp add: Window_Min_def Let_def numeral_2_eq_2 min_def)
  ultimately show ?thesis by simp
qed

end
