(* ===== verification/Rdp_Dispatcher.thy ===== *)
theory Rdp_Dispatcher
  imports Rdp_Packets
begin

text \<open>
  The socket side of the reliable protocol: the batching connection (\<open>rdp/xconn.go\<close>,
  \<open>rdp/xconn_linux.go\<close>), \<open>crcConn\<close> (\<open>rdp/checksum.go\<close>), the server and client
  dispatchers (\<open>rdp/dispatcher.go\<close>), the listener (\<open>rdp/listener.go\<close>) and the dial loop
  (\<open>rdp/dial.go\<close>). What the socket answers to a batch is an argument (a list of answers: a
  number of messages taken, or an error). Connections are objects: the dispatcher's map holds
  their addresses in \<open>sd_conns\<close>. The listener's \<open>accept\<close> channel is a list with a capacity.
\<close>

section \<open>Addresses\<close>

text \<open>\<open>rawAddr\<close> slices the first four bytes of the address and panics when there are fewer.\<close>

definition rawAddr :: "UDPAddr \<Rightarrow> bytes option" where
  "rawAddr addr = (if length (IP addr) < 4 then None
     else Some (take 4 (IP addr) @ be_bytes 2 (of_nat (Port addr) :: u16)))"

definition v4InV6Prefix :: bytes where
  "v4InV6Prefix = [0, 0, 0, 0, 0, 0, 0, 0, 0, 0, 0xff, 0xff]"

text \<open>\<open>net.IP.Equal\<close>: an IPv4 address equals its IPv6 form.\<close>

definition ip_Equal :: "bytes \<Rightarrow> bytes \<Rightarrow> bool" where
  "ip_Equal x y = (if length x = length y then x = y
     else if length x = 4 \<and> length y = 16 then take 12 y = v4InV6Prefix \<and> x = drop 12 y
     else if length x = 16 \<and> length y = 4 then take 12 x = v4InV6Prefix \<and> drop 12 x = y
     else False)"

definition addrEquals :: "UDPAddr \<Rightarrow> UDPAddr \<Rightarrow> bool" where
  "addrEquals a b \<longleftrightarrow> a = b \<or> Port a = Port b \<and> ip_Equal (IP a) (IP b)"

section \<open>Batched sending\<close>

record XConnBatch =
  SendQ :: "(bytes \<times> UDPAddr) list"
  wire :: "(bytes \<times> UDPAddr) list" \<comment> \<open>what the socket has taken, in order\<close>
  x_metrics :: Metric

text \<open>The loop of \<open>WriteBatch\<close>: an answer \<open>Some n\<close> takes the first \<open>n\<close> messages, \<open>None\<close> is
  an error. \<open>Blocked\<close> when the answers run out.\<close>

fun WriteBatch :: "nat option list \<Rightarrow> nat \<Rightarrow> XConnBatch \<Rightarrow> bool outcome \<times> nat option list \<times> XConnBatch" where
  "WriteBatch answers npkts x =
     (if SendQ x = []
      then (let m = x_metrics x in
            (Done True, answers, x\<lparr>x_metrics := m\<lparr>UDPSendBytes := UDPSendBytes m + of_nat npkts,
               UDPSendPackets := UDPSendPackets m + of_nat npkts\<rparr>\<rparr>))
      else case answers of
          [] \<Rightarrow> (Blocked, [], x)
        | None # as \<Rightarrow> (Done False, as, x)
        | Some n # as \<Rightarrow> WriteBatch as (npkts + n)
            (x\<lparr>wire := wire x @ take n (SendQ x), SendQ := drop n (SendQ x)\<rparr>))"

declare WriteBatch.simps [simp del]

definition uncork :: "nat option list \<Rightarrow> XConnBatch \<Rightarrow> bool outcome \<times> nat option list \<times> XConnBatch" where
  "uncork answers x =
     (if SendQ x = [] then (Done True, answers, x)
      else case WriteBatch answers 0 x of
          (Blocked, as, x') \<Rightarrow> (Blocked, as, x')
        | (Done ok, as, x') \<Rightarrow> (Done ok, as, x'\<lparr>SendQ := []\<rparr>))"

definition fillWriteQueue :: "XConnBatch \<Rightarrow> bytes \<Rightarrow> nat \<Rightarrow> UDPAddr \<Rightarrow> XConnBatch" where
  "fillWriteQueue x packet n to = x\<lparr>SendQ := SendQ x @ [(take n packet, to)]\<rparr>"

definition crcConn_batchFill :: "XConnBatch \<Rightarrow> bytes \<Rightarrow> nat \<Rightarrow> UDPAddr \<Rightarrow> rdpErr option \<times> XConnBatch \<times> bytes" where
  "crcConn_batchFill x packet n to =
     (let (n', packet') = putCheckSum packet n in
      if n' = 0 then (Some ErrMTUExceeded, x, packet')
      else (None, fillWriteQueue x packet' n' to, packet'))"

datatype dir_result = DirOk | DirErr rdpErr | DirSocketErr | DirBlocked

definition writeDirect :: "nat option list \<Rightarrow> XConnBatch \<Rightarrow> bytes \<Rightarrow> nat \<Rightarrow> UDPAddr \<Rightarrow>
    dir_result \<times> nat option list \<times> XConnBatch" where
  "writeDirect answers x packet n to =
     (let (n', packet') = putCheckSum packet n in
      if n' = 0 then (DirErr ErrMTUExceeded, answers, x)
      else case uncork answers (x\<lparr>SendQ := SendQ x @ [(take n' packet', to)]\<rparr>) of
          (Blocked, as, x') \<Rightarrow> (DirBlocked, as, x')
        | (Done True, as, x') \<Rightarrow> (DirOk, as, x')
        | (Done False, as, x') \<Rightarrow> (DirSocketErr, as, x'))"

section \<open>The server\<close>

definition incomingChanSize :: nat where "incomingChanSize = 256"

record serverDispatcher =
  sd_clients :: "(bytes \<times> nat) list"
  sd_conns :: "nat \<Rightarrow> RdpConn"
  sd_next :: nat
  sd_closed :: bool
  sd_accept :: "UDPAddr list"
  sd_x :: XConnBatch

definition sd_load :: "serverDispatcher \<Rightarrow> bytes \<Rightarrow> nat option" where
  "sd_load d raw = map_of (sd_clients d) raw"

definition getConn :: "serverDispatcher \<Rightarrow> UDPAddr \<Rightarrow> nat option option" where
  "getConn d addr = map_option (sd_load d) (rawAddr addr)"

definition addConnNum :: "int \<Rightarrow> serverDispatcher \<Rightarrow> serverDispatcher" where
  "addConnNum k d = (let x = sd_x d; m = x_metrics x in
     d\<lparr>sd_x := x\<lparr>x_metrics := m\<lparr>ConnectionNum := ConnectionNum m + k\<rparr>\<rparr>\<rparr>)"

definition setConn :: "serverDispatcher \<Rightarrow> UDPAddr \<Rightarrow> nat \<Rightarrow> (bool \<times> serverDispatcher) option" where
  "setConn d addr i =
     (if sd_closed d then Some (False, d)
      else do {
        raw \<leftarrow> rawAddr addr;
        let d' = addConnNum 1 d in
        Some (True, d'\<lparr>sd_clients := (raw, i) # filter (\<lambda>e. fst e \<noteq> raw) (sd_clients d')\<rparr>) })"

definition deleteConn :: "serverDispatcher \<Rightarrow> nat \<Rightarrow> serverDispatcher option" where
  "deleteConn d i = do {
     raw \<leftarrow> rawAddr (c_remote (sd_conns d i));
     let d' = addConnNum (-1) d in
     Some (d'\<lparr>sd_clients := filter (\<lambda>e. fst e \<noteq> raw) (sd_clients d')\<rparr>) }"

definition server_close :: "serverDispatcher \<Rightarrow> nat \<Rightarrow> (rdpErr option \<times> serverDispatcher) option" where
  "server_close d i =
     (case safeCloseRead (sd_conns d i) of
        (Some err, c) \<Rightarrow> Some (Some err, d)
      | (None, c) \<Rightarrow> do {
          d' \<leftarrow> deleteConn (d\<lparr>sd_conns := (sd_conns d)(i := c)\<rparr>) i;
          Some (None, d') })"

text \<open>\<open>Range\<close> over the clients with a test, as \<open>timeout\<close> and the end of \<open>read\<close> do.\<close>

fun closeClients :: "(RdpConn \<Rightarrow> bool) \<Rightarrow> nat list \<Rightarrow> serverDispatcher \<Rightarrow> serverDispatcher option" where
  "closeClients test [] d = Some d"
| "closeClients test (i # is) d =
     (if test (sd_conns d i)
      then do { (_, d') \<leftarrow> server_close d i; closeClients test is d' }
      else closeClients test is d)"

definition server_timeout :: "int \<Rightarrow> int \<Rightarrow> serverDispatcher \<Rightarrow> serverDispatcher option" where
  "server_timeout now t d = closeClients (\<lambda>c. now - c_lastSeen c > t) (map snd (sd_clients d)) d"

text \<open>What \<open>read\<close> does once the socket has failed.\<close>

definition server_read_end :: "serverDispatcher \<Rightarrow> serverDispatcher option" where
  "server_read_end d = closeClients (\<lambda>_. True) (map snd (sd_clients d)) (d\<lparr>sd_closed := True\<rparr>)"

definition server_readLogic :: "bytes \<Rightarrow> serverDispatcher \<Rightarrow> bytes \<Rightarrow> UDPAddr \<Rightarrow> serverDispatcher option" where
  "server_readLogic buf d data addr =
     (let (body, header) = packetHeader_readFrom packetHeader_zero data in
      if body = 0 then Some d
      else do {
        r \<leftarrow> getConn d addr;
        (case r of
           Some i \<Rightarrow> Some (d\<lparr>sd_conns := (sd_conns d)(i := dispatchToConn buf (sd_conns d i) header (drop body data))\<rparr>)
         | None \<Rightarrow>
             if packetKind header \<noteq> packetDial then Some d
             else if length (sd_accept d) < incomingChanSize then Some (d\<lparr>sd_accept := sd_accept d @ [addr]\<rparr>)
             else Some d) })"

text \<open>\<open>crcConn.recvCrcData\<close> in front of the dispatcher.\<close>

definition server_recvCrcData :: "bytes \<Rightarrow> serverDispatcher \<Rightarrow> bytes \<Rightarrow> UDPAddr \<Rightarrow> serverDispatcher option" where
  "server_recvCrcData buf d data addr = do {
     n \<leftarrow> checkPacket data (length data);
     if n < 1
     then (let x = sd_x d; m = x_metrics x in
           Some (d\<lparr>sd_x := x\<lparr>x_metrics := m\<lparr>CheckSumErr := CheckSumErr m + 1\<rparr>\<rparr>\<rparr>))
     else server_readLogic buf d (take n data) addr }"

fun recvAll :: "bytes \<Rightarrow> serverDispatcher \<Rightarrow> (bytes \<times> UDPAddr) list \<Rightarrow> serverDispatcher option" where
  "recvAll buf d [] = Some d"
| "recvAll buf d ((data, addr) # ms) = do { d' \<leftarrow> server_recvCrcData buf d data addr; recvAll buf d' ms }"

definition ReadBatch :: "bytes \<Rightarrow> serverDispatcher \<Rightarrow> (bytes \<times> UDPAddr) list \<Rightarrow> serverDispatcher option" where
  "ReadBatch buf d ms = do {
     d' \<leftarrow> recvAll buf d ms;
     let x = sd_x d'; m = x_metrics x in
     Some (d'\<lparr>sd_x := x\<lparr>x_metrics := m\<lparr>UDPRecvBytes := UDPRecvBytes m + of_nat (sum_list (map (length \<circ> fst) ms)),
       UDPRecvPackets := UDPRecvPackets m + of_nat (length ms)\<rparr>\<rparr>\<rparr>) }"

text \<open>The read loop: what \<open>readOnce\<close> gives, round by round. A time-out or an error that is not a
  network error is skipped; a network error first waits for the listener to be closed (the receive
  on \<open>closeSig\<close>), then everything is closed. The flag says whether the loop has ended.\<close>

datatype read_event = RdBatch "(bytes \<times> UDPAddr) list" | RdTimeout | RdOther | RdNetErr | RdListenerClosed

fun server_read :: "bytes \<Rightarrow> read_event list \<Rightarrow> serverDispatcher \<Rightarrow> (bool \<times> serverDispatcher) option" where
  "server_read buf [] d = Some (False, d)"
| "server_read buf (RdBatch ms # evs) d = do { d' \<leftarrow> ReadBatch buf d ms; server_read buf evs d' }"
| "server_read buf (RdNetErr # evs) d =
     (if RdListenerClosed \<in> set evs then do { d' \<leftarrow> server_read_end d; Some (True, d') } else Some (False, d))"
| "server_read buf (_ # evs) d = server_read buf evs d"

section \<open>Accepting\<close>

datatype accept_result = Accepted nat | AcceptClosed | AcceptDialAckErr | AcceptBlocked

text \<open>The loop of \<open>Accept\<close> skips addresses that are connected already.\<close>

fun acceptNext :: "serverDispatcher \<Rightarrow> UDPAddr list \<Rightarrow> (UDPAddr option \<times> UDPAddr list) option" where
  "acceptNext d [] = Some (None, [])"
| "acceptNext d (a # as) = do {
     r \<leftarrow> getConn d a;
     if r \<noteq> None then acceptNext d as else Some (Some a, as) }"

definition Accept :: "bytes \<Rightarrow> int \<Rightarrow> nat option list \<Rightarrow> serverDispatcher \<Rightarrow>
    (accept_result \<times> nat option list \<times> serverDispatcher) option" where
  "Accept buf now answers d0 = do {
     (a, rest) \<leftarrow> acceptNext d0 (sd_accept d0);
     let d = d0\<lparr>sd_accept := rest\<rparr> in
     (case a of
        None \<Rightarrow> Some (if sd_closed d then AcceptClosed else AcceptBlocked, answers, d)
      | Some from \<Rightarrow>
          let (n, packet) = packetHeader_writeTo (packetHeader_zero\<lparr>packetKind := packetDialAck\<rparr>) buf in
          (case writeDirect answers (sd_x d) packet n from of
             (DirOk, as, x) \<Rightarrow>
               let i = sd_next d;
                   c = NewRdpConn from now (x_metrics x);
                   d1 = d\<lparr>sd_x := x, sd_conns := (sd_conns d)(i := c), sd_next := i + 1\<rparr> in
               do {
                 (ok, d2) \<leftarrow> setConn d1 from i;
                 Some (if ok then Accepted i else AcceptClosed, as, d2) }
           | (DirBlocked, as, x) \<Rightarrow> Some (AcceptBlocked, as, d\<lparr>sd_x := x\<rparr>)
           | (_, as, x) \<Rightarrow> Some (AcceptDialAckErr, as, d\<lparr>sd_x := x\<rparr>))) }"

section \<open>The client\<close>

record clientDispatcher =
  cd_client :: RdpConn
  cd_closeSig :: bool \<comment> \<open>the channel \<open>closeSig\<close> is closed\<close>
  cd_x :: XConnBatch

definition client_readLogic :: "bytes \<Rightarrow> clientDispatcher \<Rightarrow> bytes \<Rightarrow> UDPAddr \<Rightarrow> clientDispatcher" where
  "client_readLogic buf d data addr =
     (if \<not> addrEquals addr (c_remote (cd_client d)) then d
      else let (body, header) = packetHeader_readFrom packetHeader_zero data in
        if body = 0 then d
        else d\<lparr>cd_client := dispatchToConn buf (cd_client d) header (drop body data)\<rparr>)"

text \<open>Closing a closed channel panics.\<close>

definition client_close :: "clientDispatcher \<Rightarrow> clientDispatcher option" where
  "client_close d = (if cd_closeSig d then None else Some (d\<lparr>cd_closeSig := True\<rparr>))"

text \<open>The dial loop of \<open>DialContext\<close>: what the socket gives it, one event per round.\<close>

datatype dial_event = DialCtxDone | DialReadErr | DialDatagram bytes UDPAddr

datatype dial_result = DialOk | DialDone | DialErr | DialChecksum | DialBlocked

fun dialLoop :: "UDPAddr \<Rightarrow> dial_event list \<Rightarrow> dial_result \<times> dial_event list" where
  "dialLoop remote [] = (DialBlocked, [])"
| "dialLoop remote (DialCtxDone # evs) = (DialDone, evs)"
| "dialLoop remote (DialReadErr # evs) = (DialErr, evs)"
| "dialLoop remote (DialDatagram packet addr # evs) =
     (case checkPacket packet (length packet) of
        None \<Rightarrow> (DialErr, evs)
      | Some n \<Rightarrow>
          if n < 1 then (DialChecksum, evs)
          else if \<not> addrEquals addr remote then dialLoop remote evs
          else let (p, header) = packetHeader_readFrom packetHeader_zero (take n packet) in
            if p = 0 \<or> packetKind header \<noteq> packetDialAck then dialLoop remote evs
            else (DialOk, evs))"

text \<open>The goroutine that sends the dial packet, once per round.\<close>

definition sendDial :: "bytes \<Rightarrow> nat option list \<Rightarrow> XConnBatch \<Rightarrow> UDPAddr \<Rightarrow> dir_result \<times> nat option list \<times> XConnBatch" where
  "sendDial buf answers x remote =
     (let (n, packet) = packetHeader_writeTo (packetHeader_zero\<lparr>packetKind := packetDial\<rparr>) buf in
      writeDirect answers x packet n remote)"

section \<open>Batches\<close>

text \<open>Without an error, everything queued goes out in order; in any case the queue is empty after
  \<open>uncork\<close> returns.\<close>

lemma WriteBatch_ok:
  "WriteBatch answers k x = (Done True, as, x') \<Longrightarrow> SendQ x' = [] \<and> wire x' = wire x @ SendQ x"
proof (induction answers k x rule: WriteBatch.induct)
  case (1 answers k x)
  show ?case
  proof (cases "SendQ x = []")
    case True
    then show ?thesis using 1(2) by (auto simp: WriteBatch.simps [of answers k x] Let_def)
  next
    case False
    then obtain n rest where a: "answers = Some n # rest"
      "WriteBatch rest (k + n) (x\<lparr>wire := wire x @ take n (SendQ x), SendQ := drop n (SendQ x)\<rparr>) = (Done True, as, x')"
      using 1(2) by (auto simp: WriteBatch.simps [of answers k x] split: list.splits option.splits)
    from 1(1) [OF False a(1) refl a(2)] show ?thesis by simp
  qed
qed

lemma uncork_ok: "uncork answers x = (Done True, as, x') \<Longrightarrow> SendQ x' = [] \<and> wire x' = wire x @ SendQ x"
  by (auto simp: uncork_def split: if_splits prod.splits outcome.splits dest!: WriteBatch_ok)

lemma uncork_empties: "uncork answers x = (Done ok, as, x') \<Longrightarrow> SendQ x' = []"
  by (auto simp: uncork_def split: if_splits prod.splits outcome.splits)

lemma WriteBatch_metrics:
  "WriteBatch answers k x = (r, as, x') \<Longrightarrow> ConnectionNum (x_metrics x') = ConnectionNum (x_metrics x)"
proof (induction answers k x rule: WriteBatch.induct)
  case (1 answers k x)
  then show ?case
    by (auto simp: WriteBatch.simps [of answers k x] Let_def split: if_splits list.splits option.splits)
qed

lemma writeDirect_metrics:
  "writeDirect answers x packet n to = (r, as, x') \<Longrightarrow> ConnectionNum (x_metrics x') = ConnectionNum (x_metrics x)"
  by (auto simp: writeDirect_def uncork_def Let_def split: if_splits prod.splits outcome.splits bool.splits
      dest!: WriteBatch_metrics)

section \<open>The table of clients\<close>

text \<open>The invariant of the server: addresses are usable as keys, no key twice, every registered
  connection is open, lives in the heap and sits under the key of its own address, and the
  connection counter is the number of clients.\<close>

definition server_inv :: "serverDispatcher \<Rightarrow> bool" where
  "server_inv d \<longleftrightarrow> distinct (map fst (sd_clients d)) \<and> distinct (map snd (sd_clients d)) \<and>
     (\<forall>(raw, i) \<in> set (sd_clients d). i < sd_next d \<and> rawAddr (c_remote (sd_conns d i)) = Some raw \<and>
        \<not> isClosed (sd_conns d i)) \<and>
     ConnectionNum (x_metrics (sd_x d)) = int (length (sd_clients d))"


lemma dispatch_sel [simp]: "c_remote (dispatchToConn buf c h b) = c_remote c"
  "isClosed (dispatchToConn buf c h b) = isClosed c"
  by (simp_all add: dispatchToConn_def isClosed_def)

lemma server_readLogic_inv:
  assumes "server_inv d" "server_readLogic buf d data addr = Some d'"
  shows "server_inv d'" "sd_clients d' = sd_clients d"
  using assms
  by (auto simp: server_readLogic_def bind_eq_Some_conv server_inv_def Let_def split: prod.splits if_splits option.splits)

lemma length_filter_key:
  assumes "distinct (map fst xs)" "(k, v) \<in> set xs"
  shows "Suc (length (filter (\<lambda>e. fst e \<noteq> k) xs)) = length xs"
  using assms
proof (induction xs)
  case (Cons a xs)
  show ?case
  proof (cases "a = (k, v)")
    case True
    then have "\<forall>e \<in> set xs. fst e \<noteq> k" using Cons.prems(1) by force
    then show ?thesis using True by (simp add: filter_id_conv)
  next
    case False
    then have m: "(k, v) \<in> set xs" using Cons.prems(2) by auto
    then have "k \<in> set (map fst xs)" by force
    then have "fst a \<noteq> k" using Cons.prems(1) by auto
    with m show ?thesis using Cons by simp
  qed
qed simp

lemma safeCloseRead_sel:
  "c_remote (snd (safeCloseRead c)) = c_remote c" "isClosed (snd (safeCloseRead c))"
  "fst (safeCloseRead c) = (if isClosed c then Some ErrClosedPipe else None)"
  by (auto simp: safeCloseRead_def closeConn_def isClosed_def Let_def)

lemma server_close_client:
  assumes inv: "server_inv d" and m: "(raw, i) \<in> set (sd_clients d)"
  shows "\<exists>d'. server_close d i = Some (None, d') \<and> server_inv d' \<and>
    sd_clients d' = filter (\<lambda>e. fst e \<noteq> raw) (sd_clients d) \<and> isClosed (sd_conns d' i) \<and>
    (\<forall>j. j \<noteq> i \<longrightarrow> sd_conns d' j = sd_conns d j) \<and> sd_accept d' = sd_accept d \<and> sd_closed d' = sd_closed d \<and> sd_next d' = sd_next d"
proof -
  obtain c err where c: "safeCloseRead (sd_conns d i) = (err, c)" by fastforce
  have i: "i < sd_next d" "rawAddr (c_remote (sd_conns d i)) = Some raw" "\<not> isClosed (sd_conns d i)"
    and dist: "distinct (map fst (sd_clients d))" "distinct (map snd (sd_clients d))"
    using inv m by (auto simp: server_inv_def)
  have sc: "safeCloseRead (sd_conns d i) = (None, c)" "c_remote c = c_remote (sd_conns d i)" "isClosed c"
    using safeCloseRead_sel [of "sd_conns d i"] i(3) c by simp_all
  let ?rest = "filter (\<lambda>e. fst e \<noteq> raw) (sd_clients d)"
  let ?d = "addConnNum (-1) (d\<lparr>sd_conns := (sd_conns d)(i := c)\<rparr>)\<lparr>sd_clients := ?rest\<rparr>"
  have eq: "server_close d i = Some (None, ?d)"
    using sc i(2) by (simp add: server_close_def deleteConn_def addConnNum_def Let_def)
  have other: "j \<noteq> i" if "(r, j) \<in> set ?rest" for r j
    using that dist(2) m inj_on_eq_iff [of snd "set (sd_clients d)" "(r, j)" "(raw, i)"]
    by (auto simp: distinct_map)
  have "server_inv ?d"
    using inv dist other length_filter_key [OF dist(1) m]
    by (auto simp: server_inv_def addConnNum_def Let_def distinct_map_filter)
  then show ?thesis using eq sc(3) by (auto simp: addConnNum_def Let_def)
qed

text \<open>A range that closes clients: exactly the tested ones go.\<close>

lemma closeClients_spec:
  assumes "server_inv d" "distinct is" "set is \<subseteq> snd ` set (sd_clients d)"
  shows "\<exists>d'. closeClients test is d = Some d' \<and> server_inv d' \<and> sd_accept d' = sd_accept d \<and> sd_closed d' = sd_closed d \<and> sd_next d' = sd_next d \<and>
    set (sd_clients d') = {e \<in> set (sd_clients d). \<not> (snd e \<in> set is \<and> test (sd_conns d (snd e)))} \<and>
    (\<forall>j. j \<notin> set is \<or> \<not> test (sd_conns d j) \<longrightarrow> sd_conns d' j = sd_conns d j) \<and>
    (\<forall>j \<in> set is. test (sd_conns d j) \<longrightarrow> isClosed (sd_conns d' j))"
  using assms
proof (induction "is" arbitrary: d)
  case (Cons i "is")
  obtain raw where m: "(raw, i) \<in> set (sd_clients d)" using Cons.prems(3) by auto
  show ?case
  proof (cases "test (sd_conns d i)")
    case False
    have "\<exists>d'. closeClients test is d = Some d' \<and> server_inv d' \<and> sd_accept d' = sd_accept d \<and> sd_closed d' = sd_closed d \<and> sd_next d' = sd_next d \<and>
        set (sd_clients d') = {e \<in> set (sd_clients d). \<not> (snd e \<in> set is \<and> test (sd_conns d (snd e)))} \<and>
        (\<forall>j. j \<notin> set is \<or> \<not> test (sd_conns d j) \<longrightarrow> sd_conns d' j = sd_conns d j) \<and>
        (\<forall>j \<in> set is. test (sd_conns d j) \<longrightarrow> isClosed (sd_conns d' j))"
      using Cons.IH [OF Cons.prems(1)] Cons.prems(2,3) by simp
    then show ?thesis using False by auto
  next
    case True
    obtain d1 where d1: "server_close d i = Some (None, d1)" "server_inv d1"
      "sd_clients d1 = filter (\<lambda>e. fst e \<noteq> raw) (sd_clients d)" "isClosed (sd_conns d1 i)"
      "\<forall>j. j \<noteq> i \<longrightarrow> sd_conns d1 j = sd_conns d j" "sd_accept d1 = sd_accept d" "sd_closed d1 = sd_closed d \<and> sd_next d1 = sd_next d"
      using server_close_client [OF Cons.prems(1) m] by blast
    have gone: "fst e \<noteq> raw \<longleftrightarrow> snd e \<noteq> i" if "e \<in> set (sd_clients d)" for e
    proof -
      have "inj_on fst (set (sd_clients d))" "inj_on snd (set (sd_clients d))"
        using Cons.prems(1) by (auto simp: server_inv_def distinct_map)
      then show ?thesis using that m by (metis fst_conv snd_conv inj_on_eq_iff)
    qed
    have cl: "set (sd_clients d1) = {e \<in> set (sd_clients d). snd e \<noteq> i}" using d1(3) gone by auto
    have "set is \<subseteq> snd ` set (sd_clients d1)" using Cons.prems(2,3) cl by fastforce
    from Cons.IH [OF d1(2) _ this] Cons.prems(2) obtain d2
      where d2: "closeClients test is d1 = Some d2" "server_inv d2" "sd_accept d2 = sd_accept d1" "sd_closed d2 = sd_closed d1 \<and> sd_next d2 = sd_next d1"
        "set (sd_clients d2) = {e \<in> set (sd_clients d1). \<not> (snd e \<in> set is \<and> test (sd_conns d1 (snd e)))}"
        "\<forall>j. j \<notin> set is \<or> \<not> test (sd_conns d1 j) \<longrightarrow> sd_conns d2 j = sd_conns d1 j"
        "\<forall>j \<in> set is. test (sd_conns d1 j) \<longrightarrow> isClosed (sd_conns d2 j)" by auto
    have i: "i \<notin> set is" using Cons.prems(2) by simp
    have "set (sd_clients d2) = {e \<in> set (sd_clients d). \<not> (snd e \<in> set (i # is) \<and> test (sd_conns d (snd e)))}"
      using d2(5) cl d1(5) True by auto
    moreover have "\<forall>j. j \<notin> set (i # is) \<or> \<not> test (sd_conns d j) \<longrightarrow> sd_conns d2 j = sd_conns d j"
      using d2(6) d1(5) True by (metis list.set_intros(2) list.set_intros(1))
    moreover have "\<forall>j \<in> set (i # is). test (sd_conns d j) \<longrightarrow> isClosed (sd_conns d2 j)"
      using d2(6,7) d1(4,5) i by (metis set_ConsD)
    ultimately show ?thesis using True d1(1,6,7) d2(1,2,3,4) by auto
  qed
qed simp

lemma server_timeout_spec:
  assumes "server_inv d"
  shows "\<exists>d'. server_timeout now t d = Some d' \<and> server_inv d' \<and>
    set (sd_clients d') = {(raw, i) \<in> set (sd_clients d). now - c_lastSeen (sd_conns d i) \<le> t} \<and>
    (\<forall>(raw, i) \<in> set (sd_clients d). now - c_lastSeen (sd_conns d i) > t \<longrightarrow> isClosed (sd_conns d' i))"
proof -
  have "distinct (map snd (sd_clients d))" using assms by (simp add: server_inv_def)
  from closeClients_spec [OF assms this, of "\<lambda>c. now - c_lastSeen c > t"] obtain d'
    where d': "server_timeout now t d = Some d'" "server_inv d'"
      "set (sd_clients d') = {e \<in> set (sd_clients d). \<not> (snd e \<in> set (map snd (sd_clients d)) \<and> now - c_lastSeen (sd_conns d (snd e)) > t)}"
      "\<forall>j \<in> set (map snd (sd_clients d)). now - c_lastSeen (sd_conns d j) > t \<longrightarrow> isClosed (sd_conns d' j)"
    by (auto simp: server_timeout_def)
  have "set (sd_clients d') = {(raw, i) \<in> set (sd_clients d). now - c_lastSeen (sd_conns d i) \<le> t}"
    using d'(3) by (auto simp: image_iff not_less Bex_def)
  moreover have "\<forall>(raw, i) \<in> set (sd_clients d). now - c_lastSeen (sd_conns d i) > t \<longrightarrow> isClosed (sd_conns d' i)"
    using d'(4) by force
  ultimately show ?thesis using d'(1,2) by blast
qed

section \<open>Accepting keeps the table in order\<close>

lemma acceptNext_spec:
  "acceptNext d as = Some (Some a, rest) \<Longrightarrow> \<exists>raw. rawAddr a = Some raw \<and> sd_load d raw = None \<and> a \<in> set as"
  by (induction as) (auto simp: getConn_def bind_eq_Some_conv split: if_splits option.splits)

lemma setConn_inv:
  fixes now :: int and m :: Metric
  assumes inv: "server_inv d" and raw: "rawAddr a = Some raw" "sd_load d raw = None"
  defines "d1 \<equiv> d\<lparr>sd_conns := (sd_conns d)(sd_next d := NewRdpConn a now m), sd_next := sd_next d + 1\<rparr>"
  assumes s: "setConn d1 a (sd_next d) = Some (ok, d2)"
  shows "server_inv d2" "ok \<longleftrightarrow> \<not> sd_closed d" "ok \<Longrightarrow> sd_load d2 raw = Some (sd_next d)"
    "sd_conns d2 (sd_next d) = NewRdpConn a now m"
proof -
  have new: "raw \<notin> fst ` set (sd_clients d)" using raw(2) by (simp add: sd_load_def map_of_eq_None_iff)
  then have flt: "filter (\<lambda>e. fst e \<noteq> raw) (sd_clients d) = sd_clients d" by (auto simp: filter_id_conv)
  have fresh: "sd_next d \<notin> snd ` set (sd_clients d)" using inv by (auto simp: server_inv_def)
  have d1: "server_inv d1"
    using inv by (auto simp: server_inv_def d1_def)
  have con: "rawAddr (c_remote (NewRdpConn a now m)) = Some raw" "\<not> isClosed (NewRdpConn a now m)"
    using raw(1) by (simp_all add: NewRdpConn_def isClosed_def)
  have cases: "sd_closed d \<and> \<not> ok \<and> d2 = d1 \<or> \<not> sd_closed d \<and> ok \<and>
      d2 = (addConnNum 1 d1)\<lparr>sd_clients := (raw, sd_next d) # sd_clients d\<rparr>"
    using s raw(1) flt by (auto simp: setConn_def d1_def addConnNum_def Let_def split: if_splits)
  then show "ok \<longleftrightarrow> \<not> sd_closed d" by blast
  show "server_inv d2"
    using cases d1 inv new fresh con by (auto simp: server_inv_def d1_def addConnNum_def Let_def)
  show "ok \<Longrightarrow> sd_load d2 raw = Some (sd_next d)" using cases by (auto simp: sd_load_def)
  show "sd_conns d2 (sd_next d) = NewRdpConn a now m"
    using cases by (auto simp: d1_def addConnNum_def Let_def)
qed

text \<open>The dial acknowledgement leaves the table alone, so \<open>Accept\<close> keeps the invariant and what
  it returns is registered under the address it came from.\<close>

lemma server_inv_sd_x:
  "server_inv d \<Longrightarrow> ConnectionNum (x_metrics x) = ConnectionNum (x_metrics (sd_x d)) \<Longrightarrow>
   server_inv (d\<lparr>sd_accept := q, sd_x := x\<rparr>)"
  by (simp add: server_inv_def)

lemma Accept_inv:
  assumes inv: "server_inv d" and acc: "Accept buf now answers d = Some (r, as, d')"
  shows "server_inv d' \<and> (\<forall>(raw, i) \<in> set (sd_clients d). (raw, i) \<in> set (sd_clients d') \<and> sd_conns d' i = sd_conns d i) \<and>
    sd_next d \<le> sd_next d' \<and> (\<forall>i < sd_next d. sd_conns d' i = sd_conns d i) \<and>
    (\<forall>i. r = Accepted i \<longrightarrow> i = sd_next d \<and> i < sd_next d' \<and> c_remote (sd_conns d' i) \<in> set (sd_accept d) \<and>
       (\<exists>raw. rawAddr (c_remote (sd_conns d' i)) = Some raw \<and> sd_load d raw = None \<and> (raw, i) \<in> set (sd_clients d')))"
proof -
  obtain a rest where nx: "acceptNext d (sd_accept d) = Some (a, rest)"
    using acc by (auto simp: Accept_def bind_eq_Some_conv)
  have reg: "i < sd_next d" if "(raw, i) \<in> set (sd_clients d)" for raw i
    using inv that by (auto simp: server_inv_def)
  show ?thesis
  proof (cases a)
    case None
    then show ?thesis using acc nx inv by (auto simp: Accept_def server_inv_def split: if_splits)
  next
    case (Some peer)
    obtain raw where raw: "rawAddr peer = Some raw" "sd_load d raw = None" "peer \<in> set (sd_accept d)"
      using acceptNext_spec [OF nx [unfolded Some]] by blast
    obtain n packet where hp: "packetHeader_writeTo (packetHeader_zero\<lparr>packetKind := packetDialAck\<rparr>) buf = (n, packet)"
      by fastforce
    obtain dr as1 x where wd: "writeDirect answers (sd_x d) packet n peer = (dr, as1, x)" by (metis prod_cases3)
    let ?d = "d\<lparr>sd_accept := rest, sd_x := x\<rparr>"
    have i0: "server_inv ?d" using server_inv_sd_x [OF inv writeDirect_metrics [OF wd]] .
    show ?thesis
    proof (cases "dr = DirOk")
      case False
      then have "d' = ?d" "\<forall>i. r \<noteq> Accepted i"
        using acc nx Some hp wd by (auto simp: Accept_def Let_def split: dir_result.splits)
      then show ?thesis using i0 by auto
    next
      case True
      let ?d1 = "?d\<lparr>sd_conns := (sd_conns ?d)(sd_next ?d := NewRdpConn peer now (x_metrics x)), sd_next := sd_next ?d + 1\<rparr>"
      obtain ok where sc: "setConn ?d1 peer (sd_next ?d) = Some (ok, d')" "r = (if ok then Accepted (sd_next d) else AcceptClosed)"
        using acc nx Some hp wd True by (auto simp: Accept_def bind_eq_Some_conv Let_def)
      have ld: "sd_load ?d raw = None" using raw(2) by (simp add: sd_load_def)
      note s = setConn_inv [OF i0 raw(1) ld sc(1)]
      have d': "d' = ?d1 \<or> ok \<and> d' = (addConnNum 1 ?d1)\<lparr>sd_clients := (raw, sd_next d) # sd_clients d\<rparr>"
      proof -
        have "filter (\<lambda>e. fst e \<noteq> raw) (sd_clients d) = sd_clients d"
          using raw(2) by (auto simp: filter_id_conv sd_load_def map_of_eq_None_iff)
        then show ?thesis using sc(1) raw(1) by (auto simp: setConn_def addConnNum_def Let_def split: if_splits)
      qed
      have keep: "sd_next d' = sd_next d + 1" "\<forall>i < sd_next d. sd_conns d' i = sd_conns d i"
        "set (sd_clients d) \<subseteq> set (sd_clients d')" "c_remote (sd_conns d' (sd_next d)) = peer"
        using d' by (auto simp: addConnNum_def Let_def NewRdpConn_def)
      have "(raw, sd_next d) \<in> set (sd_clients d')" if ok using s(3) [OF that] by (auto simp: sd_load_def dest: map_of_SomeD)
      then show ?thesis using s(1) keep reg raw sc(2) by (auto split: if_splits)
    qed
  qed
qed

section \<open>All runs of a server\<close>

text \<open>The steps of a server: datagrams, the application accepting, closing and using the
  connections it was handed (\<open>H\<close>), the timeout sweep and the end of the read loop. Reading and
  writing change a connection without closing it or changing its address.\<close>

inductive server_run :: "serverDispatcher \<Rightarrow> nat set \<Rightarrow> bool" where
  run_new: "sd_clients d = [] \<Longrightarrow> ConnectionNum (x_metrics (sd_x d)) = 0 \<Longrightarrow> server_run d {}"
| run_recv: "server_run d H \<Longrightarrow> ReadBatch buf d ms = Some d' \<Longrightarrow> server_run d' H"
| run_accept: "server_run d H \<Longrightarrow> Accept buf now answers d = Some (r, as, d') \<Longrightarrow>
    server_run d' (case r of Accepted i \<Rightarrow> insert i H | _ \<Rightarrow> H)"
| run_close: "server_run d H \<Longrightarrow> i \<in> H \<Longrightarrow> server_close d i = Some (e, d') \<Longrightarrow> server_run d' H"
| run_timeout: "server_run d H \<Longrightarrow> server_timeout now t d = Some d' \<Longrightarrow> server_run d' H"
| run_end: "server_run d H \<Longrightarrow> server_read_end d = Some d' \<Longrightarrow> server_run d' H"
| run_use: "server_run d H \<Longrightarrow> i \<in> H \<Longrightarrow> c_remote c = c_remote (sd_conns d i) \<Longrightarrow>
    isClosed c = isClosed (sd_conns d i) \<Longrightarrow> server_run (d\<lparr>sd_conns := (sd_conns d)(i := c)\<rparr>) H"

text \<open>A connection the application holds is open exactly as long as it is registered.\<close>

definition handed :: "serverDispatcher \<Rightarrow> nat set \<Rightarrow> bool" where
  "handed d H \<longleftrightarrow> (\<forall>i \<in> H. i < sd_next d \<and> (isClosed (sd_conns d i) \<or> i \<in> snd ` set (sd_clients d)))"

lemma server_readLogic_cases:
  assumes "server_readLogic buf d data addr = Some d'"
  obtains (idle) "d' = d"
  | (dial) "d' = d\<lparr>sd_accept := sd_accept d @ [addr]\<rparr>" "length (sd_accept d) < incomingChanSize"
  | (conn) raw i h b where "rawAddr addr = Some raw" "sd_load d raw = Some i"
      "d' = d\<lparr>sd_conns := (sd_conns d)(i := dispatchToConn buf (sd_conns d i) h b)\<rparr>"
proof -
  obtain body h where h: "packetHeader_readFrom packetHeader_zero data = (body, h)" by fastforce
  show ?thesis
  proof (cases "body = 0")
    case True
    then show ?thesis using assms h idle by (simp add: server_readLogic_def)
  next
    case False
    then obtain r where r: "getConn d addr = Some r" using assms h by (auto simp: server_readLogic_def bind_eq_Some_conv)
    show ?thesis
    proof (cases r)
      case None
      then show ?thesis using assms h False r idle dial by (auto simp: server_readLogic_def split: if_splits)
    next
      case (Some i)
      then obtain raw where "rawAddr addr = Some raw" "sd_load d raw = Some i" using r by (auto simp: getConn_def)
      then show ?thesis using assms h False r Some conn [of raw i h "drop body data"] by (simp add: server_readLogic_def)
    qed
  qed
qed

lemma handed_dispatch:
  "handed d H \<Longrightarrow> handed (d\<lparr>sd_conns := (sd_conns d)(i := dispatchToConn buf (sd_conns d i) h b)\<rparr>) H"
  by (simp add: handed_def)

lemma server_recvCrcData_inv:
  assumes "server_inv d" "handed d H" "server_recvCrcData buf d data addr = Some d'"
  shows "server_inv d' \<and> handed d' H \<and> sd_clients d' = sd_clients d"
proof -
  obtain n where n: "checkPacket data (length data) = Some n" using assms(3) by (auto simp: server_recvCrcData_def bind_eq_Some_conv)
  show ?thesis
  proof (cases "n < 1")
    case True
    then show ?thesis using assms n by (auto simp: server_recvCrcData_def server_inv_def handed_def Let_def)
  next
    case False
    then have r: "server_readLogic buf d (take n data) addr = Some d'" using assms(3) n by (simp add: server_recvCrcData_def)
    then have "handed d' H"
      by (cases rule: server_readLogic_cases) (use assms(2) handed_dispatch in \<open>auto simp: handed_def\<close>)
    then show ?thesis using server_readLogic_inv [OF assms(1) r] by simp
  qed
qed

lemma recvAll_inv:
  "server_inv d \<and> handed d H \<Longrightarrow> recvAll buf d ms = Some d' \<Longrightarrow> server_inv d' \<and> handed d' H \<and> sd_clients d' = sd_clients d"
proof (induction ms arbitrary: d)
  case (Cons m ms)
  obtain data addr where m: "m = (data, addr)" by fastforce
  obtain d1 where d1: "server_recvCrcData buf d data addr = Some d1" "recvAll buf d1 ms = Some d'"
    using Cons.prems(2) m by (auto simp: bind_eq_Some_conv)
  then show ?case using server_recvCrcData_inv [OF _ _ d1(1), of H] Cons.prems(1) Cons.IH [of d1] by auto
qed simp

lemma closeClients_handed:
  assumes "server_inv d" "handed d H" "closeClients test (map snd (sd_clients d)) d = Some d'"
  shows "server_inv d' \<and> handed d' H"
proof -
  have "distinct (map snd (sd_clients d))" using assms(1) by (simp add: server_inv_def)
  from closeClients_spec [OF assms(1) this eq_refl [OF set_map], of test] obtain d2
    where d2: "closeClients test (map snd (sd_clients d)) d = Some d2" "server_inv d2" "sd_next d2 = sd_next d"
      "set (sd_clients d2) = {e \<in> set (sd_clients d). \<not> (snd e \<in> set (map snd (sd_clients d)) \<and> test (sd_conns d (snd e)))}"
      "\<forall>j. j \<notin> set (map snd (sd_clients d)) \<or> \<not> test (sd_conns d j) \<longrightarrow> sd_conns d2 j = sd_conns d j"
      "\<forall>j \<in> set (map snd (sd_clients d)). test (sd_conns d j) \<longrightarrow> isClosed (sd_conns d2 j)" by blast
  have eq: "d' = d2" using d2(1) assms(3) by simp
  have "isClosed (sd_conns d2 i) \<or> i \<in> snd ` set (sd_clients d2)" if "i \<in> H" for i
  proof (cases "i \<in> snd ` set (sd_clients d)")
    case True
    then show ?thesis using d2(4,6) by force
  next
    case False
    then have "isClosed (sd_conns d i)" "sd_conns d2 i = sd_conns d i"
      using assms(2) that d2(5) by (auto simp: handed_def)
    then show ?thesis by simp
  qed
  then show ?thesis using eq d2(2,3) assms(2) by (simp add: handed_def)
qed

text \<open>In every run the invariant holds, and a connection the application holds is open exactly as
  long as it is registered.\<close>

lemma server_run_inv: "server_run d H \<Longrightarrow> server_inv d \<and> handed d H"
proof (induction rule: server_run.induct)
  case (run_new d)
  then show ?case by (simp add: server_inv_def handed_def)
next
  case (run_recv d H buf ms d')
  then obtain d1 where d1: "recvAll buf d ms = Some d1" "server_inv d' = server_inv d1" "handed d' H = handed d1 H"
    by (auto simp: ReadBatch_def bind_eq_Some_conv server_inv_def handed_def Let_def)
  then show ?case using recvAll_inv [OF run_recv.IH] by blast
next
  case (run_accept d H buf now answers r as d')
  note a = Accept_inv [OF conjunct1 [OF run_accept.IH] run_accept.hyps(2)]
  have "i < sd_next d' \<and> (isClosed (sd_conns d' i) \<or> i \<in> snd ` set (sd_clients d'))" if "i \<in> H" for i
  proof -
    have i: "i < sd_next d" "isClosed (sd_conns d i) \<or> i \<in> snd ` set (sd_clients d)"
      using run_accept.IH that by (auto simp: handed_def)
    then show ?thesis using a by (auto split: prod.splits)
  qed
  moreover have "i < sd_next d' \<and> i \<in> snd ` set (sd_clients d')" if "r = Accepted i" for i
    using a that by force
  ultimately show ?case using a by (auto simp: handed_def split: accept_result.splits)
next
  case (run_close d H i e d')
  show ?case
  proof (cases "isClosed (sd_conns d i)")
    case True
    then have "d' = d"
      using run_close.hyps(3) safeCloseRead_sel(3) [of "sd_conns d i"] by (auto simp: server_close_def split: prod.splits)
    then show ?thesis using run_close.IH by simp
  next
    case False
    then obtain raw where raw: "(raw, i) \<in> set (sd_clients d)"
      using run_close.IH run_close.hyps(2) by (auto simp: handed_def)
    obtain d2 where d2: "server_close d i = Some (None, d2)" "server_inv d2" "sd_next d2 = sd_next d"
      "sd_clients d2 = filter (\<lambda>e. fst e \<noteq> raw) (sd_clients d)" "isClosed (sd_conns d2 i)"
      "\<forall>j. j \<noteq> i \<longrightarrow> sd_conns d2 j = sd_conns d j"
      using server_close_client [OF conjunct1 [OF run_close.IH] raw] by blast
    have dist: "inj_on fst (set (sd_clients d))" using run_close.IH by (simp add: server_inv_def distinct_map)
    have "isClosed (sd_conns d2 j) \<or> j \<in> snd ` set (sd_clients d2)" if "j \<in> H" for j
    proof (cases "j = i")
      case False
      then have "isClosed (sd_conns d j) \<or> j \<in> snd ` set (sd_clients d)" "sd_conns d2 j = sd_conns d j"
        using run_close.IH that d2(6) by (auto simp: handed_def)
      moreover have "fst e \<noteq> raw" if "e \<in> set (sd_clients d)" "snd e = j" for e
        using that False inj_on_eq_iff [OF dist that(1) raw] by (cases e) auto
      ultimately show ?thesis using d2(4) by fastforce
    qed (use d2(5) in simp)
    then show ?thesis using d2 run_close by (auto simp: handed_def)
  qed
next
  case (run_timeout d H now t d')
  then show ?case using closeClients_handed by (metis server_timeout_def)
next
  case (run_end d H d')
  have "server_inv (d\<lparr>sd_closed := True\<rparr>) \<and> handed (d\<lparr>sd_closed := True\<rparr>) H"
    using run_end.IH by (simp add: server_inv_def handed_def)
  then show ?case using closeClients_handed [of "d\<lparr>sd_closed := True\<rparr>" H] run_end.hyps(2)
    by (simp add: server_read_end_def)
next
  case (run_use d H i c)
  then show ?case by (auto simp: server_inv_def handed_def)
qed

section \<open>The handshake\<close>

text \<open>A packet of a header alone, sent directly on an idle batch the socket takes whole.\<close>

lemma control_packet:
  assumes "length buf = mtu" "kind \<noteq> packetAck" "SendQ x = []" "0 < m"
    "packetHeader_writeTo (packetHeader_zero\<lparr>packetKind := kind\<rparr>) buf = (n, packet)"
  shows "\<exists>x'. writeDirect (Some m # as) x packet n to = (DirOk, as, x') \<and> SendQ x' = [] \<and>
    wire x' = wire x @ [(with_crc [protocolID, kind], to)] \<and>
    x_metrics x' = x_metrics x\<lparr>UDPSendBytes := UDPSendBytes (x_metrics x) + of_nat m,
      UDPSendPackets := UDPSendPackets (x_metrics x) + of_nat m\<rparr>"
proof -
  have p: "n = 2" "take 2 packet = [protocolID, kind]" "length packet = mtu"
    using assms(1,2,5) by (auto simp: packetHeader_writeTo_def put_at_def mtu_def Let_def split: if_splits)
  obtain n' packet' where cs: "putCheckSum packet 2 = (n', packet')" by fastforce
  then have n': "n' = 6" using p(3) by (auto simp: putCheckSum_def crcOverhead_def mtu_def)
  then have t: "take 6 packet' = with_crc [protocolID, kind]"
    using putCheckSum_spec(3) [OF cs] p(2) by (simp add: with_crc_def)
  show ?thesis
    using cs n' t p(1) assms(3,4)
    by (simp add: writeDirect_def uncork_def WriteBatch.simps [of "Some m # as"] WriteBatch.simps [of as] Let_def)
qed

lemma control_received:
  assumes "kind \<noteq> packetAck"
  shows "checkPacket (with_crc [protocolID, kind]) (length (with_crc [protocolID, kind])) = Some 2"
    "packetHeader_readFrom packetHeader_zero (take 2 (with_crc [protocolID, kind])) =
       (2, packetHeader_zero\<lparr>packetKind := kind\<rparr>)"
  using checkPacket_with_crc [of "[protocolID, kind]"] assms
  by (simp_all add: packetHeader_readFrom_def with_crc_def packetHeader_zero_def Let_def)

lemma control_kinds: "packetDial \<noteq> packetAck" "packetDialAck \<noteq> packetAck"
  by (simp_all add: packet_kinds)

lemma server_accepts_dial:
  assumes "length buf = mtu" "SendQ (sd_x d) = []" "rawAddr client = Some raw" "sd_load d raw = None"
    "sd_accept d = []" "\<not> sd_closed d"
  shows "server_recvCrcData b d (with_crc [protocolID, packetDial]) client = Some (d\<lparr>sd_accept := [client]\<rparr>)"
    "\<exists>d2. Accept buf now [Some 1] (d\<lparr>sd_accept := [client]\<rparr>) = Some (Accepted (sd_next d), [], d2) \<and>
       sd_load d2 raw = Some (sd_next d) \<and> sd_conns d2 (sd_next d) = NewRdpConn client now (x_metrics (sd_x d)\<lparr>
         UDPSendBytes := UDPSendBytes (x_metrics (sd_x d)) + 1, UDPSendPackets := UDPSendPackets (x_metrics (sd_x d)) + 1\<rparr>) \<and>
       wire (sd_x d2) = wire (sd_x d) @ [(with_crc [protocolID, packetDialAck], client)]"
proof -
  note kinds = control_kinds
  show "server_recvCrcData b d (with_crc [protocolID, packetDial]) client = Some (d\<lparr>sd_accept := [client]\<rparr>)"
    using control_received [OF kinds(1)] assms(3-5)
    by (simp add: server_recvCrcData_def server_readLogic_def getConn_def packetHeader_zero_def incomingChanSize_def)
  obtain n packet where w: "packetHeader_writeTo (packetHeader_zero\<lparr>packetKind := packetDialAck\<rparr>) buf = (n, packet)" by fastforce
  note x = control_packet [OF assms(1) kinds(2) assms(2) _ w, of 1 "[]" client, simplified]
  have "getConn (d\<lparr>sd_accept := [client]\<rparr>) client = Some None" using assms(3,4) by (simp add: getConn_def sd_load_def)
  then show "\<exists>d2. Accept buf now [Some 1] (d\<lparr>sd_accept := [client]\<rparr>) = Some (Accepted (sd_next d), [], d2) \<and>
       sd_load d2 raw = Some (sd_next d) \<and> sd_conns d2 (sd_next d) = NewRdpConn client now (x_metrics (sd_x d)\<lparr>
         UDPSendBytes := UDPSendBytes (x_metrics (sd_x d)) + 1, UDPSendPackets := UDPSendPackets (x_metrics (sd_x d)) + 1\<rparr>) \<and>
       wire (sd_x d2) = wire (sd_x d) @ [(with_crc [protocolID, packetDialAck], client)]"
    using w x assms(3,6) by (auto simp: Accept_def setConn_def addConnNum_def sd_load_def Let_def)
qed

lemma dialLoop_ack:
  "dialLoop server (DialDatagram (with_crc [protocolID, packetDialAck]) server # evs) = (DialOk, evs)"
  using control_received [OF control_kinds(2)] by (simp add: packetHeader_zero_def addrEquals_def)

section \<open>A server with one client\<close>

definition demo_client :: UDPAddr where "demo_client = \<lparr>IP = [10, 0, 0, 1], Port = 80\<rparr>"

definition demo_listen :: serverDispatcher where
  "demo_listen = \<lparr>sd_clients = [], sd_conns = (\<lambda>_. NewRdpConn demo_client 0 Metric_zero), sd_next = 0, sd_closed = False,
     sd_accept = [], sd_x = \<lparr>SendQ = [], wire = [], x_metrics = Metric_zero\<rparr>\<rparr>"

definition demo_server :: serverDispatcher where
  "demo_server =
     (case Accept (replicate mtu 0) 5 [Some 1] (the (ReadBatch [] demo_listen [(with_crc [protocolID, packetDial], demo_client)])) of
        Some (_, _, d) \<Rightarrow> d | None \<Rightarrow> demo_listen)"

lemma demo_server:
  shows "server_run demo_server {0}" "sd_load demo_server (the (rawAddr demo_client)) = Some 0"
    "c_lastSeen (sd_conns demo_server 0) = 5" "rawAddr demo_client = Some (the (rawAddr demo_client))"
proof -
  show raw: "rawAddr demo_client = Some (the (rawAddr demo_client))" by (simp add: demo_client_def rawAddr_def)
  let ?x = "sd_x demo_listen"
  let ?d = "demo_listen\<lparr>sd_x := ?x\<lparr>x_metrics := Metric_zero\<lparr>UDPRecvBytes := 6, UDPRecvPackets := 1\<rparr>\<rparr>\<rparr>"
  have idle: "SendQ (sd_x demo_listen) = []" "sd_accept demo_listen = []" "\<not> sd_closed demo_listen" "sd_clients demo_listen = []"
    "x_metrics (sd_x demo_listen) = Metric_zero" "sd_next demo_listen = 0" by (simp_all add: demo_listen_def)
  have "server_recvCrcData [] demo_listen (with_crc [protocolID, packetDial]) demo_client =
      Some (demo_listen\<lparr>sd_accept := [demo_client]\<rparr>)"
    by (rule server_accepts_dial(1) [where buf = "replicate mtu 0" and raw = "the (rawAddr demo_client)"])
      (use idle raw in \<open>simp_all add: sd_load_def\<close>)
  then have rb: "ReadBatch [] demo_listen [(with_crc [protocolID, packetDial], demo_client)] = Some (?d\<lparr>sd_accept := [demo_client]\<rparr>)"
    using idle(5) by (simp add: ReadBatch_def with_crc_def Metric_zero_def Let_def)
  obtain d2 where d2: "Accept (replicate mtu 0) 5 [Some 1] (?d\<lparr>sd_accept := [demo_client]\<rparr>) = Some (Accepted 0, [], d2)"
    "sd_load d2 (the (rawAddr demo_client)) = Some 0" "c_lastSeen (sd_conns d2 0) = 5"
    using server_accepts_dial(2) [of "replicate mtu 0" ?d demo_client "the (rawAddr demo_client)" 5] idle raw
    by (auto simp: sd_load_def NewRdpConn_def)
  have eq: "demo_server = d2" using rb d2(1) by (simp add: demo_server_def)
  have "server_run demo_listen {}" by (rule run_new) (simp_all add: idle Metric_zero_def)
  from run_accept [OF run_recv [OF this rb] d2(1)] show "server_run demo_server {0}" using eq by simp
  show "sd_load demo_server (the (rawAddr demo_client)) = Some 0" "c_lastSeen (sd_conns demo_server 0) = 5"
    using eq d2 by simp_all
qed

section \<open>Properties\<close>





text \<open>C19: The timeout sweep never panics, closes exactly the registered connections that were not seen
  for longer than the timeout, and leaves the others registered and untouched.\<close>

theorem rdp_timeout_exact:
  assumes "server_run d H"
  shows "\<exists>d'. server_timeout now t d = Some d' \<and>
    set (sd_clients d') = {(raw, i) \<in> set (sd_clients d). now - c_lastSeen (sd_conns d i) \<le> t} \<and>
    (\<forall>i \<in> snd ` set (sd_clients d). isClosed (sd_conns d' i) \<longleftrightarrow> now - c_lastSeen (sd_conns d i) > t)"
proof -
  have inv: "server_inv d" using server_run_inv [OF assms] by blast
  obtain d' where d': "server_timeout now t d = Some d'" "server_inv d'"
    "set (sd_clients d') = {(raw, i) \<in> set (sd_clients d). now - c_lastSeen (sd_conns d i) \<le> t}"
    "\<forall>(raw, i) \<in> set (sd_clients d). now - c_lastSeen (sd_conns d i) > t \<longrightarrow> isClosed (sd_conns d' i)"
    using server_timeout_spec [OF inv] by blast
  have "isClosed (sd_conns d' i) \<longleftrightarrow> now - c_lastSeen (sd_conns d i) > t" if "(raw, i) \<in> set (sd_clients d)" for raw i
  proof (cases "now - c_lastSeen (sd_conns d i) > t")
    case False
    then have "(raw, i) \<in> set (sd_clients d')" using d'(3) that by auto
    then show ?thesis using d'(2) False by (auto simp: server_inv_def)
  qed (use d'(4) that in auto)
  then show ?thesis using d'(1,3) by force
qed

theorem rdp_timeout_exact_witness:
  "\<exists>d'. server_timeout 9 3 demo_server = Some d' \<and> isClosed (sd_conns d' 0)"
proof -
  have "0 \<in> snd ` set (sd_clients demo_server)"
    using demo_server(2) by (force simp: sd_load_def dest: map_of_SomeD)
  then show ?thesis using rdp_timeout_exact [OF demo_server(1), of 9 3] demo_server(3) by force
qed

text \<open>Two connected peers with IPv4 addresses in their four-byte form never share a key: the key
  determines the address and the port.\<close>

theorem rdp_rawAddr_injective:
  assumes "length (IP a) = 4" "length (IP b) = 4" "Port a < 65536" "Port b < 65536"
    "rawAddr a = rawAddr b"
  shows "a = b"
proof -
  have "IP a = IP b" "be_bytes 2 (of_nat (Port a) :: u16) = be_bytes 2 (of_nat (Port b) :: u16)"
    using assms by (auto simp: rawAddr_def)
  moreover from be_bytes_inj [OF this(2)] have "(of_nat (Port a) :: u16) = of_nat (Port b)" by simp
  then have "unat (of_nat (Port a) :: u16) = unat (of_nat (Port b) :: u16)" by simp
  then have "Port a = Port b" using assms(3,4) by (simp add: unat_of_nat)
  ultimately show ?thesis by (cases a; cases b) simp
qed

theorem rdp_rawAddr_injective_witness:
  "\<lparr>IP = [10, 0, 0, 1], Port = 80\<rparr> = \<lparr>IP = [10, 0, 0, 1], Port = (80::nat)\<rparr>"
  using rdp_rawAddr_injective [of "\<lparr>IP = [10, 0, 0, 1], Port = 80\<rparr>" "\<lparr>IP = [10, 0, 0, 1], Port = 80\<rparr>"]
  by simp

text \<open>In the sixteen-byte form in which \<open>net\<close> may hand out IPv4 addresses, the key is the same for
  all of them: two different hosts with the same port share one key, although \<open>addrEquals\<close>
  tells them apart.\<close>

lemma rdp_rawAddr_collides:
  assumes "length h = 4" "length h' = 4" "h \<noteq> h'"
  shows "rawAddr \<lparr>IP = v4InV6Prefix @ h, Port = p\<rparr> = rawAddr \<lparr>IP = v4InV6Prefix @ h', Port = p\<rparr> \<and>
    \<not> addrEquals \<lparr>IP = v4InV6Prefix @ h, Port = p\<rparr> \<lparr>IP = v4InV6Prefix @ h', Port = p\<rparr>"
  using assms by (simp add: rawAddr_def addrEquals_def ip_Equal_def v4InV6Prefix_def)

lemma rdp_rawAddr_collides_witness:
  "rawAddr \<lparr>IP = v4InV6Prefix @ [10, 0, 0, 1], Port = 80\<rparr> = rawAddr \<lparr>IP = v4InV6Prefix @ [10, 0, 0, 2], Port = 80\<rparr>"
  using rdp_rawAddr_collides [of "[10, 0, 0, 1]" "[10, 0, 0, 2]" 80] by simp

text \<open>C18: The handshake completes: the dial packet of a client unknown to an open server is queued,
  \<open>Accept\<close> registers a connection for it and answers, and the answer ends the client's dial
  loop with success.\<close>

theorem rdp_handshake:
  assumes "length buf = mtu" "length buf' = mtu" "SendQ x = []" "SendQ (sd_x d) = []"
    "rawAddr client = Some raw" "sd_load d raw = None" "sd_accept d = []" "\<not> sd_closed d"
  shows "\<exists>x' dial d1 d2 ack.
    sendDial buf [Some 1] x server = (DirOk, [], x') \<and> wire x' = wire x @ [(dial, server)] \<and>
    server_recvCrcData b d dial client = Some d1 \<and>
    Accept buf' now [Some 1] d1 = Some (Accepted (sd_next d), [], d2) \<and>
    sd_load d2 raw = Some (sd_next d) \<and> c_remote (sd_conns d2 (sd_next d)) = client \<and>
    wire (sd_x d2) = wire (sd_x d) @ [(ack, client)] \<and>
    dialLoop server (DialDatagram ack server # evs) = (DialOk, evs)"
proof -
  obtain n packet where w: "packetHeader_writeTo (packetHeader_zero\<lparr>packetKind := packetDial\<rparr>) buf = (n, packet)" by fastforce
  obtain x' where "sendDial buf [Some 1] x server = (DirOk, [], x')"
    "wire x' = wire x @ [(with_crc [protocolID, packetDial], server)]"
    using control_packet [OF assms(1) control_kinds(1) assms(3) _ w, of 1 "[]" server] w by (auto simp: sendDial_def)
  then show ?thesis
    using server_accepts_dial(1) [OF assms(2,4-8), of b] server_accepts_dial(2) [OF assms(2,4-8), of now] dialLoop_ack [of server evs]
    by (auto simp: NewRdpConn_def)
qed

theorem rdp_handshake_witness:
  "fst (sendDial (replicate mtu 0) [Some 1] (sd_x demo_listen) demo_client) = DirOk"
proof -
  have idle: "SendQ (sd_x demo_listen) = []" "sd_load demo_listen (the (rawAddr demo_client)) = None"
    "sd_accept demo_listen = []" "\<not> sd_closed demo_listen" by (simp_all add: demo_listen_def sd_load_def)
  have len: "length (replicate mtu 0 :: bytes) = mtu" by simp
  show ?thesis using rdp_handshake [OF len len idle(1) idle(1) demo_server(4) idle(2-4)] by (metis fst_conv)
qed

text \<open>C20: Closing a connection the application holds never panics: the first close succeeds, takes the
  connection out of the table and leaves it closed; every further close changes nothing and returns
  the error for a closed pipe.\<close>

theorem rdp_close_once:
  assumes "server_run d H" "i \<in> H"
  shows "\<exists>e d'. server_close d i = Some (e, d') \<and> (e = None \<longleftrightarrow> \<not> isClosed (sd_conns d i)) \<and>
    isClosed (sd_conns d' i) \<and> i \<notin> snd ` set (sd_clients d') \<and> server_close d' i = Some (Some ErrClosedPipe, d')"
proof -
  have inv: "server_inv d" "handed d H" using server_run_inv [OF assms(1)] by auto
  have again: "server_close d' i = Some (Some ErrClosedPipe, d')" if "isClosed (sd_conns d' i)" for d'
    using that safeCloseRead_sel(3) [of "sd_conns d' i"] by (auto simp: server_close_def split: prod.splits)
  have out: "i \<notin> snd ` set (sd_clients d')" if "isClosed (sd_conns d' i)" "server_inv d'" for d'
    using that by (auto simp: server_inv_def)
  show ?thesis
  proof (cases "isClosed (sd_conns d i)")
    case True
    then show ?thesis using again [OF True] out [OF True inv(1)] by simp
  next
    case False
    then obtain raw where raw: "(raw, i) \<in> set (sd_clients d)" using inv(2) assms(2) by (auto simp: handed_def)
    obtain d' where d': "server_close d i = Some (None, d')" "server_inv d'" "isClosed (sd_conns d' i)"
      using server_close_client [OF inv(1) raw] by blast
    then show ?thesis using again [OF d'(3)] out [OF d'(3,2)] False by simp
  qed
qed

theorem rdp_close_once_witness:
  "\<exists>d'. server_close demo_server 0 = Some (None, d') \<and> server_close d' 0 = Some (Some ErrClosedPipe, d')"
proof -
  have "\<not> isClosed (sd_conns demo_server 0)"
    using demo_server(2) server_run_inv [OF demo_server(1)] by (auto simp: server_inv_def sd_load_def dest!: map_of_SomeD)
  then show ?thesis using rdp_close_once [OF demo_server(1), of 0] by auto
qed

end
