(* ===== verification/Memory.thy ===== *)
theory Memory
  imports Prelude
begin

text \<open>
  The chunk allocators of \<open>xmemory/creator.go\<close> and the generated \<open>creator_Item\<close> of
  \<open>xcontainer/timer/gen_timer.go\<close>: each hands out pieces of a larger array and takes a new
  array when the current one is used up. An array is a number, \<open>make\<close> takes the next one; a slice
  is an array with an offset, a length and a capacity. \<open>None\<close> is a panic of \<open>make\<close> or of a slice
  expression. The element types of the creators play no role, so the creators with the same body
  share one definition; the one with the mutex is a step relation over its two critical sections.
\<close>

section \<open>Slices\<close>

record Slice =
  s_arr :: nat
  s_off :: nat
  s_len :: nat
  s_cap :: nat

text \<open>The cells a slice can reach by appending up to its capacity.\<close>

definition region :: "Slice \<Rightarrow> (nat \<times> nat) set" where
  "region s = {s_arr s} \<times> {s_off s ..< s_off s + s_cap s}"

text \<open>\<open>make([]T, slen, scap)\<close>, with \<open>h\<close> the number of the next array.\<close>

definition go_make :: "nat \<Rightarrow> nat \<Rightarrow> nat \<Rightarrow> (Slice \<times> nat) option" where
  "go_make h slen scap =
     (if slen > scap then None else Some (\<lparr>s_arr = h, s_off = 0, s_len = slen, s_cap = scap\<rparr>, h + 1))"

section \<open>The creators\<close>

record Creator =
  cr_buf :: nat
  cr_len :: nat \<comment> \<open>\<open>len(cr.buf)\<close>, zero for the nil slice\<close>
  cr_idx :: nat

definition Creator_zero :: Creator where
  "Creator_zero = \<lparr>cr_buf = 0, cr_len = 0, cr_idx = 0\<rparr>"

text \<open>\<open>cr.buf[cr.idx : cr.idx+slen : cr.idx+scap]\<close> and the advance of the index.\<close>

definition carve :: "Creator \<Rightarrow> nat \<Rightarrow> nat \<Rightarrow> (Slice \<times> Creator) option" where
  "carve cr slen scap =
     (if slen > scap \<or> cr_idx cr + scap > cr_len cr then None
      else Some (\<lparr>s_arr = cr_buf cr, s_off = cr_idx cr, s_len = slen, s_cap = scap\<rparr>,
                 cr\<lparr>cr_idx := cr_idx cr + scap\<rparr>))"

definition refill :: "nat \<Rightarrow> nat \<Rightarrow> Creator" where
  "refill arr chunk = \<lparr>cr_buf = arr, cr_len = chunk, cr_idx = 0\<rparr>"

definition ByteSliceCreator_Create :: "nat \<Rightarrow> nat \<Rightarrow> nat \<Rightarrow> nat \<times> Creator \<Rightarrow> (Slice \<times> nat \<times> Creator) option" where
  "ByteSliceCreator_Create slen scap chunk = (\<lambda>(h, cr).
     if scap > chunk then do { (s, h') \<leftarrow> go_make h slen scap; Some (s, h', cr) }
     else let (h', cr') = (if cr_idx cr + scap > cr_len cr then (h + 1, refill h chunk) else (h, cr)) in
       do { (s, cr'') \<leftarrow> carve cr' slen scap; Some (s, h', cr'') })"

text \<open>\<open>creator_Item.create\<close> and \<open>ByteSlicePtrCreator.Create\<close>: one element, as a slice of one cell.
  A chunk of zero gives an empty array, whose indexing panics.\<close>

definition creator_Item_create :: "nat \<Rightarrow> nat \<times> Creator \<Rightarrow> (Slice \<times> nat \<times> Creator) option" where
  "creator_Item_create chunk = (\<lambda>(h, cr).
     let (h', cr') = (if cr_idx cr \<ge> cr_len cr then (h + 1, refill h chunk) else (h, cr)) in
     if cr_idx cr' < cr_len cr'
     then Some (\<lparr>s_arr = cr_buf cr', s_off = cr_idx cr', s_len = 1, s_cap = 1\<rparr>, h', cr'\<lparr>cr_idx := cr_idx cr' + 1\<rparr>)
     else None)"

text \<open>\<open>ByteSliceFixedCreator\<close> keeps one array and hands out its front every time.\<close>

definition ByteSliceFixedCreator_Create ::
    "nat \<Rightarrow> nat \<Rightarrow> nat \<Rightarrow> nat \<times> (nat \<times> nat) option \<Rightarrow> (Slice \<times> nat \<times> (nat \<times> nat) option) option" where
  "ByteSliceFixedCreator_Create slen scap chunk = (\<lambda>(h, fixed).
     if scap > chunk then do { (s, h') \<leftarrow> go_make h slen scap; Some (s, h', fixed) }
     else let (h', arr, len) = (case fixed of None \<Rightarrow> (h + 1, h, chunk) | Some (a, l) \<Rightarrow> (h, a, l)) in
       if slen > scap \<or> scap > len then None
       else Some (\<lparr>s_arr = arr, s_off = 0, s_len = slen, s_cap = scap\<rparr>, h', Some (arr, len)))"

section \<open>The creator with a mutex\<close>

text \<open>A call that finds the array too small makes a new one outside the lock and looks again: a
  waiting call is its lengths and the array it made. The state is the next array, the creator and
  the waiting calls.\<close>

record SyncCreator =
  sy_next :: nat
  sy_cr :: Creator
  sy_wait :: "(nat \<times> nat \<times> nat \<times> nat) list" \<comment> \<open>slen, scap, chunk, newBuf\<close>

inductive sync_step :: "SyncCreator \<Rightarrow> Slice option \<Rightarrow> SyncCreator \<Rightarrow> bool" where
  sync_big: "scap > chunk \<Longrightarrow> go_make (sy_next s) slen scap = Some (sl, h) \<Longrightarrow>
    sync_step s (Some sl) (s\<lparr>sy_next := h\<rparr>)"
| sync_fits: "scap \<le> chunk \<Longrightarrow> carve (sy_cr s) slen scap = Some (sl, cr) \<Longrightarrow>
    sync_step s (Some sl) (s\<lparr>sy_cr := cr\<rparr>)"
| sync_unlock: "scap \<le> chunk \<Longrightarrow> cr_idx (sy_cr s) + scap > cr_len (sy_cr s) \<Longrightarrow>
    sync_step s None (s\<lparr>sy_next := sy_next s + 1, sy_wait := (slen, scap, chunk, sy_next s) # sy_wait s\<rparr>)"
| sync_relock: "sy_wait s = ws @ (slen, scap, chunk, newBuf) # ws' \<Longrightarrow>
    carve (if cr_idx (sy_cr s) + scap > cr_len (sy_cr s) then refill newBuf chunk else sy_cr s) slen scap = Some (sl, cr) \<Longrightarrow>
    sync_step s (Some sl) (s\<lparr>sy_cr := cr, sy_wait := ws @ ws'\<rparr>)"

inductive_cases sync_stepE: "sync_step s r s'"

section \<open>What an allocator promises\<close>

text \<open>An allocator hands out slices by steps that may also hand out nothing; \<open>ok s R\<close> relates a
  state to the slices in use. No slice it hands out shares a cell with one in use.\<close>

locale allocator =
  fixes start :: 's and step :: "'s \<Rightarrow> Slice option \<Rightarrow> 's \<Rightarrow> bool" and ok :: "'s \<Rightarrow> Slice list \<Rightarrow> bool"
  assumes ok_start: "ok start []"
    and ok_none: "ok s R \<Longrightarrow> step s None s' \<Longrightarrow> ok s' R"
    and ok_some: "ok s R \<Longrightarrow> step s (Some sl) s' \<Longrightarrow> ok s' (sl # R) \<and> (\<forall>r \<in> set R. region r \<inter> region sl = {})"
begin

text \<open>The slices of a run, the latest first.\<close>

inductive allocated :: "'s \<Rightarrow> Slice list \<Rightarrow> bool" where
  "allocated start []"
| "allocated s R \<Longrightarrow> step s None s' \<Longrightarrow> allocated s' R"
| "allocated s R \<Longrightarrow> step s (Some sl) s' \<Longrightarrow> allocated s' (sl # R)"

lemma no_sharing:
  assumes "allocated s R"
  shows "ok s R \<and> (\<forall>i < length R. \<forall>j < length R. i \<noteq> j \<longrightarrow> region (R ! i) \<inter> region (R ! j) = {})"
  using assms
proof (induction rule: allocated.induct)
  case (3 s R sl s')
  note new = ok_some [OF conjunct1 [OF 3(3)] 3(2)]
  have "region ((sl # R) ! i) \<inter> region ((sl # R) ! j) = {}" if "i < length (sl # R)" "j < length (sl # R)" "i \<noteq> j" for i j
    using that new 3(3) by (cases i; cases j) (auto simp: Int_commute)
  then show ?case using new by blast
qed (use ok_start ok_none in auto)

end

section \<open>The creators are allocators\<close>

text \<open>The slices in use lie in arrays already made, and those of the current array below the index.\<close>

definition creator_ok :: "nat \<times> Creator \<Rightarrow> Slice list \<Rightarrow> bool" where
  "creator_ok = (\<lambda>(h, cr) R. cr_idx cr \<le> cr_len cr \<and> (cr_len cr > 0 \<longrightarrow> cr_buf cr < h) \<and>
     (\<forall>r \<in> set R. s_cap r > 0 \<longrightarrow> s_arr r < h \<and> (s_arr r = cr_buf cr \<and> cr_len cr > 0 \<longrightarrow> s_off r + s_cap r \<le> cr_idx cr)))"

definition creates :: "('s \<Rightarrow> (Slice \<times> 's) option) set \<Rightarrow> 's \<Rightarrow> Slice option \<Rightarrow> 's \<Rightarrow> bool" where
  "creates ops s r s' \<longleftrightarrow> (\<exists>f \<in> ops. \<exists>sl. r = Some sl \<and> f s = Some (sl, s'))"

lemma carve_ok:
  assumes "creator_ok (h, cr) R" "carve cr slen scap = Some (sl, cr')"
  shows "creator_ok (h, cr') (sl # R) \<and> (\<forall>r \<in> set R. region r \<inter> region sl = {})"
proof -
  have sl: "sl = \<lparr>s_arr = cr_buf cr, s_off = cr_idx cr, s_len = slen, s_cap = scap\<rparr>"
    "cr' = cr\<lparr>cr_idx := cr_idx cr + scap\<rparr>" "cr_idx cr + scap \<le> cr_len cr"
    using assms(2) by (auto simp: carve_def split: if_splits)
  have "region r \<inter> region sl = {}" if "r \<in> set R" for r
  proof (rule ccontr)
    assume "region r \<inter> region sl \<noteq> {}"
    then have "s_cap r > 0" "s_arr r = cr_buf cr" "cr_idx cr < s_off r + s_cap r" "scap > 0"
      using sl(1) by (auto simp: region_def)
    then show False using assms(1) that sl(3) by (auto simp: creator_ok_def)
  qed
  then show ?thesis using assms(1) sl by (fastforce simp: creator_ok_def)
qed

lemma refill_ok:
  "creator_ok (h, cr) R \<Longrightarrow> h \<le> h' \<Longrightarrow> a < h' \<Longrightarrow> (\<And>r. r \<in> set R \<Longrightarrow> s_cap r > 0 \<Longrightarrow> s_arr r \<noteq> a) \<Longrightarrow>
   creator_ok (h', refill a chunk) R"
  by (fastforce simp: creator_ok_def refill_def)

lemma refill_new: "creator_ok (h, cr) R \<Longrightarrow> creator_ok (h + 1, refill h chunk) R"
  by (rule refill_ok [where h = h and cr = cr]) (auto simp: creator_ok_def)

lemma creator_ok_zero: "creator_ok (0, Creator_zero) []"
  by (simp add: creator_ok_def Creator_zero_def)

lemma go_make_ok:
  assumes "creator_ok (h, cr) R" "go_make h slen scap = Some (sl, h')"
  shows "creator_ok (h', cr) (sl # R) \<and> (\<forall>r \<in> set R. region r \<inter> region sl = {})"
proof -
  have sl: "sl = \<lparr>s_arr = h, s_off = 0, s_len = slen, s_cap = scap\<rparr>" "h' = h + 1"
    using assms(2) by (auto simp: go_make_def split: if_splits)
  have "region r \<inter> region sl = {}" if "r \<in> set R" for r
    using assms(1) that sl(1) by (fastforce simp: creator_ok_def region_def)
  then show ?thesis using assms(1) sl by (fastforce simp: creator_ok_def)
qed

lemma Create_ok:
  assumes "creator_ok s R" "ByteSliceCreator_Create slen scap chunk s = Some (sl, s')"
  shows "creator_ok s' (sl # R) \<and> (\<forall>r \<in> set R. region r \<inter> region sl = {})"
proof -
  obtain h cr where s: "s = (h, cr)" by fastforce
  show ?thesis
  proof (cases "scap > chunk")
    case True
    then obtain h' where "go_make h slen scap = Some (sl, h')" "s' = (h', cr)"
      using assms(2) s by (auto simp: ByteSliceCreator_Create_def bind_eq_Some_conv)
    then show ?thesis using go_make_ok assms(1) s by blast
  next
    case False
    then obtain h' cr' cr'' where "carve cr' slen scap = Some (sl, cr'')" "s' = (h', cr'')"
      "(h', cr') = (if cr_idx cr + scap > cr_len cr then (h + 1, refill h chunk) else (h, cr))"
      using assms(2) s by (auto simp: ByteSliceCreator_Create_def bind_eq_Some_conv split: if_splits)
    moreover from this(3) have "creator_ok (h', cr') R"
      using assms(1) s refill_new [of h cr R] by (auto split: if_splits)
    ultimately show ?thesis using carve_ok by blast
  qed
qed

lemma creator_Item_ok:
  assumes "creator_ok s R" "creator_Item_create chunk s = Some (sl, s')"
  shows "creator_ok s' (sl # R) \<and> (\<forall>r \<in> set R. region r \<inter> region sl = {})"
proof -
  obtain h cr where s: "s = (h, cr)" by fastforce
  obtain h' cr' where c: "(h', cr') = (if cr_idx cr \<ge> cr_len cr then (h + 1, refill h chunk) else (h, cr))"
    by (metis surj_pair)
  then have "creator_ok (h', cr') R" using assms(1) s refill_new [of h cr R] by (auto split: if_splits)
  moreover have "\<exists>cr''. carve cr' 1 1 = Some (sl, cr'') \<and> s' = (h', cr'')"
    using assms(2) s c by (auto simp: creator_Item_create_def carve_def split: if_splits)
  ultimately show ?thesis using carve_ok by blast
qed

interpretation byteslice: allocator "(0, Creator_zero)"
    "creates {ByteSliceCreator_Create slen scap chunk | slen scap chunk. True}" creator_ok
  by unfold_locales (use creator_ok_zero Create_ok in \<open>auto simp: creates_def, blast+\<close>)

interpretation itemcreator: allocator "(0, Creator_zero)" "creates {creator_Item_create chunk | chunk. True}" creator_ok
  by unfold_locales (use creator_ok_zero creator_Item_ok in \<open>auto simp: creates_def, blast+\<close>)

section \<open>The creator with a mutex is an allocator\<close>

text \<open>The arrays of waiting calls are made, unused, and belong to one call each.\<close>

definition waiting_ok :: "nat \<Rightarrow> Creator \<Rightarrow> Slice list \<Rightarrow> nat \<Rightarrow> bool" where
  "waiting_ok h cr R a \<longleftrightarrow> a < h \<and> (cr_len cr > 0 \<longrightarrow> a \<noteq> cr_buf cr) \<and> (\<forall>r \<in> set R. s_cap r > 0 \<longrightarrow> s_arr r \<noteq> a)"

definition sync_ok :: "SyncCreator \<Rightarrow> Slice list \<Rightarrow> bool" where
  "sync_ok s R \<longleftrightarrow> creator_ok (sy_next s, sy_cr s) R \<and> distinct (map (snd \<circ> snd \<circ> snd) (sy_wait s)) \<and>
     (\<forall>w \<in> set (sy_wait s). waiting_ok (sy_next s) (sy_cr s) R (snd (snd (snd w))))"

definition SyncCreator_zero :: SyncCreator where
  "SyncCreator_zero = \<lparr>sy_next = 0, sy_cr = Creator_zero, sy_wait = []\<rparr>"

text \<open>A slice carved now lies in the current array or in an array just made.\<close>

lemma carve_arr: "carve cr slen scap = Some (sl, cr') \<Longrightarrow> s_arr sl = cr_buf cr \<and> cr_buf cr' = cr_buf cr \<and>
    cr_len cr' = cr_len cr \<and> (s_cap sl > 0 \<longrightarrow> cr_len cr > 0)"
  by (auto simp: carve_def split: if_splits)

lemma waiting_mono: "waiting_ok h cr R a \<Longrightarrow> h \<le> h' \<Longrightarrow> waiting_ok h' cr R a"
  by (simp add: waiting_ok_def)

lemma sync_none_ok:
  assumes "sync_ok s R" "sync_step s None s'"
  shows "sync_ok s' R"
  using assms(2)
proof (cases rule: sync_step.cases)
  case (sync_unlock scap chunk slen)
  have "creator_ok (sy_next s + 1, sy_cr s) R" "waiting_ok (sy_next s + 1) (sy_cr s) R (sy_next s)"
    using assms(1) by (auto simp: sync_ok_def creator_ok_def waiting_ok_def)
  moreover have "sy_next s \<notin> (snd \<circ> snd \<circ> snd) ` set (sy_wait s)"
    using assms(1) by (fastforce simp: sync_ok_def waiting_ok_def)
  ultimately show ?thesis using assms(1) sync_unlock(1) waiting_mono [of "sy_next s" _ _ _ "sy_next s + 1"]
    by (simp add: sync_ok_def)
qed

lemma sync_some_ok:
  assumes ok: "sync_ok s R" and st: "sync_step s (Some sl) s'"
  shows "sync_ok s' (sl # R) \<and> (\<forall>r \<in> set R. region r \<inter> region sl = {})"
proof -
  have cok: "creator_ok (sy_next s, sy_cr s) R" using ok by (simp add: sync_ok_def)
  from st show ?thesis
  proof (cases rule: sync_step.cases)
    case (sync_big chunk scap slen h)
    have h: "s_arr sl = sy_next s" "h = sy_next s + 1" using sync_big(3) by (auto simp: go_make_def split: if_splits)
    have "waiting_ok h (sy_cr s) (sl # R) a" if "waiting_ok (sy_next s) (sy_cr s) R a" for a
      using that h by (auto simp: waiting_ok_def)
    then show ?thesis using go_make_ok [OF cok sync_big(3)] ok sync_big(1) by (simp add: sync_ok_def)
  next
    case (sync_fits scap chunk slen cr)
    have "waiting_ok (sy_next s) cr (sl # R) a" if "waiting_ok (sy_next s) (sy_cr s) R a" for a
      using that carve_arr [OF sync_fits(3)] by (auto simp: waiting_ok_def)
    then show ?thesis using carve_ok [OF cok sync_fits(3)] ok sync_fits(1) by (simp add: sync_ok_def)
  next
    case (sync_relock ws slen scap chunk newBuf ws' cr)
    let ?cr = "if cr_idx (sy_cr s) + scap > cr_len (sy_cr s) then refill newBuf chunk else sy_cr s"
    have w: "waiting_ok (sy_next s) (sy_cr s) R newBuf" using ok sync_relock(2) by (simp add: sync_ok_def)
    have "creator_ok (sy_next s, ?cr) R"
      using cok refill_ok [OF cok order_refl, of newBuf chunk] w by (simp add: waiting_ok_def)
    note new = carve_ok [OF this sync_relock(3)]
    have "waiting_ok (sy_next s) cr (sl # R) a" if "waiting_ok (sy_next s) (sy_cr s) R a" "a \<noteq> newBuf" for a
      using that carve_arr [OF sync_relock(3)] by (auto simp: waiting_ok_def refill_def split: if_splits)
    moreover have "snd (snd (snd w)) \<noteq> newBuf" if "w \<in> set (ws @ ws')" for w
      using that ok sync_relock(2) by (force simp: sync_ok_def)
    ultimately have "\<forall>w \<in> set (ws @ ws'). waiting_ok (sy_next s) cr (sl # R) (snd (snd (snd w)))"
      using ok sync_relock(2) by (simp add: sync_ok_def)
    then show ?thesis using new ok sync_relock(1,2) by (simp add: sync_ok_def)
  qed
qed

interpretation syncslice: allocator SyncCreator_zero sync_step sync_ok
proof unfold_locales
  show "sync_ok SyncCreator_zero []" using creator_ok_zero by (simp add: sync_ok_def SyncCreator_zero_def)
qed (fact sync_none_ok sync_some_ok)+

section \<open>Properties\<close>

text \<open>The runs of the allocator with a mutex, with the slices handed out so far.\<close>

inductive sync_run :: "SyncCreator \<Rightarrow> Slice list \<Rightarrow> bool" where
  sync_run_start: "sync_run SyncCreator_zero []"
| sync_run_none: "sync_run s R \<Longrightarrow> sync_step s None s' \<Longrightarrow> sync_run s' R"
| sync_run_some: "sync_run s R \<Longrightarrow> sync_step s (Some sl) s' \<Longrightarrow> sync_run s' (sl # R)"

lemma sync_run_allocated: "sync_run s R \<Longrightarrow> syncslice.allocated s R"
  by (induction rule: sync_run.induct) (auto intro: syncslice.allocated.intros)

text \<open>C21: However calls of the mutex-protected byte allocator interleave, with its lock released while
  a new array is made, no two slices it hands out share a cell up to their capacities.\<close>

theorem sync_creator_disjoint:
  assumes "sync_run s R" "i < length R" "j < length R" "i \<noteq> j"
  shows "region (R ! i) \<inter> region (R ! j) = {}"
  using syncslice.no_sharing [OF sync_run_allocated [OF assms(1)]] assms(2-4) by blast

lemma demo_sync_run:
  "sync_run \<lparr>sy_next = 1, sy_cr = \<lparr>cr_buf = 0, cr_len = 8, cr_idx = 6\<rparr>, sy_wait = []\<rparr>
     [\<lparr>s_arr = 0, s_off = 4, s_len = 1, s_cap = 2\<rparr>, \<lparr>s_arr = 0, s_off = 0, s_len = 3, s_cap = 4\<rparr>]"
proof -
  let ?s1 = "\<lparr>sy_next = 1, sy_cr = Creator_zero, sy_wait = [(3, 4, 8, 0)]\<rparr>"
  let ?s2 = "\<lparr>sy_next = 1, sy_cr = \<lparr>cr_buf = 0, cr_len = 8, cr_idx = 4\<rparr>, sy_wait = []\<rparr>"
  have "sync_step SyncCreator_zero None ?s1"
    using sync_unlock [of 4 8 SyncCreator_zero 3] by (simp add: SyncCreator_zero_def Creator_zero_def)
  then have "sync_run ?s1 []" by (rule sync_run_none [OF sync_run_start])
  moreover have "sync_step ?s1 (Some \<lparr>s_arr = 0, s_off = 0, s_len = 3, s_cap = 4\<rparr>) ?s2"
    using sync_relock [of ?s1 "[]" 3 4 8 0 "[]"] by (simp add: Creator_zero_def carve_def refill_def)
  ultimately have "sync_run ?s2 [\<lparr>s_arr = 0, s_off = 0, s_len = 3, s_cap = 4\<rparr>]" by (rule sync_run_some)
  moreover have "sync_step ?s2 (Some \<lparr>s_arr = 0, s_off = 4, s_len = 1, s_cap = 2\<rparr>)
      \<lparr>sy_next = 1, sy_cr = \<lparr>cr_buf = 0, cr_len = 8, cr_idx = 6\<rparr>, sy_wait = []\<rparr>"
    using sync_fits [of 2 8 ?s2 1] by (simp add: carve_def)
  ultimately show ?thesis by (rule sync_run_some)
qed

theorem sync_creator_disjoint_witness:
  "region \<lparr>s_arr = 0, s_off = 4, s_len = 1, s_cap = 2\<rparr> \<inter> region \<lparr>s_arr = 0, s_off = 0, s_len = 3, s_cap = 4\<rparr> = {}"
  using sync_creator_disjoint [OF demo_sync_run, of 0 1] by simp

end
