(* ===== verification/Timer.thy ===== *)
theory Timer
  imports Memory "HOL-Library.Multiset"
begin

text \<open>
  The timer controller of \<open>xcontainer/timer/timer.go\<close>: a priority queue of items kept by
  \<open>container/heap\<close>, whose items remember their position. Items are objects: the queue is a list of
  addresses, \<open>items\<close> holds the fields. Times and durations are integers. \<open>None\<close> is a panic, except in
  \<open>Tick\<close>, whose loop calls user code and may go on forever. The functions of \<open>container/heap\<close>
  (Go's standard library) are written out over the queue's own \<open>Swap\<close>, \<open>Less\<close>, \<open>Push\<close> and \<open>Pop\<close>.
\<close>

text \<open>A cell of an array.\<close>

datatype addr = Cell nat nat

record 'v Item =
  index :: int
  dual :: int
  since :: int
  tv :: 'v

record 'v Controller =
  tq :: "addr list"
  tnow :: int
  items :: "addr \<Rightarrow> 'v Item"
  tcreator :: "nat \<times> Creator"

section \<open>The queue\<close>

definition deadline :: "'v Controller \<Rightarrow> addr \<Rightarrow> int" where
  "deadline c a = since (items c a) + dual (items c a)"

definition pq_Less :: "'v Controller \<Rightarrow> nat \<Rightarrow> nat \<Rightarrow> bool" where
  "pq_Less c i j \<longleftrightarrow> deadline c (tq c ! i) < deadline c (tq c ! j)"

definition set_index :: "'v Controller \<Rightarrow> addr \<Rightarrow> int \<Rightarrow> 'v Controller" where
  "set_index c a i = c\<lparr>items := (items c)(a := (items c a)\<lparr>index := i\<rparr>)\<rparr>"

definition pq_Swap :: "'v Controller \<Rightarrow> nat \<Rightarrow> nat \<Rightarrow> 'v Controller" where
  "pq_Swap c i j =
     (let q = tq c; c = c\<lparr>tq := q[i := q ! j, j := q ! i]\<rparr>;
          c = set_index c (tq c ! i) (int i) in
      set_index c (tq c ! j) (int j))"

definition pq_Push :: "'v Controller \<Rightarrow> addr \<Rightarrow> 'v Controller" where
  "pq_Push c a = (let n = length (tq c); c = set_index c a (int n) in c\<lparr>tq := tq c @ [a]\<rparr>)"

definition pq_Pop :: "'v Controller \<Rightarrow> (addr \<times> 'v Controller) option" where
  "pq_Pop c = (if tq c = [] then None
     else let n = length (tq c); a = tq c ! (n - 1); c = set_index c a (-1) in Some (a, c\<lparr>tq := take (n - 1) (tq c)\<rparr>))"

section \<open>\<open>container/heap\<close>\<close>

function heap_up :: "'v Controller \<Rightarrow> nat \<Rightarrow> 'v Controller" where
  "heap_up c j =
     (let i = (j - 1) div 2 in
      if i = j \<or> \<not> pq_Less c j i then c else heap_up (pq_Swap c i j) i)"
  by auto
termination by (relation "measure snd") auto

function heap_down :: "'v Controller \<Rightarrow> nat \<Rightarrow> nat \<Rightarrow> bool \<times> 'v Controller" where
  "heap_down c i n =
     (let j1 = 2 * i + 1 in
      if j1 \<ge> n then (False, c)
      else let j2 = j1 + 1; j = (if j2 < n \<and> pq_Less c j2 j1 then j2 else j1) in
        if \<not> pq_Less c j i then (False, c)
        else (True, snd (heap_down (pq_Swap c i j) j n)))"
  by auto
termination by (relation "measure (\<lambda>(c, i, n). n - i)") (auto split: if_splits)

declare heap_up.simps [simp del] heap_down.simps [simp del]

definition heap_Push :: "'v Controller \<Rightarrow> addr \<Rightarrow> 'v Controller" where
  "heap_Push c a = (let c = pq_Push c a in heap_up c (length (tq c) - 1))"

definition heap_Pop :: "'v Controller \<Rightarrow> (addr \<times> 'v Controller) option" where
  "heap_Pop c = (if tq c = [] then None
     else let n = length (tq c) - 1; c = pq_Swap c 0 n; c = snd (heap_down c 0 n) in pq_Pop c)"

definition heap_Remove :: "'v Controller \<Rightarrow> nat \<Rightarrow> (addr \<times> 'v Controller) option" where
  "heap_Remove c i =
     (if i \<ge> length (tq c) then None
      else let n = length (tq c) - 1;
               c = (if n \<noteq> i
                    then let c = pq_Swap c i n; (moved, c') = heap_down c i n in if \<not> moved then heap_up c' i else c'
                    else c)
           in pq_Pop c)"

definition heap_Fix :: "'v Controller \<Rightarrow> nat \<Rightarrow> 'v Controller option" where
  "heap_Fix c i =
     (if i \<ge> length (tq c) then if i = 0 then Some c else None
      else let (moved, c') = heap_down c i (length (tq c)) in Some (if \<not> moved then heap_up c' i else c'))"

section \<open>The controller\<close>

definition Timer_New :: "int \<Rightarrow> nat \<times> Creator \<Rightarrow> 'v \<Rightarrow> 'v Controller" where
  "Timer_New now cr v = \<lparr>tq = [], tnow = now, items = (\<lambda>_. \<lparr>index = 0, dual = 0, since = 0, tv = v\<rparr>), tcreator = cr\<rparr>"

text \<open>\<open>New_Item\<close>: the address of the next cell of a chunk of 256.\<close>

definition New_Item :: "'v Controller \<Rightarrow> (addr \<times> 'v Controller) option" where
  "New_Item c = do {
     (s, cr) \<leftarrow> creator_Item_create 256 (tcreator c);
     Some (Cell (s_arr s) (s_off s), c\<lparr>tcreator := cr\<rparr>) }"

definition Timer_Add :: "'v Controller \<Rightarrow> int \<Rightarrow> 'v \<Rightarrow> (addr \<times> 'v Controller) option" where
  "Timer_Add c d v = do {
     (a, c) \<leftarrow> New_Item c;
     let c = c\<lparr>items := (items c)(a := (items c a)\<lparr>dual := d, since := tnow c, tv := v\<rparr>)\<rparr> in
     Some (a, heap_Push c a) }"

definition Timer_AddItem :: "'v Controller \<Rightarrow> addr \<Rightarrow> 'v Controller" where
  "Timer_AddItem c a = heap_Push (c\<lparr>items := (items c)(a := (items c a)\<lparr>since := tnow c\<rparr>)\<rparr>) a"

text \<open>\<open>heap.Remove\<close> returns the item, which is not a \<open>Timeout\<close>: the type assertion fails and the
  result is always nil.\<close>

definition Timer_Remove :: "'v Controller \<Rightarrow> addr \<Rightarrow> ('v option \<times> 'v Controller) option" where
  "Timer_Remove c a =
     (if index (items c a) \<noteq> -1
      then do { (b, c') \<leftarrow> heap_Remove c (nat (index (items c a))); Some (None, c') }
      else Some (None, c))"

definition Timer_Update :: "'v Controller \<Rightarrow> addr \<Rightarrow> int \<Rightarrow> 'v Controller option" where
  "Timer_Update c a d =
     (if index (items c a) \<noteq> -1
      then heap_Fix (c\<lparr>items := (items c)(a := (items c a)\<lparr>dual := d, since := tnow c\<rparr>)\<rparr>) (nat (index (items c a)))
      else Some c)"

definition Timer_Next :: "'v Controller \<Rightarrow> addr \<Rightarrow> 'v Controller" where
  "Timer_Next c a =
     (if index (items c a) = -1
      then heap_Push (c\<lparr>items := (items c)(a := (items c a)\<lparr>since := since (items c a) + dual (items c a)\<rparr>)\<rparr>) a
      else c)"

definition Timer_RemainTime :: "'v Controller \<Rightarrow> addr \<Rightarrow> int" where
  "Timer_RemainTime c a = deadline c a - tnow c"

definition Timer_Count :: "'v Controller \<Rightarrow> nat" where
  "Timer_Count c = length (tq c)"



section \<open>The heap order\<close>

text \<open>Every position knows itself, no item is in the queue twice, and no parent is due after its child.\<close>

definition par :: "nat \<Rightarrow> nat" where "par j = (j - 1) div 2"

definition indexed :: "'v Controller \<Rightarrow> bool" where
  "indexed c \<longleftrightarrow> distinct (tq c) \<and> (\<forall>i < length (tq c). index (items c (tq c ! i)) = int i)"

definition key :: "'v Controller \<Rightarrow> nat \<Rightarrow> int" where
  "key c i = deadline c (tq c ! i)"

definition heap_below :: "'v Controller \<Rightarrow> nat \<Rightarrow> bool" where
  "heap_below c n \<longleftrightarrow> (\<forall>j < n. 0 < j \<longrightarrow> key c (par j) \<le> key c j)"

text \<open>The order with a hole at \<open>i\<close>: all pairs that do not touch \<open>i\<close>, and the parent of \<open>i\<close> with the
  children of \<open>i\<close>.\<close>

definition hole :: "'v Controller \<Rightarrow> nat \<Rightarrow> nat \<Rightarrow> bool" where
  "hole c n i \<longleftrightarrow> (\<forall>j < n. 0 < j \<and> j \<noteq> i \<and> par j \<noteq> i \<longrightarrow> key c (par j) \<le> key c j) \<and>
     (\<forall>j < n. 0 < j \<and> par j = i \<and> 0 < i \<longrightarrow> key c (par i) \<le> key c j)"

lemma holeD:
  assumes "hole c n i"
  shows "j < n \<Longrightarrow> 0 < j \<Longrightarrow> j \<noteq> i \<Longrightarrow> par j \<noteq> i \<Longrightarrow> key c (par j) \<le> key c j"
    "j < n \<Longrightarrow> 0 < j \<Longrightarrow> par j = i \<Longrightarrow> 0 < i \<Longrightarrow> key c (par i) \<le> key c j"
  using assms by (auto simp: hole_def)

definition timer_inv :: "'v Controller \<Rightarrow> bool" where
  "timer_inv c \<longleftrightarrow> indexed c \<and> heap_below c (length (tq c))"

lemma par_less: "0 < j \<Longrightarrow> par j < j"
  by (simp add: par_def)

lemma par_neq: "0 < k \<Longrightarrow> k < Suc n \<Longrightarrow> par k \<noteq> n"
  using par_less [of k] by linarith

lemma par_child: "par (2 * i + 1) = i" "par (2 * i + 2) = i"
  by (simp_all add: par_def)

lemma child_cases: "0 < j \<Longrightarrow> par j = i \<Longrightarrow> j = 2 * i + 1 \<or> j = 2 * i + 2"
  by (auto simp: par_def)

text \<open>What a swap does.\<close>

lemma deadline_set_index [simp]: "deadline (set_index c a i) b = deadline c b"
  by (simp add: deadline_def set_index_def)

lemma set_index_sel [simp]: "tq (set_index c a i) = tq c" "tnow (set_index c a i) = tnow c"
  "tcreator (set_index c a i) = tcreator c"
  by (simp_all add: set_index_def)

lemma deadline_tq [simp]: "deadline (c\<lparr>tq := q\<rparr>) = deadline c"
  by (simp add: deadline_def fun_eq_iff)

lemma Swap_sel [simp]:
  "tq (pq_Swap c i j) = (tq c)[i := tq c ! j, j := tq c ! i]" "deadline (pq_Swap c i j) a = deadline c a"
  "tnow (pq_Swap c i j) = tnow c" "tcreator (pq_Swap c i j) = tcreator c"
  by (simp_all add: pq_Swap_def Let_def)

lemma Swap_key:
  assumes "i < length (tq c)" "j < length (tq c)"
  shows "key (pq_Swap c i j) k = key c (if k = i then j else if k = j then i else k)"
  using assms by (auto simp: key_def nth_list_update)

text \<open>Sifting only reorders the queue: the items keep their fields but the positions of those in the
  queue, and they keep knowing their positions.\<close>

definition sifted :: "'v Controller \<Rightarrow> 'v Controller \<Rightarrow> bool" where
  "sifted c c' \<longleftrightarrow> mset (tq c') = mset (tq c) \<and> tnow c' = tnow c \<and> tcreator c' = tcreator c \<and>
     (\<forall>a. \<exists>k. items c' a = (items c a)\<lparr>index := k\<rparr>) \<and> (\<forall>a. a \<notin> set (tq c) \<longrightarrow> items c' a = items c a) \<and>
     (indexed c \<longrightarrow> indexed c')"

lemma same_item: "\<exists>k. it = it\<lparr>index := k\<rparr>"
  by (cases it) simp

lemma sifted_refl [simp]: "sifted c c"
  unfolding sifted_def using same_item by blast

lemma sifted_trans: "sifted c c' \<Longrightarrow> sifted c' c'' \<Longrightarrow> sifted c c''"
  unfolding sifted_def by (metis (no_types, lifting) Item.fold_congs(1) Item.update_convs(1) Item.surjective set_mset_mset)

lemma sifted_sel:
  assumes "sifted c c'"
  shows "length (tq c') = length (tq c)" "set (tq c') = set (tq c)" "tnow c' = tnow c" "tcreator c' = tcreator c"
    "deadline c' a = deadline c a" "tv (items c' a) = tv (items c a)"
    "since (items c' a) = since (items c a)" "dual (items c' a) = dual (items c a)"
    "a \<notin> set (tq c) \<Longrightarrow> items c' a = items c a"
proof -
  obtain k where k: "items c' a = (items c a)\<lparr>index := k\<rparr>" using assms unfolding sifted_def by blast
  then show "deadline c' a = deadline c a" "tv (items c' a) = tv (items c a)"
    "since (items c' a) = since (items c a)" "dual (items c' a) = dual (items c a)"
    by (simp_all add: deadline_def)
  have "mset (tq c') = mset (tq c)" using assms by (simp add: sifted_def)
  then show "length (tq c') = length (tq c)" "set (tq c') = set (tq c)" by (metis size_mset, metis set_mset_mset)
  show "tnow c' = tnow c" "tcreator c' = tcreator c" using assms by (simp_all add: sifted_def)
  show "a \<notin> set (tq c) \<Longrightarrow> items c' a = items c a" using assms unfolding sifted_def by blast
qed

lemma Swap_sifted:
  assumes "i < length (tq c)" "j < length (tq c)"
  shows "sifted c (pq_Swap c i j)"
proof -
  define q where "q = (tq c)[i := tq c ! j, j := tq c ! i]"
  have q: "mset q = mset (tq c)" "length q = length (tq c)" "tq (pq_Swap c i j) = q"
    using assms by (simp_all add: q_def mset_swap)
  then have "set q = set (tq c)" by (metis set_mset_mset)
  then have mem: "q ! i \<in> set (tq c)" "q ! j \<in> set (tq c)" using assms q(2) by (metis nth_mem)+
  have it: "items (pq_Swap c i j) = (items c)(q ! i := (items c (q ! i))\<lparr>index := int i\<rparr>,
      q ! j := ((items c)(q ! i := (items c (q ! i))\<lparr>index := int i\<rparr>)) (q ! j)\<lparr>index := int j\<rparr>)"
    by (simp add: pq_Swap_def set_index_def Let_def q_def)
  have "\<exists>k. items (pq_Swap c i j) a = (items c a)\<lparr>index := k\<rparr>" for a
    using same_item [of "items c a"] by (auto simp: it)
  moreover have "items (pq_Swap c i j) a = items c a" if "a \<notin> set (tq c)" for a
    using that mem by (auto simp: it)
  moreover have "indexed (pq_Swap c i j)" if ok: "indexed c"
  proof -
    have d: "distinct q" using ok q(1) mset_eq_imp_distinct_iff by (auto simp: indexed_def)
    note eq = nth_eq_iff_index_eq [OF d]
    have "index (items (pq_Swap c i j) (q ! k)) = int k" if k: "k < length q" for k
    proof (cases "k = i \<or> k = j")
      case True
      then show ?thesis using assms k q(2) eq [of i j] by (auto simp: it)
    next
      case False
      then have "q ! k \<noteq> q ! i" "q ! k \<noteq> q ! j" using eq k assms q(2) by auto
      moreover have "q ! k = tq c ! k" using False by (simp add: q_def)
      ultimately show ?thesis using ok k q(2) by (simp add: it indexed_def)
    qed
    then show ?thesis using d q(3) by (simp add: indexed_def)
  qed
  ultimately show ?thesis using q(1,3) by (simp add: sifted_def)
qed

section \<open>Sifting restores the order\<close>

lemma up_spec:
  assumes "j < n" "n \<le> length (tq c)" "hole c n j" "\<forall>k < n. 0 < k \<and> par k = j \<longrightarrow> key c j \<le> key c k"
  shows "sifted c (heap_up c j) \<and> heap_below (heap_up c j) n \<and> (\<forall>k. n \<le> k \<longrightarrow> tq (heap_up c j) ! k = tq c ! k)"
  using assms
proof (induction c j rule: heap_up.induct)
  case (1 c j)
  define i where "i = (j - 1) div 2"
  have up: "heap_up c j = (if i = j \<or> \<not> pq_Less c j i then c else heap_up (pq_Swap c i j) i)"
    by (simp add: heap_up.simps [of c j] Let_def i_def)
  have pi: "par j = i" by (simp add: par_def i_def)
  show ?case
  proof (cases "i = j \<or> \<not> pq_Less c j i")
    case True
    then have "j = 0 \<or> key c (par j) \<le> key c j" using pi by (auto simp: pq_Less_def key_def i_def)
    then have "key c (par m) \<le> key c m" if "m < n" "0 < m" for m
      using "1.prems"(4) holeD(1) [OF "1.prems"(3) that] that by (cases "m = j"; cases "par m = j") auto
    then have "heap_below c n" by (simp add: heap_below_def)
    then show ?thesis using up True by simp
  next
    case False
    then have lt: "key c j < key c i" "0 < j" by (auto simp: pq_Less_def key_def i_def)
    let ?c = "pq_Swap c i j"
    have ij: "i < length (tq c)" "j < length (tq c)" "i < n" "i < j" using "1.prems" lt(2) by (auto simp: i_def)
    note k = Swap_key [OF ij(1,2)]
    have H: "hole c n j" "\<forall>k < n. 0 < k \<and> par k = j \<longrightarrow> key c j \<le> key c k" by fact+
    have kid: "key c i \<le> key c m" if "m < n" "0 < m" "par m = j" for m
      using holeD(2) [OF H(1)] that lt(2) pi by simp
    have sib: "key c i \<le> key c m" if "m < n" "0 < m" "par m = i" "m \<noteq> j" for m
      using holeD(1) [OF H(1), of m] that ij(4) by simp
    have old: "key c (par m) \<le> key c m" if "m < n" "0 < m" "m \<noteq> j" "par m \<noteq> j" for m
      using holeD(1) [OF H(1)] that by blast
    have "hole ?c n i"
      unfolding hole_def
    proof (intro conjI allI impI)
      fix m assume m: "m < n" "0 < m \<and> m \<noteq> i \<and> par m \<noteq> i"
      then have "m \<noteq> j" using pi by metis
      then show "key ?c (par m) \<le> key ?c m" using m kid old by (auto simp: k)
    next
      fix m assume m: "m < n" "0 < m \<and> par m = i \<and> 0 < i"
      have p: "par i < i" using m par_less by blast
      have "key c (par i) \<le> key c i" using old [of i] m ij p lt(2) by (metis less_irrefl less_trans)
      moreover have "key c (par i) \<le> key c m" if "m \<noteq> j" using calculation sib m that by fastforce
      ultimately show "key ?c (par i) \<le> key ?c m" using m p ij by (auto simp: k)
    qed
    moreover have "\<forall>m < n. 0 < m \<and> par m = i \<longrightarrow> key ?c i \<le> key ?c m"
      using sib lt ij(4) by (auto simp: k) (metis less_le_trans less_imp_le par_less less_irrefl)
    ultimately have "sifted ?c (heap_up ?c i) \<and> heap_below (heap_up ?c i) n \<and> (\<forall>k. n \<le> k \<longrightarrow> tq (heap_up ?c i) ! k = tq ?c ! k)"
      using "1.IH" [OF i_def] False "1.prems"(2) ij(3) by simp
    moreover have "tq ?c ! m = tq c ! m" if "n \<le> m" for m using that ij(3) "1.prems"(1) by simp
    ultimately show ?thesis using up False sifted_trans [OF Swap_sifted [OF ij(1,2)]] by simp
  qed
qed

text \<open>Sifting down: once the hole is not below its parent any more, the order is whole; when nothing
  moved, the children of the hole are in order.\<close>

lemma down_spec:
  assumes "i < n" "n \<le> length (tq c)" "hole c n i" "heap_down c i n = (moved, c')"
  shows "sifted c c' \<and> (\<not> moved \<longrightarrow> c' = c \<and> (\<forall>k < n. 0 < k \<and> par k = i \<longrightarrow> key c i \<le> key c k)) \<and>
    (moved \<or> i = 0 \<or> key c (par i) \<le> key c i \<longrightarrow> heap_below c' n) \<and> (\<forall>k. n \<le> k \<longrightarrow> tq c' ! k = tq c ! k)"
  using assms
proof (induction c i n arbitrary: moved c' rule: heap_down.induct)
  case (1 c i n)
  let ?j1 = "2 * i + 1"
  define j where "j = (if ?j1 + 1 < n \<and> pq_Less c (?j1 + 1) ?j1 then ?j1 + 1 else ?j1)"
  have dn: "heap_down c i n = (if ?j1 \<ge> n \<or> \<not> pq_Less c j i then (False, c) else (True, snd (heap_down (pq_Swap c i j) j n)))"
    by (simp add: heap_down.simps [of c i n] Let_def j_def)
  note H = holeD [OF "1.prems"(3)]
  have least: "key c j \<le> key c m" if "m < n" "0 < m" "par m = i" for m
    using child_cases [OF that(2,3)] that(1) by (auto simp: j_def pq_Less_def key_def)
  show ?case
  proof (cases "?j1 \<ge> n \<or> \<not> pq_Less c j i")
    case True
    then have r: "\<not> moved" "c' = c" using dn "1.prems"(4) by auto
    have kids: "key c i \<le> key c m" if "m < n" "0 < m" "par m = i" for m
    proof -
      have "?j1 < n" using child_cases [OF that(2,3)] that(1) by auto
      then show ?thesis using True least [OF that] by (auto simp: pq_Less_def key_def)
    qed
    have "key c (par m) \<le> key c m" if "m < n" "0 < m" "i = 0 \<or> key c (par i) \<le> key c i" for m
      using that kids [OF that(1,2)] H(1) [OF that(1,2)] by (cases "m = i"; cases "par m = i") auto
    then show ?thesis using r kids by (simp add: heap_below_def)
  next
    case False
    let ?c = "pq_Swap c i j"
    have lt: "key c j < key c i" using False by (simp add: pq_Less_def key_def)
    have j: "j < n" "0 < j" "par j = i" "i < j" "j \<noteq> i" using False by (auto simp: j_def par_child par_child [simplified])
    have len: "i < length (tq c)" "j < length (tq c)" using j(1,4) "1.prems"(2) by auto
    note k = Swap_key [OF len]
    have r: "moved" "c' = snd (heap_down ?c j n)" using dn False "1.prems"(4) by auto
    have hl: "hole ?c n j"
      unfolding hole_def
    proof (intro conjI allI impI)
      fix m assume m: "m < n" "0 < m \<and> m \<noteq> j \<and> par m \<noteq> j"
      show "key ?c (par m) \<le> key ?c m"
      proof (cases "par m = i")
        case True
        then have "m \<noteq> i" using m par_less by (metis less_irrefl)
        then show ?thesis using True m least [of m] by (simp add: k)
      next
        case False
        then show ?thesis using m H(1) [of m] H(2) [of j] j by (auto simp: k)
      qed
    next
      fix m assume m: "m < n" "0 < m \<and> par m = j \<and> 0 < j"
      then have "m \<noteq> i" "m \<noteq> j" using j(4) par_less [of m] by auto
      then show "key ?c (par j) \<le> key ?c m" using m H(1) [of m] j by (auto simp: k)
    qed
    obtain mv c2 where d2: "heap_down ?c j n = (mv, c2)" by fastforce
    have IH: "sifted ?c c2 \<and> (mv \<or> j = 0 \<or> key ?c (par j) \<le> key ?c j \<longrightarrow> heap_below c2 n) \<and>
        (\<forall>k. n \<le> k \<longrightarrow> tq c2 ! k = tq ?c ! k)"
      using "1.IH" [OF refl _ refl refl, of mv c2] False d2 hl j(1) "1.prems"(2) by (auto simp: j_def)
    moreover have "key ?c (par j) \<le> key ?c j" using lt j by (simp add: k)
    moreover have "tq ?c ! m = tq c ! m" if "n \<le> m" for m using that j(1,4) by simp
    ultimately show ?thesis using r d2 sifted_trans [OF Swap_sifted [OF len]] by auto
  qed
qed

text \<open>Down, and up if nothing moved: what \<open>heap.Fix\<close> and \<open>heap.Remove\<close> do.\<close>

definition sift :: "'v Controller \<Rightarrow> nat \<Rightarrow> nat \<Rightarrow> 'v Controller" where
  "sift c i n = (let (moved, c') = heap_down c i n in if \<not> moved then heap_up c' i else c')"

lemma sift_spec:
  assumes "i < n" "n \<le> length (tq c)" "hole c n i"
  shows "sifted c (sift c i n) \<and> heap_below (sift c i n) n \<and> (\<forall>k. n \<le> k \<longrightarrow> tq (sift c i n) ! k = tq c ! k)"
proof -
  obtain moved c' where d: "heap_down c i n = (moved, c')" by fastforce
  note s = down_spec [OF assms d]
  show ?thesis
  proof (cases moved)
    case True
    then show ?thesis using s d by (simp add: sift_def)
  next
    case False
    then have "c' = c" "\<forall>k < n. 0 < k \<and> par k = i \<longrightarrow> key c i \<le> key c k" using s by auto
    then show ?thesis using up_spec [OF assms] d False by (simp add: sift_def)
  qed
qed

section \<open>The heap operations\<close>

text \<open>What all of them keep: the clock, the allocator and every field of an item but its position.\<close>

definition kept :: "'v Controller \<Rightarrow> 'v Controller \<Rightarrow> bool" where
  "kept c c' \<longleftrightarrow> tnow c' = tnow c \<and> tcreator c' = tcreator c \<and> (\<forall>a. \<exists>k. items c' a = (items c a)\<lparr>index := k\<rparr>)"

lemma kept_sel:
  assumes "kept c c'"
  shows "tnow c' = tnow c" "tcreator c' = tcreator c" "deadline c' a = deadline c a" "tv (items c' a) = tv (items c a)"
    "since (items c' a) = since (items c a)" "dual (items c' a) = dual (items c a)"
proof -
  obtain k where k: "items c' a = (items c a)\<lparr>index := k\<rparr>" using assms unfolding kept_def by blast
  then show "deadline c' a = deadline c a" "tv (items c' a) = tv (items c a)"
    "since (items c' a) = since (items c a)" "dual (items c' a) = dual (items c a)"
    by (simp_all add: deadline_def)
qed (use assms in \<open>simp_all add: kept_def\<close>)

lemma kept_trans:
  assumes "kept c c'" "kept c' c''"
  shows "kept c c''"
proof -
  have "\<exists>k. items c'' a = (items c a)\<lparr>index := k\<rparr>" for a
  proof -
    obtain k k' where "items c' a = (items c a)\<lparr>index := k\<rparr>" "items c'' a = (items c' a)\<lparr>index := k'\<rparr>"
      using assms unfolding kept_def by meson
    then show ?thesis by auto
  qed
  then show ?thesis using assms by (simp add: kept_def)
qed

lemma sifted_kept: "sifted c c' \<Longrightarrow> kept c c'"
  by (simp add: sifted_def kept_def)

lemma kept_set_index: "kept c ((set_index c a k)\<lparr>tq := q\<rparr>)"
  unfolding kept_def set_index_def using same_item by simp blast

text \<open>The root is due first.\<close>

lemma root_least: "heap_below c n \<Longrightarrow> j < n \<Longrightarrow> key c 0 \<le> key c j"
proof (induction j rule: less_induct)
  case (less j)
  show ?case
  proof (cases "j = 0")
    case False
    then have p: "par j < j" by (simp add: par_less)
    then have "key c 0 \<le> key c (par j)" using less.IH [OF p] less.prems by simp
    also have "\<dots> \<le> key c j" using less.prems False by (simp add: heap_below_def)
    finally show ?thesis .
  qed simp
qed

lemma Push_spec:
  assumes inv: "timer_inv c" and a: "a \<notin> set (tq c)"
  shows "timer_inv (heap_Push c a) \<and> set (tq (heap_Push c a)) = insert a (set (tq c)) \<and>
    length (tq (heap_Push c a)) = Suc (length (tq c)) \<and> kept c (heap_Push c a) \<and>
    (\<forall>b. b \<notin> insert a (set (tq c)) \<longrightarrow> items (heap_Push c a) b = items c b)"
proof -
  let ?c = "pq_Push c a" and ?n = "Suc (length (tq c))"
  have pc: "?c = (set_index c a (int (length (tq c))))\<lparr>tq := tq c @ [a]\<rparr>" by (simp add: pq_Push_def Let_def)
  have idx: "indexed ?c"
    using inv a by (auto simp: pc timer_inv_def indexed_def set_index_def nth_append less_Suc_eq)
  have key: "key ?c j = key c j" if "j < length (tq c)" for j
    using that by (simp add: pc key_def nth_append deadline_def set_index_def)
  have "hole ?c ?n (length (tq c))"
    unfolding hole_def
  proof (intro conjI allI impI)
    fix j assume j: "j < ?n" "0 < j \<and> j \<noteq> length (tq c) \<and> par j \<noteq> length (tq c)"
    then show "key ?c (par j) \<le> key ?c j"
      using key [of j] key [of "par j"] inv par_less [of j] by (simp add: timer_inv_def heap_below_def)
  qed (use par_neq in blast)
  moreover have "\<forall>k < ?n. 0 < k \<and> par k = length (tq c) \<longrightarrow> key ?c (length (tq c)) \<le> key ?c k"
    using par_neq by blast
  ultimately have up: "sifted ?c (heap_up ?c (length (tq c))) \<and> heap_below (heap_up ?c (length (tq c))) ?n"
    using up_spec [of "length (tq c)" ?n ?c] by (simp add: pc)
  have hp: "heap_Push c a = heap_up ?c (length (tq c))" by (simp add: heap_Push_def pc Let_def)
  have s: "sifted ?c (heap_Push c a)" using up hp by simp
  have "timer_inv (heap_Push c a)"
    using up hp idx sifted_sel(1) [OF s] s by (simp add: timer_inv_def sifted_def pc)
  moreover have "kept c (heap_Push c a)" using kept_trans [OF kept_set_index sifted_kept [OF s [unfolded pc]]] pc by simp
  ultimately show ?thesis using sifted_sel(1,2,9) [OF s] by (auto simp: pc set_index_def)
qed

text \<open>Taking the last position out, after it was exchanged with position \<open>i\<close>.\<close>

lemma pq_Pop_spec:
  assumes "indexed c" "tq c = q @ [a]" "heap_below c (length q)"
  shows "\<exists>c'. pq_Pop c = Some (a, c') \<and> timer_inv c' \<and> tq c' = q \<and> a \<notin> set q \<and> kept c c' \<and> index (items c' a) = -1 \<and>
    (\<forall>b. b \<notin> set (tq c) \<longrightarrow> items c' b = items c b)"
proof -
  let ?c = "(set_index c a (-1))\<lparr>tq := q\<rparr>"
  have out: "a \<notin> set q" "distinct q" using assms(1,2) by (simp_all add: indexed_def)
  have nth: "tq c ! i = q ! i" "q ! i \<noteq> a" if "i < length q" for i
    using that out(1) assms(2) nth_mem [OF that] by (auto simp: nth_append)
  have "index (items c (q ! i)) = int i" if "i < length q" for i
    using assms(1,2) nth(1) [OF that] that unfolding indexed_def by (metis length_append less_add_eq_less less_SucI length_append_singleton)
  then have "indexed ?c" using out nth(2) by (simp add: indexed_def set_index_def)
  moreover have key: "key ?c j = key c j" if "j < length q" for j
    using nth [OF that] by (simp add: key_def deadline_def set_index_def)
  have "heap_below ?c (length q)"
    unfolding heap_below_def
  proof (intro allI impI)
    fix j assume j: "j < length q" "0 < j"
    then show "key ?c (par j) \<le> key ?c j"
      using assms(3) key [of j] key [of "par j"] par_less [of j] by (simp add: heap_below_def)
  qed
  moreover have "pq_Pop c = Some (a, ?c)" using assms(2) by (simp add: pq_Pop_def Let_def)
  moreover have "items ?c b = items c b" if "b \<notin> set (tq c)" for b using that assms(2) by (simp add: set_index_def)
  ultimately show ?thesis using kept_set_index [of c q a "-1"] out(1)
    by (intro exI [of _ ?c]) (simp add: timer_inv_def set_index_def)
qed

text \<open>Removing position \<open>i\<close> removes that item; the order and the positions are whole again.\<close>

lemma Remove_spec:
  assumes inv: "timer_inv c" and i: "i < length (tq c)"
  shows "\<exists>c'. heap_Remove c i = Some (tq c ! i, c') \<and> timer_inv c' \<and> set (tq c') = set (tq c) - {tq c ! i} \<and>
    Suc (length (tq c')) = length (tq c) \<and> kept c c' \<and> index (items c' (tq c ! i)) = -1 \<and>
    (\<forall>b. b \<notin> set (tq c) \<longrightarrow> items c' b = items c b)"
proof -
  define n where "n = length (tq c) - 1"
  have n: "n < length (tq c)" "length (tq c) = Suc n" "i \<le> n" using i by (simp_all add: n_def)
  have hb: "key c (par j) \<le> key c j" if "j < length (tq c)" "0 < j" for j
    using inv that by (simp add: timer_inv_def heap_below_def)
  define c2 where "c2 = (if n \<noteq> i then sift (pq_Swap c i n) i n else c)"
  have c2: "sifted c c2 \<and> heap_below c2 n \<and> tq c2 ! n = tq c ! i"
  proof (cases "n = i")
    case True
    then show ?thesis using hb n by (simp add: c2_def heap_below_def)
  next
    case False
    let ?c = "pq_Swap c i n"
    note k = Swap_key [OF i n(1)]
    have "hole ?c n i"
      unfolding hole_def
    proof (intro conjI allI impI)
      fix j assume j: "j < n" "0 < j \<and> j \<noteq> i \<and> par j \<noteq> i"
      then show "key ?c (par j) \<le> key ?c j" using hb [of j] n par_less [of j] by (simp add: k)
    next
      fix j assume j: "j < n" "0 < j \<and> par j = i \<and> 0 < i"
      then have "key c (par i) \<le> key c j" using hb [of i] hb [of j] i n by simp
      moreover have "par i < i" "j \<noteq> i" using j par_less [of i] par_less [of j] by auto
      ultimately show "key ?c (par i) \<le> key ?c j" using j i n by (simp add: k)
    qed
    then show ?thesis
      using sift_spec [of i n ?c] sifted_trans [OF Swap_sifted [OF i n(1)]] False n i by (simp add: c2_def)
  qed
  have len: "length (tq c2) = Suc n" using sifted_sel(1) c2 n by metis
  then have q: "tq c2 = take n (tq c2) @ [tq c ! i]" using c2 by (metis lessI take_Suc_conv_app_nth take_all order_refl)
  have "indexed c2" using c2 inv by (simp add: sifted_def timer_inv_def)
  moreover have "heap_below c2 (length (take n (tq c2)))" using c2 len by simp
  ultimately obtain c' where c': "pq_Pop c2 = Some (tq c ! i, c')" "timer_inv c'" "tq c' = take n (tq c2)"
    "tq c ! i \<notin> set (take n (tq c2))" "kept c2 c'" "index (items c' (tq c ! i)) = -1" "\<forall>b. b \<notin> set (tq c2) \<longrightarrow> items c' b = items c2 b"
    using pq_Pop_spec [OF _ q] by blast
  have "heap_Remove c i = pq_Pop c2"
    using i by (auto simp: heap_Remove_def c2_def sift_def n_def Let_def split: prod.splits)
  moreover have s: "sifted c c2" using c2 by simp
  moreover have "set (tq c) = insert (tq c ! i) (set (tq c'))"
    using arg_cong [OF q, of set] sifted_sel(2) [OF s] c'(3) by simp
  ultimately show ?thesis
    using c' kept_trans [OF sifted_kept [OF s] c'(5)] sifted_sel(2,9) [OF s] len n by auto
qed

lemma heap_Pop_Remove:
  assumes "timer_inv c" "tq c \<noteq> []"
  shows "heap_Pop c = heap_Remove c 0"
proof -
  have up: "heap_up d 0 = d" for d :: "'a Controller" by (simp add: heap_up.simps)
  have dn: "heap_down d 0 0 = (False, d)" for d :: "'a Controller" by (simp add: heap_down.simps)
  show ?thesis
  proof (cases "length (tq c) = 1")
    case True
    then obtain a where a: "tq c = [a]" by (cases "tq c") auto
    then have "index (items c a) = 0" using assms(1) by (auto simp: timer_inv_def indexed_def)
    then have "(items c)(a := (items c a)\<lparr>index := 0\<rparr>) = items c" by (cases "items c a") (auto simp: fun_eq_iff)
    then have "pq_Swap c 0 0 = c" using a by (cases c) (simp add: pq_Swap_def set_index_def Let_def)
    then show ?thesis using a dn [of c] by (simp add: heap_Pop_def heap_Remove_def Let_def)
  next
    case False
    then have "length (tq c) - 1 \<noteq> 0" using assms(2) by (cases "tq c") auto
    then show ?thesis using assms(2) up
      by (auto simp: heap_Pop_def heap_Remove_def Let_def split: prod.splits)
  qed
qed

lemma Pop_spec:
  assumes inv: "timer_inv c" and ne: "tq c \<noteq> []"
  shows "\<exists>a c'. heap_Pop c = Some (a, c') \<and> a \<in> set (tq c) \<and> (\<forall>b \<in> set (tq c). deadline c a \<le> deadline c b) \<and>
    timer_inv c' \<and> set (tq c') = set (tq c) - {a} \<and> Suc (length (tq c')) = length (tq c) \<and> kept c c' \<and>
    index (items c' a) = -1 \<and> (\<forall>b. b \<notin> set (tq c) \<longrightarrow> items c' b = items c b)"
proof -
  have len: "0 < length (tq c)" using ne by simp
  have "deadline c (tq c ! 0) \<le> deadline c b" if "b \<in> set (tq c)" for b
    using root_least [of c "length (tq c)"] inv that by (auto simp: timer_inv_def key_def in_set_conv_nth)
  then show ?thesis using Remove_spec [OF inv len] heap_Pop_Remove [OF inv ne] nth_mem [OF len] by metis
qed

lemma Pop_Some:
  assumes "timer_inv c" "heap_Pop c = Some (a, c')"
  shows "a \<in> set (tq c)" "b \<in> set (tq c) \<Longrightarrow> deadline c a \<le> deadline c b" "timer_inv c'"
    "set (tq c') = set (tq c) - {a}" "kept c c'" "index (items c' a) = -1" "b \<notin> set (tq c) \<Longrightarrow> items c' b = items c b"
proof -
  have "tq c \<noteq> []" using assms(2) by (auto simp: heap_Pop_def)
  from Pop_spec [OF assms(1) this] obtain a0 c0 where p: "heap_Pop c = Some (a0, c0)"
    "a0 \<in> set (tq c)" "\<forall>b \<in> set (tq c). deadline c a0 \<le> deadline c b" "timer_inv c0"
    "set (tq c0) = set (tq c) - {a0}" "kept c c0" "index (items c0 a0) = -1" "\<forall>b. b \<notin> set (tq c) \<longrightarrow> items c0 b = items c b"
    by blast
  have eq: "a0 = a" "c0 = c'" using p(1) assms(2) by simp_all
  show "a \<in> set (tq c)" "timer_inv c'" "set (tq c') = set (tq c) - {a}" "kept c c'" "index (items c' a) = -1"
    using p(2,4-7) unfolding eq by blast+
  show "b \<in> set (tq c) \<Longrightarrow> deadline c a \<le> deadline c b" "b \<notin> set (tq c) \<Longrightarrow> items c' b = items c b"
    using p(3,8) unfolding eq by blast+
qed

text \<open>Restoring the order after the deadline of the item at \<open>i\<close> was changed.\<close>

lemma Fix_spec:
  assumes inv: "timer_inv c" and i: "i < length (tq c)"
    and c1: "c1 = c\<lparr>items := (items c)(tq c ! i := (items c (tq c ! i))\<lparr>dual := d, since := s\<rparr>)\<rparr>"
  shows "\<exists>c'. heap_Fix c1 i = Some c' \<and> timer_inv c' \<and> set (tq c') = set (tq c) \<and> length (tq c') = length (tq c) \<and> kept c1 c' \<and>
    (\<forall>b. b \<notin> set (tq c) \<longrightarrow> items c' b = items c b)"
proof -
  have hb: "key c (par j) \<le> key c j" if "j < length (tq c)" "0 < j" for j
    using inv that by (simp add: timer_inv_def heap_below_def)
  have idx: "indexed c1" using inv by (auto simp: timer_inv_def indexed_def c1)
  have dist: "distinct (tq c)" using inv by (simp add: timer_inv_def indexed_def)
  have k: "key c1 j = key c j" if "j < length (tq c)" "j \<noteq> i" for j
    using that i nth_eq_iff_index_eq [OF dist] by (simp add: key_def deadline_def c1)
  have "hole c1 (length (tq c)) i"
    unfolding hole_def
  proof (intro conjI allI impI)
    fix j assume j: "j < length (tq c)" "0 < j \<and> j \<noteq> i \<and> par j \<noteq> i"
    then show "key c1 (par j) \<le> key c1 j" using hb [of j] par_less [of j] by (simp add: k)
  next
    fix j assume j: "j < length (tq c)" "0 < j \<and> par j = i \<and> 0 < i"
    then have "key c (par i) \<le> key c j" using hb [of i] hb [of j] i by simp
    moreover have "par i < i" "j \<noteq> i" using j par_less [of i] par_less [of j] by auto
    ultimately show "key c1 (par i) \<le> key c1 j" using j i by (simp add: k)
  qed
  then have s: "sifted c1 (sift c1 i (length (tq c)))" "heap_below (sift c1 i (length (tq c))) (length (tq c))"
    using sift_spec [of i "length (tq c)" c1] i by (simp_all add: c1)
  moreover have "heap_Fix c1 i = Some (sift c1 i (length (tq c)))"
    using i by (auto simp: heap_Fix_def sift_def c1 Let_def split: prod.splits)
  moreover have "b \<notin> set (tq c) \<Longrightarrow> items c1 b = items c b" for b using i by (auto simp: c1)
  ultimately show ?thesis
    using sifted_sel(1,2,9) [OF s(1)] sifted_kept [OF s(1)] idx by (auto simp: timer_inv_def sifted_def c1)
qed

section \<open>The queue as a priority queue\<close>



lemma Push_facts:
  assumes "timer_inv c" "a \<notin> set (tq c)"
  shows "timer_inv (heap_Push c a)" "set (tq (heap_Push c a)) = insert a (set (tq c))"
    "deadline (heap_Push c a) b = deadline c b" "tnow (heap_Push c a) = tnow c" "kept c (heap_Push c a)"
proof -
  note s = Push_spec [OF assms]
  show k: "kept c (heap_Push c a)" using s by blast
  show "timer_inv (heap_Push c a)" "set (tq (heap_Push c a)) = insert a (set (tq c))" using s by blast+
  show "deadline (heap_Push c a) b = deadline c b" "tnow (heap_Push c a) = tnow c" by (rule kept_sel [OF k])+
qed



section \<open>Ticks\<close>






section \<open>All runs of a controller\<close>

text \<open>\<open>A\<close> are the items \<open>Add\<close> has returned. \<open>Tick\<close> is split into its steps, because callbacks call the
  controller in between: setting the clock, taking the first item out to invoke it, and looking at
  the first item and putting it back. \<open>AddItem\<close> is called on an item that is not queued.\<close>

inductive timer_run :: "'v Controller \<Rightarrow> addr list \<Rightarrow> bool" where
  run_New: "timer_run (Timer_New now (0, Creator_zero) v) []"
| run_Add: "timer_run c A \<Longrightarrow> Timer_Add c d v = Some (a, c') \<Longrightarrow> timer_run c' (a # A)"
| run_AddItem: "timer_run c A \<Longrightarrow> a \<in> set A \<Longrightarrow> index (items c a) = -1 \<Longrightarrow> timer_run (Timer_AddItem c a) A"
| run_Remove: "timer_run c A \<Longrightarrow> a \<in> set A \<Longrightarrow> Timer_Remove c a = Some (r, c') \<Longrightarrow> timer_run c' A"
| run_Update: "timer_run c A \<Longrightarrow> a \<in> set A \<Longrightarrow> Timer_Update c a d = Some c' \<Longrightarrow> timer_run c' A"
| run_Next: "timer_run c A \<Longrightarrow> a \<in> set A \<Longrightarrow> timer_run (Timer_Next c a) A"
| run_clock: "timer_run c A \<Longrightarrow> timer_run (c\<lparr>tnow := now\<rparr>) A"
| run_fire: "timer_run c A \<Longrightarrow> heap_Pop c = Some (a, c') \<Longrightarrow> deadline c' a \<le> tnow c' \<Longrightarrow> timer_run c' A"
| run_peek: "timer_run c A \<Longrightarrow> heap_Pop c = Some (a, c') \<Longrightarrow> timer_run (heap_Push c' a) A"

definition cell_slice :: "addr \<Rightarrow> Slice" where
  "cell_slice a = (case a of Cell r k \<Rightarrow> \<lparr>s_arr = r, s_off = k, s_len = 1, s_cap = 1\<rparr>)"

definition ctl_inv :: "'v Controller \<Rightarrow> addr list \<Rightarrow> bool" where
  "ctl_inv c A \<longleftrightarrow> timer_inv c \<and> set (tq c) \<subseteq> set A \<and> creator_ok (tcreator c) (map cell_slice A) \<and>
     (\<forall>a \<in> set A. a \<notin> set (tq c) \<longrightarrow> index (items c a) = -1)"

text \<open>A queued item is found at its position.\<close>

lemma queued_index:
  assumes "timer_inv c" "a \<in> set (tq c)"
  obtains i where "i < length (tq c)" "tq c ! i = a" "index (items c a) = int i"
  using assms by (auto simp: timer_inv_def indexed_def in_set_conv_nth)

lemma ctl_queued_iff: "ctl_inv c A \<Longrightarrow> a \<in> set A \<Longrightarrow> index (items c a) = -1 \<longleftrightarrow> a \<notin> set (tq c)"
  by (auto simp: ctl_inv_def elim!: queued_index)

lemma timer_inv_items:
  assumes "timer_inv c" "a \<notin> set (tq c)"
  shows "timer_inv (c\<lparr>items := (items c)(a := it)\<rparr>)"
proof -
  have "tq c ! i \<noteq> a" if "i < length (tq c)" for i using that assms(2) by auto
  moreover have "par j < length (tq c)" if "j < length (tq c)" "0 < j" for j using that par_less [of j] by simp
  ultimately show ?thesis
    using assms(1) by (auto simp: timer_inv_def indexed_def heap_below_def key_def deadline_def)
qed

lemma Push_ctl:
  assumes "ctl_inv c A" "a \<in> set A" "a \<notin> set (tq c)"
  shows "ctl_inv (heap_Push (c\<lparr>items := (items c)(a := it)\<rparr>) a) A \<and>
    set (tq (heap_Push (c\<lparr>items := (items c)(a := it)\<rparr>) a)) = insert a (set (tq c))"
proof -
  let ?c = "c\<lparr>items := (items c)(a := it)\<rparr>"
  have "timer_inv ?c" using assms timer_inv_items by (auto simp: ctl_inv_def)
  note s = Push_spec [OF this, of a] Push_facts(5) [OF this, of a]
  show ?thesis using s assms kept_sel(2) [of ?c "heap_Push ?c a"] by (auto simp: ctl_inv_def)
qed

lemma Remove_ctl:
  assumes "ctl_inv c A" "a \<in> set A"
  shows "\<exists>c'. Timer_Remove c a = Some (None, c') \<and> ctl_inv c' A \<and> set (tq c') = set (tq c) - {a} \<and>
    (\<forall>b. deadline c' b = deadline c b) \<and> tnow c' = tnow c"
proof (cases "a \<in> set (tq c)")
  case True
  have inv: "timer_inv c" using assms by (simp add: ctl_inv_def)
  obtain i where i: "i < length (tq c)" "tq c ! i = a" "index (items c a) = int i" by (rule queued_index [OF inv True])
  obtain c' where c': "heap_Remove c i = Some (a, c')" "timer_inv c'" "set (tq c') = set (tq c) - {a}" "kept c c'"
    "index (items c' a) = -1" "\<forall>b. b \<notin> set (tq c) \<longrightarrow> items c' b = items c b"
    using Remove_spec [OF inv i(1)] i(2) by blast
  have "ctl_inv c' A" using c' assms(1) kept_sel(2) [OF c'(4)] by (auto simp: ctl_inv_def)
  then show ?thesis using c' i(3) kept_sel(1,3) [OF c'(4)] by (simp add: Timer_Remove_def)
next
  case False
  then show ?thesis using assms ctl_queued_iff by (auto simp: Timer_Remove_def)
qed

lemma Update_ctl:
  assumes "ctl_inv c A" "a \<in> set (tq c)"
  shows "\<exists>c'. Timer_Update c a d = Some c' \<and> ctl_inv c' A \<and> set (tq c') = set (tq c) \<and> tnow c' = tnow c \<and>
    (\<forall>b. deadline c' b = (if b = a then tnow c + d else deadline c b))"
proof -
  have inv: "timer_inv c" using assms by (simp add: ctl_inv_def)
  obtain i where i: "i < length (tq c)" "tq c ! i = a" "index (items c a) = int i" by (rule queued_index [OF inv assms(2)])
  let ?c = "c\<lparr>items := (items c)(a := (items c a)\<lparr>dual := d, since := tnow c\<rparr>)\<rparr>"
  obtain c' where c': "heap_Fix ?c i = Some c'" "timer_inv c'" "set (tq c') = set (tq c)" "kept ?c c'"
    "\<forall>b. b \<notin> set (tq c) \<longrightarrow> items c' b = items c b"
    using Fix_spec [OF inv i(1), of ?c "tnow c" d] i(2) by auto
  have "ctl_inv c' A" using c' assms(1) kept_sel(2) [OF c'(4)] by (auto simp: ctl_inv_def)
  moreover have "deadline c' b = (if b = a then tnow c + d else deadline c b)" for b
    using kept_sel(3) [OF c'(4)] by (simp add: deadline_def)
  ultimately show ?thesis using c' i(3) kept_sel(1) [OF c'(4)] by (simp add: Timer_Update_def)
qed

lemma Add_ctl:
  assumes "ctl_inv c A"
  shows "\<exists>a c'. Timer_Add c d v = Some (a, c') \<and> a \<notin> set A \<and> ctl_inv c' (a # A) \<and> set (tq c') = insert a (set (tq c)) \<and>
    deadline c' a = tnow c + d \<and> tv (items c' a) = v \<and> tnow c' = tnow c \<and> (\<forall>b \<in> set A. deadline c' b = deadline c b)"
proof -
  obtain sl cr where n: "creator_Item_create 256 (tcreator c) = Some (sl, cr)" "s_cap sl = 1"
  proof (cases "tcreator c")
    case (Pair h cr)
    then show ?thesis using that
      by (cases "cr_len cr \<le> cr_idx cr") (simp_all add: creator_Item_create_def refill_def)
  qed
  let ?a = "Cell (s_arr sl) (s_off sl)"
  have ok: "creator_ok cr (sl # map cell_slice A)" "\<forall>r \<in> set (map cell_slice A). region r \<inter> region sl = {}"
    using creator_Item_ok [OF _ n(1), of "map cell_slice A"] assms by (simp_all add: ctl_inv_def)
  have fresh: "?a \<notin> set A"
  proof
    assume "?a \<in> set A"
    then have "region (cell_slice ?a) \<inter> region sl = {}" using ok(2) by simp
    then show False using n(2) by (auto simp: region_def cell_slice_def)
  qed
  let ?it = "(items c ?a)\<lparr>dual := d, since := tnow c, tv := v\<rparr>"
  let ?c = "(c\<lparr>tcreator := cr\<rparr>)\<lparr>items := (items c)(?a := ?it)\<rparr>"
  have out: "?a \<notin> set (tq c)" using fresh assms by (auto simp: ctl_inv_def)
  have inv: "timer_inv ?c"
    using timer_inv_items [of "c\<lparr>tcreator := cr\<rparr>" ?a ?it] assms out
    by (simp add: ctl_inv_def timer_inv_def indexed_def heap_below_def key_def deadline_def)
  have outc: "?a \<notin> set (tq ?c)" using out by simp
  note s = Push_spec [OF inv outc] and k = Push_facts(5) [OF inv outc]
  have "creator_ok cr (map cell_slice (?a # A))"
    using ok(1) n(2) by (simp add: creator_ok_def cell_slice_def split: prod.splits)
  then have "ctl_inv (heap_Push ?c ?a) (?a # A)"
    using s kept_sel(2) [OF k] assms fresh by (auto simp: ctl_inv_def)
  moreover have "Timer_Add c d v = Some (?a, heap_Push ?c ?a)" using n(1) by (simp add: Timer_Add_def New_Item_def Let_def)
  moreover have "deadline (heap_Push ?c ?a) b = deadline c b" if "b \<in> set A" for b
    using kept_sel(3) [OF k] that fresh by (auto simp: deadline_def)
  ultimately show ?thesis using s fresh kept_sel(1,3,4) [OF k]
    by (intro exI [of _ ?a] exI [of _ "heap_Push ?c ?a"]) (simp add: deadline_def)
qed

lemma fire_ctl:
  assumes "ctl_inv c A" "heap_Pop c = Some (a, c')"
  shows "ctl_inv c' A" "a \<in> set A" "a \<notin> set (tq c')"
proof -
  have inv: "timer_inv c" using assms(1) by (simp add: ctl_inv_def)
  note p = Pop_Some [OF inv assms(2)]
  show "a \<in> set A" "a \<notin> set (tq c')" using p(1,4) assms(1) by (auto simp: ctl_inv_def)
  show "ctl_inv c' A"
    using p(3,4,6,7) kept_sel(2) [OF p(5)] assms(1) by (auto simp: ctl_inv_def)
qed

lemma items_same: "c\<lparr>items := (items c)(a := items c a)\<rparr> = c"
  by (cases c) simp

lemma clock_same: "deadline (c\<lparr>tnow := now\<rparr>) = deadline c" "timer_inv c \<Longrightarrow> timer_inv (c\<lparr>tnow := now\<rparr>)"
proof -
  show "deadline (c\<lparr>tnow := now\<rparr>) = deadline c" by (simp add: deadline_def fun_eq_iff)
  then show "timer_inv c \<Longrightarrow> timer_inv (c\<lparr>tnow := now\<rparr>)" by (simp add: timer_inv_def indexed_def heap_below_def key_def)
qed

lemma timer_run_ctl: "timer_run c A \<Longrightarrow> ctl_inv c A"
proof (induction rule: timer_run.induct)
  case (run_New now v)
  then show ?case
    using creator_ok_zero by (simp add: ctl_inv_def timer_inv_def indexed_def heap_below_def Timer_New_def)
next
  case (run_Add c A d v a c')
  then show ?case using Add_ctl [of c A d v] by auto
next
  case (run_AddItem c A a)
  then show ?case using Push_ctl [of c A a] ctl_queued_iff [of c A a] by (simp add: Timer_AddItem_def)
next
  case (run_Remove c A a r c')
  then show ?case using Remove_ctl [of c A a] by auto
next
  case (run_Update c A a d c')
  then show ?case
    using Update_ctl [of c A a d] ctl_queued_iff [of c A a] by (cases "a \<in> set (tq c)") (auto simp: Timer_Update_def)
next
  case (run_Next c A a)
  then show ?case using Push_ctl [of c A a] ctl_queued_iff [of c A a] by (simp add: Timer_Next_def)
next
  case (run_clock c A now)
  then show ?case using clock_same(2) [of c now] by (simp add: ctl_inv_def)
next
  case (run_fire c A a c')
  then show ?case using fire_ctl by blast
next
  case (run_peek c A a c')
  then show ?case using fire_ctl [of c A a c'] Push_ctl [of c' A a "items c' a"] by (simp add: items_same)
qed

section \<open>Properties\<close>


definition demo_timer :: "nat Controller" where
  "demo_timer = (case Timer_Add (Timer_New 100 (0, Creator_zero) 0) 30 7 of Some (_, c) \<Rightarrow>
     (case Timer_Add c 10 8 of Some (_, c') \<Rightarrow> c'))"

lemma demo_timer_eq:
  "Timer_Add (Timer_New 100 (0, Creator_zero) 0) 30 7 = Some (Cell 0 0, snd (the (Timer_Add (Timer_New 100 (0, Creator_zero) (0::nat)) 30 7)))"
  "Timer_Add (snd (the (Timer_Add (Timer_New 100 (0, Creator_zero) (0::nat)) 30 7))) 10 8 = Some (Cell 0 1, demo_timer)"
  "tq demo_timer = [Cell 0 1, Cell 0 0]" "deadline demo_timer (Cell 0 0) = 130" "deadline demo_timer (Cell 0 1) = 110"
proof -
  note defs = Timer_Add_def New_Item_def creator_Item_create_def Timer_New_def Creator_zero_def refill_def heap_Push_def
    pq_Push_def set_index_def heap_up.simps pq_Less_def pq_Swap_def deadline_def Let_def
  show "Timer_Add (Timer_New 100 (0, Creator_zero) 0) 30 7 = Some (Cell 0 0, snd (the (Timer_Add (Timer_New 100 (0, Creator_zero) (0::nat)) 30 7)))"
    "Timer_Add (snd (the (Timer_Add (Timer_New 100 (0, Creator_zero) (0::nat)) 30 7))) 10 8 = Some (Cell 0 1, demo_timer)"
    "tq demo_timer = [Cell 0 1, Cell 0 0]" "deadline demo_timer (Cell 0 0) = 130" "deadline demo_timer (Cell 0 1) = 110"
    by (simp_all add: demo_timer_def defs)
qed

lemma demo_timer_run: "timer_run demo_timer [Cell 0 1, Cell 0 0]"
  by (rule run_Add [OF run_Add [OF run_New demo_timer_eq(1)] demo_timer_eq(2)])




text \<open>C24: \<open>Remove\<close> and \<open>Update\<close> of an item the controller handed out never panic and touch only that
  item: \<open>Remove\<close> takes it out of the queue, \<open>Update\<close> moves its deadline to the new duration from
  now, and both leave the deadlines of all other items. \<open>Remove\<close> always returns nil.\<close>

theorem timer_remove_update:
  assumes "timer_run c A" "a \<in> set A"
  shows "(\<exists>c'. Timer_Remove c a = Some (None, c') \<and> timer_run c' A \<and> set (tq c') = set (tq c) - {a} \<and>
      (\<forall>b. deadline c' b = deadline c b)) \<and>
    (\<exists>c'. Timer_Update c a d = Some c' \<and> timer_run c' A \<and> set (tq c') = set (tq c) \<and>
      (\<forall>b. deadline c' b = (if b = a \<and> a \<in> set (tq c) then tnow c + d else deadline c b)))"
proof -
  have inv: "ctl_inv c A" by (rule timer_run_ctl [OF assms(1)])
  have "\<exists>c'. Timer_Update c a d = Some c' \<and> set (tq c') = set (tq c) \<and>
      (\<forall>b. deadline c' b = (if b = a \<and> a \<in> set (tq c) then tnow c + d else deadline c b))"
  proof (cases "a \<in> set (tq c)")
    case True
    then show ?thesis using Update_ctl [OF inv True, of d] by auto
  next
    case False
    then show ?thesis using ctl_queued_iff [OF inv assms(2)] by (simp add: Timer_Update_def)
  qed
  then obtain c2 where "Timer_Update c a d = Some c2" "set (tq c2) = set (tq c)"
    "\<forall>b. deadline c2 b = (if b = a \<and> a \<in> set (tq c) then tnow c + d else deadline c b)" by blast
  moreover obtain c1 where "Timer_Remove c a = Some (None, c1)" "set (tq c1) = set (tq c) - {a}"
    "\<forall>b. deadline c1 b = deadline c b" using Remove_ctl [OF inv assms(2)] by blast
  ultimately show ?thesis using run_Remove [OF assms] run_Update [OF assms] by metis
qed

theorem timer_remove_update_witness:
  "\<exists>c'. Timer_Remove demo_timer (Cell 0 1) = Some (None, c') \<and> set (tq c') = {Cell 0 0}"
  using timer_remove_update [OF demo_timer_run, of "Cell 0 1" 5] by (auto simp: demo_timer_eq)

end
