(* ===== verification/Safelink_Wire.thy ===== *)
theory Safelink_Wire
  imports Expand_Queue
begin

text \<open>
  The wire format of the links between servers (\<open>xnet/util.go\<close>, \<open>xnet/safelink.go\<close>): framing,
  full reads and writes over a byte stream, heartbeats, and the \<open>Link\<close> with its send side. What
  the connection gives to a read is a list of chunks, what it answers to a write a list of accepted
  lengths; both may end in an error. Serial numbers are 64-bit words read as signed.
\<close>

type_synonym i64 = "64 word"

section \<open>Full reads and writes\<close>

text \<open>\<open>writeFull\<close>: \<open>Some n\<close> accepts the next \<open>n\<close> bytes, \<open>None\<close> is an error. The bytes that went out
  are returned.\<close>

fun writeFull :: "nat option list \<Rightarrow> bytes \<Rightarrow> bool outcome \<times> bytes \<times> nat option list" where
  "writeFull answers [] = (Done True, [], answers)"
| "writeFull [] b = (Blocked, [], [])"
| "writeFull (None # answers) b = (Done False, [], answers)"
| "writeFull (Some n # answers) b =
     (let (r, w, rest) = writeFull answers (drop n b) in (r, take n b @ w, rest))"

datatype conn_read = Chunk bytes | ReadErr

fun readFull :: "nat \<Rightarrow> conn_read list \<Rightarrow> bytes option outcome \<times> conn_read list" where
  "readFull 0 evs = (Done (Some []), evs)"
| "readFull (Suc k) [] = (Blocked, [])"
| "readFull (Suc k) (ReadErr # evs) = (Done None, evs)"
| "readFull (Suc k) (Chunk bs # evs) =
     (if length bs \<le> Suc k
      then (case readFull (Suc k - length bs) evs of
          (Done (Some r), evs') \<Rightarrow> (Done (Some (bs @ r)), evs')
        | (r, evs') \<Rightarrow> (r, evs'))
      else (Done (Some (take (Suc k) bs)), Chunk (drop (Suc k) bs) # evs))"

section \<open>Frames\<close>

definition headSize :: nat where "headSize = 12"
definition heartSize :: nat where "heartSize = 8"
definition linkSerialHeart :: i64 where "linkSerialHeart = 0x7fffffffffffffff"
definition linkSerialMax :: i64 where "linkSerialMax = linkSerialHeart - 1"

definition frameHead :: "i64 \<Rightarrow> nat \<Rightarrow> bytes" where
  "frameHead serial bodySize = le_bytes 4 (of_nat bodySize :: u32) @ le_bytes 8 serial"

definition writeBuffer :: "nat option list \<Rightarrow> i64 \<Rightarrow> bytes \<Rightarrow> bool outcome \<times> bytes \<times> nat option list" where
  "writeBuffer answers serial buf =
     (case writeFull answers (frameHead serial (length buf)) of
        (Done True, w, as) \<Rightarrow>
          if length buf \<noteq> 0 then let (r, w', as') = writeFull as buf in (r, w @ w', as') else (Done True, w, as)
      | r \<Rightarrow> r)"

definition readBuffer :: "conn_read list \<Rightarrow> (i64 \<times> bytes) option outcome \<times> conn_read list" where
  "readBuffer evs =
     (case readFull headSize evs of
        (Done (Some head), evs') \<Rightarrow>
          let bodySize = unat (le_word (take 4 head) :: u32); serial = (le_word (drop 4 head) :: i64) in
          if bodySize \<noteq> 0
          then (case readFull bodySize evs' of
              (Done (Some buf), evs'') \<Rightarrow> (Done (Some (serial, buf)), evs'')
            | (Done None, evs'') \<Rightarrow> (Done None, evs'')
            | (Blocked, evs'') \<Rightarrow> (Blocked, evs''))
          else (Done (Some (serial, [])), evs')
      | (Done None, evs') \<Rightarrow> (Done None, evs')
      | (Blocked, evs') \<Rightarrow> (Blocked, evs'))"

definition heartSerialize :: "i64 \<Rightarrow> bytes" where
  "heartSerialize now = le_bytes 8 now"

definition heartDeserialize :: "i64 \<Rightarrow> bytes \<Rightarrow> i64" where
  "heartDeserialize now buf =
     (if length buf < heartSize then 0
      else let rtt = now - le_word (take 8 buf) in
        if sint rtt < 0 \<or> sint rtt > 600000000000 then 0 else rtt)"

section \<open>The link\<close>

definition maxBufferSize :: nat where "maxBufferSize = 2 ^ 20"

record 'pk Link =
  l_sendSig :: bool \<comment> \<open>a signal is in the channel of capacity one\<close>
  l_sigClosed :: bool
  l_sendq :: "'pk SingleConsumer"
  l_sendb :: bytes
  l_recvq :: "(i64 \<times> 'pk) list"
  l_serial :: i64
  l_localID :: int
  l_localName :: string
  l_remoteID :: int
  l_remoteName :: string
  l_isdial :: bool
  l_callClose :: bool
  l_closed :: bool
  l_connClosed :: bool
  l_addr :: string \<comment> \<open>\<open>conn.RemoteAddr()\<close>\<close>
  l_RTT :: i64

definition newLink :: "string \<Rightarrow> int \<Rightarrow> string \<Rightarrow> bool \<Rightarrow> 'pk Link" where
  "newLink addr routeID name isdial =
     \<lparr>l_sendSig = False, l_sigClosed = False, l_sendq = SingleConsumer_empty, l_sendb = replicate 4096 0, l_recvq = [],
      l_serial = 0, l_localID = routeID, l_localName = name, l_remoteID = 0, l_remoteName = [], l_isdial = isdial,
      l_callClose = False, l_closed = False, l_connClosed = False, l_addr = addr, l_RTT = 0\<rparr>"

definition Link_Close :: "'pk Link \<Rightarrow> 'pk Link" where
  "Link_Close l = l\<lparr>l_callClose := True, l_connClosed := True\<rparr>"

text \<open>\<open>select { case sendSig <- struct{}{}: default: }\<close>; a send on a closed channel panics.\<close>

definition trySignal :: "'pk Link \<Rightarrow> 'pk Link option" where
  "trySignal l = (if l_sigClosed l then None else Some (l\<lparr>l_sendSig := True\<rparr>))"

definition Link_Send :: "'pk \<Rightarrow> 'pk Link \<Rightarrow> 'pk \<Rightarrow> (i64 \<times> 'pk Link) option" where
  "Link_Send zero l pk =
     (if l_closed l then Some (l_serial l, l)
      else do {
        q \<leftarrow> SingleConsumer_Push zero (l_sendq l) pk;
        let l = l\<lparr>l_sendq := q\<rparr> in
        do {
          l \<leftarrow> (if SingleConsumer_Len (l_sendq l) = 1 then trySignal l else Some l);
          Some (l_serial l, l) } })"

text \<open>\<open>WritePacket\<close> appends the head and makes room for a body, which the formatter that called it
  fills at once: the body is an argument here.\<close>

definition WritePacket :: "'pk Link \<Rightarrow> bytes \<Rightarrow> 'pk Link" where
  "WritePacket l body =
     (let s = l_serial l + 1; s = (if sint s > sint linkSerialMax then 0 else s) in
      l\<lparr>l_serial := s, l_sendb := l_sendb l @ frameHead s (length body) @ body\<rparr>)"

text \<open>One round of the send thread in \<open>setUpLink\<close>: packets are taken until the queue is empty or the
  buffer is large enough, then everything is written. \<open>enc\<close> is the formatter.\<close>

partial_function (option) sendLoop :: "'pk \<Rightarrow> ('pk \<Rightarrow> bytes) \<Rightarrow> 'pk Link \<Rightarrow> 'pk Link option" where
  "sendLoop zero enc l =
     (case SingleConsumer_Pop zero (l_sendq l) of
        None \<Rightarrow> None
      | Some (None, q) \<Rightarrow> Some (l\<lparr>l_sendq := q\<rparr>)
      | Some (Some pk, q) \<Rightarrow>
          let l = WritePacket (l\<lparr>l_sendq := q\<rparr>) (enc pk) in
          if length (l_sendb l) > maxBufferSize \<and> \<not> l_closed l then trySignal l else sendLoop zero enc l)"

definition sendRound :: "'pk \<Rightarrow> ('pk \<Rightarrow> bytes) \<Rightarrow> 'pk Link \<Rightarrow> 'pk Link option" where
  "sendRound zero enc l = sendLoop zero enc (l\<lparr>l_sendSig := False, l_sendb := []\<rparr>)"

section \<open>The read thread\<close>

text \<open>\<open>runRead\<close> for a given stream: the heartbeats it takes (the dialling side computes the
  round-trip time from them, the other side echoes them) and the packets it queues, in order. \<open>dec\<close>
  is the formatter, whose nil (\<open>Some None\<close>) is skipped and whose panic is \<open>None\<close>. The stream may
  have nothing more to give, or end in an error, after which the connection is closed. Every frame
  takes bytes of the stream, so the loop ends with it.\<close>

datatype 'pk read_act = RdHeart bytes | RdEcho bytes | RdPacket i64 'pk

datatype read_end = ReadWaits | ReadEnded | ReadPanics

fun stream_left :: "conn_read list \<Rightarrow> nat" where
  "stream_left [] = 0"
| "stream_left (ReadErr # evs) = Suc (stream_left evs)"
| "stream_left (Chunk bs # evs) = Suc (length bs + stream_left evs)"

lemma readFull_left:
  "readFull k evs = (r, evs') \<Longrightarrow> stream_left evs' \<le> stream_left evs \<and> (k > 0 \<and> r \<noteq> Blocked \<longrightarrow> stream_left evs' < stream_left evs)"
proof (induction k evs arbitrary: r evs' rule: readFull.induct)
  case (4 k bs evs)
  show ?case
  proof (cases "length bs \<le> Suc k")
    case True
    obtain r1 e1 where e: "readFull (Suc k - length bs) evs = (r1, e1)" by fastforce
    then have "stream_left e1 \<le> stream_left evs" "evs' = e1"
      using 4(1) [OF True e] 4(2) True by (auto split: outcome.splits option.splits)
    then show ?thesis by simp
  next
    case False
    then show ?thesis using 4(2) by auto
  qed
qed auto

lemma readBuffer_left: "readBuffer evs = (Done (Some p), evs') \<Longrightarrow> stream_left evs' < stream_left evs"
  by (auto simp: readBuffer_def headSize_def Let_def split: prod.splits outcome.splits option.splits if_splits
      dest!: readFull_left)

function runRead :: "(bytes \<Rightarrow> 'pk option option) \<Rightarrow> bool \<Rightarrow> conn_read list \<Rightarrow> 'pk read_act list \<times> read_end" where
  "runRead dec isdial evs =
     (case readBuffer evs of
        (Blocked, evs') \<Rightarrow> ([], ReadWaits)
      | (Done None, evs') \<Rightarrow> ([], ReadEnded)
      | (Done (Some (serial, buf)), evs') \<Rightarrow>
          if serial = linkSerialHeart
          then let (acts, e) = runRead dec isdial evs' in ((if isdial then RdHeart buf else RdEcho buf) # acts, e)
          else (case dec buf of
              None \<Rightarrow> ([], ReadPanics)
            | Some None \<Rightarrow> runRead dec isdial evs'
            | Some (Some pk) \<Rightarrow> let (acts, e) = runRead dec isdial evs' in (RdPacket serial pk # acts, e)))"
  by auto
termination by (relation "measure (\<lambda>(d, i, evs). stream_left evs)") (auto dest!: sym [of "(Done (Some _), _)"] readBuffer_left)

declare runRead.simps [simp del]

section \<open>Reading what was written\<close>

text \<open>The bytes a connection will give before its first error.\<close>

fun data_of :: "conn_read list \<Rightarrow> bytes" where
  "data_of [] = []"
| "data_of (ReadErr # evs) = []"
| "data_of (Chunk bs # evs) = bs @ data_of evs"

lemma readFull_data:
  "k \<le> length (data_of evs) \<Longrightarrow>
   \<exists>evs'. readFull k evs = (Done (Some (take k (data_of evs))), evs') \<and> data_of evs' = drop k (data_of evs)"
proof (induction k evs rule: readFull.induct)
  case (4 k bs evs)
  show ?case
  proof (cases "length bs \<le> Suc k")
    case True
    have "Suc k - length bs \<le> length (data_of evs)" using 4(2) by simp
    from 4(1) [OF True this] obtain evs' where "readFull (Suc k - length bs) evs = (Done (Some (take (Suc k - length bs) (data_of evs))), evs')"
      "data_of evs' = drop (Suc k - length bs) (data_of evs)" by blast
    then show ?thesis using True by simp
  qed simp
qed auto

definition frame :: "i64 \<Rightarrow> bytes \<Rightarrow> bytes" where
  "frame serial body = frameHead serial (length body) @ body"

lemma readBuffer_frame:
  assumes "data_of evs = frame serial body @ rest" "length body < 2 ^ 32"
  shows "\<exists>evs'. readBuffer evs = (Done (Some (serial, body)), evs') \<and> data_of evs' = rest"
proof -
  have len: "length (frameHead serial (length body)) = headSize" by (simp add: frameHead_def headSize_def)
  obtain evs1 where h: "readFull headSize evs = (Done (Some (frameHead serial (length body))), evs1)" "data_of evs1 = body @ rest"
    using readFull_data [of headSize evs] assms(1) len by (auto simp: frame_def)
  have size: "unat (le_word (take 4 (frameHead serial (length body))) :: u32) = length body"
    "(le_word (drop 4 (frameHead serial (length body))) :: i64) = serial"
    using assms(2) by (simp_all add: frameHead_def wire_simps)
  show ?thesis
  proof (cases "body = []")
    case True
    then show ?thesis using h size by (simp add: readBuffer_def Let_def)
  next
    case False
    obtain evs2 where "readFull (length body) evs1 = (Done (Some body), evs2)" "data_of evs2 = rest"
      using readFull_data [of "length body" evs1] h(2) by auto
    then show ?thesis using h size False by (simp add: readBuffer_def Let_def)
  qed
qed

lemma writeFull_done: "writeFull as b = (Done True, w, as') \<Longrightarrow> w = b"
  by (induction as b arbitrary: w rule: writeFull.induct) (auto split: prod.splits)

lemma writeBuffer_done: "writeBuffer as serial buf = (Done True, w, as') \<Longrightarrow> w = frame serial buf"
  by (auto simp: writeBuffer_def frame_def split: prod.splits outcome.splits bool.splits if_splits dest!: writeFull_done)

section \<open>Serial numbers\<close>

definition nextSerial :: "i64 \<Rightarrow> i64" where
  "nextSerial s = (if sint (s + 1) > sint linkSerialMax then 0 else s + 1)"

lemma WritePacket_eq:
  "WritePacket l body = l\<lparr>l_serial := nextSerial (l_serial l), l_sendb := l_sendb l @ frame (nextSerial (l_serial l)) body\<rparr>"
  by (simp add: WritePacket_def nextSerial_def frame_def Let_def)

text \<open>No packet carries the serial number of a heartbeat.\<close>

lemma nextSerial_not_heart: "nextSerial s \<noteq> linkSerialHeart"
proof -
  have "sint linkSerialHeart > sint linkSerialMax" by (simp add: linkSerialMax_def linkSerialHeart_def)
  moreover have "(0 :: i64) \<noteq> linkSerialHeart" by (simp add: linkSerialHeart_def)
  ultimately show ?thesis by (auto simp: nextSerial_def)
qed

text \<open>The serial numbers and the bytes of a sequence of packets.\<close>

fun serials :: "i64 \<Rightarrow> nat \<Rightarrow> i64 list" where
  "serials s 0 = []"
| "serials s (Suc n) = nextSerial s # serials (nextSerial s) n"

fun frames :: "i64 \<Rightarrow> bytes list \<Rightarrow> bytes" where
  "frames s [] = []"
| "frames s (b # bs) = frame (nextSerial s) b @ frames (nextSerial s) bs"

text \<open>A round of the send thread returns and writes a prefix of the queue; when it leaves something
  behind on an open link, it has signalled itself.\<close>

lemma sendLoop_spec:
  assumes "SingleConsumer_inv (l_sendq l)" "\<not> l_sigClosed l" "SingleConsumer_list (l_sendq l) = ps"
  shows "\<exists>m l'. sendLoop zero enc l = Some l' \<and> m \<le> length ps \<and> SingleConsumer_inv (l_sendq l') \<and>
    SingleConsumer_list (l_sendq l') = drop m ps \<and> l_sendb l' = l_sendb l @ frames (l_serial l) (map enc (take m ps)) \<and>
    (ps \<noteq> [] \<longrightarrow> m > 0) \<and> (m < length ps \<longrightarrow> l_sendSig l') \<and> (l_sendSig l \<longrightarrow> l_sendSig l')"
  using assms
proof (induction ps arbitrary: l)
  case Nil
  then obtain q where "SingleConsumer_Pop zero (l_sendq l) = Some (None, q)" "SingleConsumer_inv q" "SingleConsumer_list q = []"
    using SingleConsumer_Pop_spec [OF Nil.prems(1), of zero] by auto
  then show ?case by (simp add: sendLoop.simps [of zero enc l])
next
  case (Cons p ps)
  obtain q where q: "SingleConsumer_Pop zero (l_sendq l) = Some (Some p, q)" "SingleConsumer_inv q" "SingleConsumer_list q = ps"
    using SingleConsumer_Pop_spec [OF Cons.prems(1), of zero] Cons.prems(3) by auto
  let ?l = "WritePacket (l\<lparr>l_sendq := q\<rparr>) (enc p)"
  show ?case
  proof (cases "length (l_sendb ?l) > maxBufferSize \<and> \<not> l_closed ?l")
    case True
    then have "sendLoop zero enc l = Some (?l\<lparr>l_sendSig := True\<rparr>)"
      using q(1) Cons.prems(2) by (simp add: sendLoop.simps [of zero enc l] trySignal_def WritePacket_eq)
    then show ?thesis using q by (intro exI [of _ 1] exI [of _ "?l\<lparr>l_sendSig := True\<rparr>"]) (simp add: WritePacket_eq)
  next
    case False
    then have step: "sendLoop zero enc l = sendLoop zero enc ?l" using q(1) by (auto simp: sendLoop.simps [of zero enc l] Let_def)
    obtain m l' where "sendLoop zero enc ?l = Some l'" "m \<le> length ps" "SingleConsumer_inv (l_sendq l')"
      "SingleConsumer_list (l_sendq l') = drop m ps" "l_sendb l' = l_sendb ?l @ frames (l_serial ?l) (map enc (take m ps))"
      "m < length ps \<longrightarrow> l_sendSig l'" "l_sendSig ?l \<longrightarrow> l_sendSig l'"
      using Cons.IH [of ?l] q Cons.prems(2) by (auto simp: WritePacket_eq)
    then show ?thesis using step
      by (intro exI [of _ "Suc m"] exI [of _ l']) (simp add: WritePacket_eq)
  qed
qed

section \<open>Packets over a formatter\<close>

text \<open>The contract of a packet formatter: what it encodes fits a frame and decodes to itself.\<close>

locale codec =
  fixes enc :: "'pk \<Rightarrow> bytes" and dec :: "bytes \<Rightarrow> 'pk option option" and fits :: "'pk \<Rightarrow> bool"
  assumes dec_enc: "fits p \<Longrightarrow> dec (enc p) = Some (Some p)" and enc_length: "fits p \<Longrightarrow> length (enc p) < 2 ^ 32"
begin

text \<open>Whatever the chunks in which the stream arrives, the read thread queues the packets that were
  sent, in order and with their serial numbers, and goes on with what follows them.\<close>

lemma read_frames:
  assumes "data_of evs = frames s (map enc ps) @ rest" "\<forall>p \<in> set ps. fits p"
  shows "\<exists>evs'. data_of evs' = rest \<and>
    runRead dec isdial evs = (map2 RdPacket (serials s (length ps)) ps @ fst (runRead dec isdial evs'), snd (runRead dec isdial evs'))"
  using assms
proof (induction ps arbitrary: s evs)
  case Nil
  then show ?case by (intro exI [of _ evs]) simp
next
  case (Cons p ps)
  have "data_of evs = frame (nextSerial s) (enc p) @ frames (nextSerial s) (map enc ps) @ rest" using Cons.prems(1) by simp
  from readBuffer_frame [OF this] enc_length Cons.prems(2) obtain evs1
    where e1: "readBuffer evs = (Done (Some (nextSerial s, enc p)), evs1)" "data_of evs1 = frames (nextSerial s) (map enc ps) @ rest"
    by auto
  obtain evs' where e2: "data_of evs' = rest" "runRead dec isdial evs1 =
      (map2 RdPacket (serials (nextSerial s) (length ps)) ps @ fst (runRead dec isdial evs'), snd (runRead dec isdial evs'))"
    using Cons.IH [OF e1(2)] Cons.prems(2) by auto
  have "runRead dec isdial evs = (RdPacket (nextSerial s) p # fst (runRead dec isdial evs1), snd (runRead dec isdial evs1))"
    using e1(1) nextSerial_not_heart [of s] dec_enc Cons.prems(2)
    by (simp add: runRead.simps [of dec isdial evs] split: prod.splits)
  then show ?case using e2 by (intro exI [of _ evs']) simp
qed

end

end
