(* ===== verification/Safelink_Context.thy ===== *)
theory Safelink_Context
  imports Safelink_Wire
begin

text \<open>
  The manager of the links between servers (\<open>xnet/safelink_context.go\<close>,
  \<open>xnet/safelink_handler.go\<close>): the event queue between the network threads and the logic thread,
  the handshake with its table of connected remotes, dialling and redialling. Links are objects:
  \<open>cx_lk\<close> holds them by number. The watcher is user code: an argument that is told every call and
  may change the context. The protobuf encoding of \<open>MsgSetUp\<close> (generated code) is an argument too.
  \<open>None\<close> is a panic; the loops of \<open>Tick\<close> are \<open>None\<close> also when they do not end.
\<close>

datatype ev = EvOpen nat | EvClosed nat | EvMessage nat | EvCloseBind string

datatype 'pk wcall = OnOpenCall nat | OnCloseCall nat | OnMessageCall nat 'pk

record 'pk Context =
  cx_ev :: "ev list"
  cx_binds :: "string list"
  cx_closedBinds :: "string list"
  cx_links :: "nat list"
  cx_isstop :: bool
  cx_linkNum :: int
  cx_remoteMap :: "int list"
  cx_dialMap :: "string \<Rightarrow> bool option"
  cx_evCache :: "ev ExpandQueue"
  cx_lk :: "nat \<Rightarrow> 'pk Link"
  cx_calls :: "'pk wcall list"

type_synonym 'pk watcher = "'pk wcall \<Rightarrow> 'pk Context \<Rightarrow> 'pk Context"

definition NewContext :: "(nat \<Rightarrow> 'pk Link) \<Rightarrow> 'pk Context" where
  "NewContext lk = \<lparr>cx_ev = [], cx_binds = [], cx_closedBinds = [], cx_links = [], cx_isstop = False, cx_linkNum = 0,
     cx_remoteMap = [], cx_dialMap = (\<lambda>_. None), cx_evCache = ExpandQueue_empty, cx_lk = lk, cx_calls = []\<rparr>"

definition upd_link :: "nat \<Rightarrow> ('pk Link \<Rightarrow> 'pk Link) \<Rightarrow> 'pk Context \<Rightarrow> 'pk Context" where
  "upd_link i f ctx = ctx\<lparr>cx_lk := (cx_lk ctx)(i := f (cx_lk ctx i))\<rparr>"

definition tell :: "'pk watcher \<Rightarrow> 'pk wcall \<Rightarrow> 'pk Context \<Rightarrow> 'pk Context" where
  "tell wat w ctx = wat w (ctx\<lparr>cx_calls := cx_calls ctx @ [w]\<rparr>)"

section \<open>Events on the logic thread\<close>

definition onePass :: nat where "onePass = 2 ^ 16"

definition normalHandler_OnOpen :: "'pk watcher \<Rightarrow> 'pk Context \<Rightarrow> nat \<Rightarrow> 'pk Context" where
  "normalHandler_OnOpen wat ctx i = tell wat (OnOpenCall i) (ctx\<lparr>cx_links := List.insert i (cx_links ctx)\<rparr>)"

definition normalHandler_OnClose :: "'pk watcher \<Rightarrow> 'pk Context \<Rightarrow> nat \<Rightarrow> 'pk Context option" where
  "normalHandler_OnClose wat ctx i =
     (let ctx = tell wat (OnCloseCall i) (ctx\<lparr>cx_links := removeAll i (cx_links ctx)\<rparr>);
          ctx = upd_link i (\<lambda>l. l\<lparr>l_closed := True\<rparr>) ctx in
      if l_sigClosed (cx_lk ctx i) then None else Some (upd_link i (\<lambda>l. l\<lparr>l_sigClosed := True\<rparr>) ctx))"

text \<open>The loop of \<open>OnMessage\<close>, at most \<open>n\<close> rounds; the flag says that all rounds were used.\<close>

fun passLoop :: "'pk watcher \<Rightarrow> nat \<Rightarrow> nat \<Rightarrow> 'pk Context \<Rightarrow> bool \<times> 'pk Context" where
  "passLoop wat i 0 ctx = (True, ctx)"
| "passLoop wat i (Suc n) ctx =
     (case l_recvq (cx_lk ctx i) of
        [] \<Rightarrow> (False, ctx)
      | (serial, pk) # q \<Rightarrow> passLoop wat i n (tell wat (OnMessageCall i pk) (upd_link i (\<lambda>l. l\<lparr>l_recvq := q\<rparr>) ctx)))"

definition normalHandler_OnMessage :: "'pk watcher \<Rightarrow> 'pk Context \<Rightarrow> nat \<Rightarrow> 'pk Context option" where
  "normalHandler_OnMessage wat ctx i =
     (if l_closed (cx_lk ctx i) then Some ctx
      else let (full, ctx) = passLoop wat i onePass ctx in
        if full
        then do { q \<leftarrow> ExpandQueue_Push (EvMessage 0) (cx_evCache ctx) (EvMessage i); Some (ctx\<lparr>cx_evCache := q\<rparr>) }
        else Some ctx)"

definition dealEvent :: "'pk watcher \<Rightarrow> 'pk Context \<Rightarrow> ev \<Rightarrow> 'pk Context option" where
  "dealEvent wat ctx e =
     (case e of
        EvOpen i \<Rightarrow> Some (normalHandler_OnOpen wat ctx i)
      | EvClosed i \<Rightarrow> normalHandler_OnClose wat ctx i
      | EvMessage i \<Rightarrow> normalHandler_OnMessage wat ctx i
      | EvCloseBind b \<Rightarrow> Some (ctx\<lparr>cx_binds := removeAll b (cx_binds ctx)\<rparr>))"

partial_function (option) tickCache :: "'pk watcher \<Rightarrow> 'pk Context \<Rightarrow> 'pk Context option" where
  "tickCache wat ctx =
     (if ExpandQueue_Len (cx_evCache ctx) = 0 then Some ctx
      else do {
        (e, q) \<leftarrow> ExpandQueue_Pop (EvMessage 0) (cx_evCache ctx);
        ctx \<leftarrow> dealEvent wat (ctx\<lparr>cx_evCache := q\<rparr>) e;
        tickCache wat ctx })"

partial_function (option) tickEvents :: "'pk watcher \<Rightarrow> 'pk Context \<Rightarrow> 'pk Context option" where
  "tickEvents wat ctx =
     (case cx_ev ctx of
        [] \<Rightarrow> Some ctx
      | e # es \<Rightarrow> do { ctx \<leftarrow> dealEvent wat (ctx\<lparr>cx_ev := es\<rparr>) e; tickEvents wat ctx })"

definition Context_Tick :: "'pk watcher \<Rightarrow> 'pk Context \<Rightarrow> 'pk Context option" where
  "Context_Tick wat ctx = do { ctx \<leftarrow> tickCache wat ctx; tickEvents wat ctx }"

section \<open>Dialling\<close>

definition addDialMap :: "'pk Context \<Rightarrow> string \<Rightarrow> 'pk Context" where
  "addDialMap ctx addr = ctx\<lparr>cx_dialMap := (cx_dialMap ctx)(addr := Some True)\<rparr>"

definition delDialMap :: "'pk Context \<Rightarrow> string \<Rightarrow> 'pk Context" where
  "delDialMap ctx addr = ctx\<lparr>cx_dialMap := (cx_dialMap ctx)(addr := None)\<rparr>"

definition needDial :: "'pk Context \<Rightarrow> string \<Rightarrow> bool" where
  "needDial ctx addr = (case cx_dialMap ctx addr of None \<Rightarrow> False | Some b \<Rightarrow> b)"

text \<open>The goroutine of \<open>PostDial\<close>. Other threads may change the context at every round: \<open>seen\<close> does
  so before the test and before the result of the dial is looked at. The waiting times (in
  milliseconds) of the rounds that failed are returned.\<close>

datatype dial_end = DialNotNeeded | DialStopped | DialConnected | DialTrying

fun dialRounds :: "string \<Rightarrow> nat \<Rightarrow> ('pk Context \<Rightarrow> 'pk Context) list \<Rightarrow> bool list \<Rightarrow> 'pk Context \<Rightarrow>
    dial_end \<times> nat list \<times> 'pk Context" where
  "dialRounds addr sleepTime (seen # others) (ok # oks) ctx =
     (if \<not> needDial ctx addr then (DialNotNeeded, [], ctx)
      else let ctx = seen ctx in
        if cx_isstop ctx then (DialStopped, [], if ok then delDialMap ctx addr else ctx)
        else if ok then (DialConnected, [], delDialMap ctx addr)
        else let sleepTime = min (sleepTime + sleepTime * 2) 10000;
                 (r, ts, ctx) = dialRounds addr sleepTime others oks ctx in
          (r, sleepTime # ts, ctx))"
| "dialRounds addr sleepTime _ _ ctx = (DialTrying, [], ctx)"

definition PostDial :: "string \<Rightarrow> ('pk Context \<Rightarrow> 'pk Context) list \<Rightarrow> bool list \<Rightarrow> 'pk Context \<Rightarrow>
    dial_end \<times> nat list \<times> 'pk Context" where
  "PostDial addr others oks ctx = dialRounds addr 100 others oks (addDialMap (ctx\<lparr>cx_isstop := False\<rparr>) addr)"

text \<open>Whether a link that went down is dialled again.\<close>

definition redialIfDisconnect :: "'pk Link \<Rightarrow> bool" where
  "redialIfDisconnect l = (l_isdial l \<and> \<not> l_callClose l)"

definition CloseListen :: "'pk Context \<Rightarrow> string \<Rightarrow> 'pk Context" where
  "CloseListen ctx addr = (if addr \<in> set (cx_binds ctx) then ctx\<lparr>cx_closedBinds := addr # cx_closedBinds ctx\<rparr> else ctx)"

definition CloseDialConnection :: "'pk Context \<Rightarrow> string \<Rightarrow> 'pk Context" where
  "CloseDialConnection ctx addr =
     (let ctx = (case filter (\<lambda>i. l_addr (cx_lk ctx i) = addr) (cx_links ctx) of
                   [] \<Rightarrow> ctx | i # _ \<Rightarrow> upd_link i Link_Close ctx) in
      delDialMap ctx addr)"

definition StopAll :: "'pk Context \<Rightarrow> 'pk Context" where
  "StopAll ctx =
     (let ctx = ctx\<lparr>cx_isstop := True, cx_closedBinds := cx_binds ctx @ cx_closedBinds ctx, cx_binds := []\<rparr> in
      fold (\<lambda>i. upd_link i Link_Close) (cx_links ctx) ctx)"

section \<open>The handshake\<close>

definition LinkSignature :: "64 word" where "LinkSignature = 0x6675636b7363616e"

record MsgSetUp =
  Sign :: "64 word"
  ID :: int
  Name :: string

text \<open>\<open>exchangeMessage\<close> on a payload: a head with the length, the payload, then the same from the
  other side. The bytes written are returned with the message received.\<close>

definition exchangeMessage :: "nat option list \<Rightarrow> conn_read list \<Rightarrow> bytes \<Rightarrow> bytes option outcome \<times> bytes \<times> conn_read list" where
  "exchangeMessage answers evs payload =
     (let buf = le_bytes 4 (of_nat (length payload) :: u32) @ replicate (headSize - 4) 0 @ payload in
      case writeFull answers buf of
        (Blocked, w, _) \<Rightarrow> (Blocked, w, evs)
      | (Done False, w, _) \<Rightarrow> (Done None, w, evs)
      | (Done True, w, _) \<Rightarrow>
          (case readFull headSize evs of
             (Done (Some head), evs1) \<Rightarrow>
               let n = unat (le_word (take 4 head) :: u32) in
               if n < 1 \<or> n > 2 ^ 20 then (Done None, w, evs1)
               else (case readFull n evs1 of (r, evs2) \<Rightarrow> (r, w, evs2))
           | (r, evs1) \<Rightarrow> (r, w, evs1)))"

datatype setup_end = SetUpBlocked | SetUpFailed | SetUpDuplicate | SetUpOpen

text \<open>\<open>setUpLink\<close> up to the start of the read thread. \<open>unmarshal\<close> changes the message it is called
  on, here the link's own, and may leave it changed in part or not at all when it fails; \<open>None\<close> is a
  panic, from which the code recovers.\<close>

definition registerRemote :: "'pk Context \<Rightarrow> int \<Rightarrow> bool \<times> 'pk Context" where
  "registerRemote ctx rid =
     (if rid \<in> set (cx_remoteMap ctx) then (True, ctx) else (False, ctx\<lparr>cx_remoteMap := rid # cx_remoteMap ctx\<rparr>))"

definition setUpLink :: "(MsgSetUp \<Rightarrow> bytes) \<Rightarrow> (MsgSetUp \<Rightarrow> bytes \<Rightarrow> MsgSetUp option) \<Rightarrow> nat option list \<Rightarrow> conn_read list \<Rightarrow>
    nat \<Rightarrow> 'pk Context \<Rightarrow> setup_end \<times> bytes \<times> 'pk Context" where
  "setUpLink marshal unmarshal answers evs i ctx =
     (let l = cx_lk ctx i; own = \<lparr>Sign = LinkSignature, ID = l_localID l, Name = l_localName l\<rparr>;
          fail = upd_link i (\<lambda>l. l\<lparr>l_connClosed := True\<rparr>) in
      case exchangeMessage answers evs (marshal own) of
        (Blocked, w, _) \<Rightarrow> (SetUpBlocked, w, ctx)
      | (Done None, w, _) \<Rightarrow> (SetUpFailed, w, fail ctx)
      | (Done (Some recv), w, _) \<Rightarrow>
          let setup = (case unmarshal own recv of None \<Rightarrow> own\<lparr>Sign := 0\<rparr> | Some m \<Rightarrow> m) in
          if Sign setup \<noteq> LinkSignature then (SetUpFailed, w, fail ctx)
          else let ctx = upd_link i (\<lambda>l. l\<lparr>l_remoteID := ID setup, l_remoteName := Name setup\<rparr>) ctx;
                   (dup, ctx) = registerRemote ctx (ID setup) in
            if dup then (SetUpDuplicate, w, fail ctx)
            else (SetUpOpen, w, ctx\<lparr>cx_ev := cx_ev ctx @ [EvOpen i], cx_linkNum := cx_linkNum ctx + 1\<rparr>))"

text \<open>What \<open>setUpLink\<close> does when its send thread ends: the link is taken out of the table of remotes.\<close>

definition endLink :: "nat \<Rightarrow> 'pk Context \<Rightarrow> 'pk Context" where
  "endLink i ctx = ctx\<lparr>cx_linkNum := cx_linkNum ctx - 1, cx_remoteMap := removeAll (l_remoteID (cx_lk ctx i)) (cx_remoteMap ctx)\<rparr>"

section \<open>Queues with a wake-up\<close>

text \<open>A producer that appends an item and then, in a second step, wakes the consumer when the queue
  has exactly one item; a consumer that, once awake, takes items until it finds the queue empty, or
  stops earlier and wakes itself. The contract on the steps, and what follows: items are handed on
  in order, and a queue that is not empty never waits for an event that does not come.\<close>

locale wakeup =
  fixes start :: 's and step :: "'s \<Rightarrow> 's \<Rightarrow> bool" and items :: "'s \<Rightarrow> 'a list"
    and put got :: "'s \<Rightarrow> 'a list" and awake looking :: "'s \<Rightarrow> bool"
  assumes start_empty: "items start = []" "put start = []" "got start = []"
    and steps: "step s t \<Longrightarrow>
      (\<exists>x. \<not> looking s \<and> looking t \<and> items t = items s @ [x] \<and> put t = put s @ [x] \<and> got t = got s \<and> (awake s \<longrightarrow> awake t)) \<or>
      (looking s \<and> items t = items s \<and> put t = put s \<and> got t = got s \<and> (awake s \<or> length (items s) = 1 \<longrightarrow> awake t)) \<or>
      (\<exists>x. items s = x # items t \<and> put t = put s \<and> got t = got s @ [x] \<and> awake t \<and> looking t = looking s) \<or>
      (items s = [] \<and> items t = [] \<and> put t = put s \<and> got t = got s \<and> looking t = looking s) \<or>
      (items t = items s \<and> put t = put s \<and> got t = got s \<and> awake t \<and> looking t = looking s)"
begin

inductive reached :: "'s \<Rightarrow> bool" where
  "reached start"
| "reached s \<Longrightarrow> step s t \<Longrightarrow> reached t"

lemma no_lost_wakeup:
  assumes "reached s"
  shows "got s @ items s = put s \<and> (items s \<noteq> [] \<longrightarrow> awake s \<or> looking s \<and> length (items s) = 1)"
  using assms
proof (induction rule: reached.induct)
  case 1
  show ?case by (simp add: start_empty)
next
  case (2 s t)
  from steps [OF 2(2)] 2(3) show ?case by (elim disjE exE conjE) auto
qed

end

section \<open>The receiving side of a link\<close>






section \<open>The sending side of a link\<close>

text \<open>\<open>Send\<close> on the logic thread pushes and then signals if the queue has one packet; the send thread
  takes the signal and pops until the queue is empty, or stops with a full buffer and signals itself.
  The queue is the two-queue buffer, whose own interleavings are those of the theory of queues.\<close>

record 'pk send_state =
  ss_queue :: "'pk list"
  ss_signal :: bool
  ss_check :: bool
  ss_draining :: bool
  ss_sent :: "'pk list"
  ss_written :: "'pk list"

definition send_start :: "'pk send_state" where
  "send_start = \<lparr>ss_queue = [], ss_signal = False, ss_check = False, ss_draining = False, ss_sent = [], ss_written = []\<rparr>"

inductive send_step :: "'pk send_state \<Rightarrow> 'pk send_state \<Rightarrow> bool" where
  send_push: "\<not> ss_check s \<Longrightarrow>
    send_step s (s\<lparr>ss_queue := ss_queue s @ [pk], ss_sent := ss_sent s @ [pk], ss_check := True\<rparr>)"
| send_check: "ss_check s \<Longrightarrow> send_step s (s\<lparr>ss_check := False, ss_signal := (ss_signal s \<or> length (ss_queue s) = 1)\<rparr>)"
| send_wake: "\<not> ss_draining s \<Longrightarrow> ss_signal s \<Longrightarrow> send_step s (s\<lparr>ss_signal := False, ss_draining := True\<rparr>)"
| send_pop: "ss_draining s \<Longrightarrow> ss_queue s = pk # q \<Longrightarrow> send_step s (s\<lparr>ss_queue := q, ss_written := ss_written s @ [pk]\<rparr>)"
| send_pop_full: "ss_draining s \<Longrightarrow> ss_queue s = pk # q \<Longrightarrow>
    send_step s (s\<lparr>ss_queue := q, ss_written := ss_written s @ [pk], ss_signal := True, ss_draining := False\<rparr>)"
| send_empty: "ss_draining s \<Longrightarrow> ss_queue s = [] \<Longrightarrow> send_step s (s\<lparr>ss_draining := False\<rparr>)"

inductive send_run :: "'pk send_state \<Rightarrow> bool" where
  send_run_start: "send_run send_start"
| send_run_step: "send_run s \<Longrightarrow> send_step s t \<Longrightarrow> send_run t"

interpretation sendw: wakeup send_start send_step ss_queue ss_sent ss_written
    "\<lambda>s. ss_signal s \<or> ss_draining s" ss_check
proof unfold_locales
  fix s t :: "'a send_state"
  assume "send_step s t"
  then show "(\<exists>x. \<not> ss_check s \<and> ss_check t \<and> ss_queue t = ss_queue s @ [x] \<and> ss_sent t = ss_sent s @ [x] \<and> ss_written t = ss_written s \<and> (ss_signal s \<or> ss_draining s \<longrightarrow> ss_signal t \<or> ss_draining t)) \<or>
      (ss_check s \<and> ss_queue t = ss_queue s \<and> ss_sent t = ss_sent s \<and> ss_written t = ss_written s \<and> ((ss_signal s \<or> ss_draining s) \<or> length (ss_queue s) = 1 \<longrightarrow> ss_signal t \<or> ss_draining t)) \<or>
      (\<exists>x. ss_queue s = x # ss_queue t \<and> ss_sent t = ss_sent s \<and> ss_written t = ss_written s @ [x] \<and> (ss_signal t \<or> ss_draining t) \<and> ss_check t = ss_check s) \<or>
      (ss_queue s = [] \<and> ss_queue t = [] \<and> ss_sent t = ss_sent s \<and> ss_written t = ss_written s \<and> ss_check t = ss_check s) \<or>
      (ss_queue t = ss_queue s \<and> ss_sent t = ss_sent s \<and> ss_written t = ss_written s \<and> (ss_signal t \<or> ss_draining t) \<and> ss_check t = ss_check s)" by (cases rule: send_step.cases) simp_all
qed (simp_all add: send_start_def)


lemma send_run_reached: "send_run s \<Longrightarrow> sendw.reached s"
  by (induction rule: send_run.induct) (auto intro: sendw.reached.intros)

section \<open>Properties\<close>




text \<open>C27: In every interleaving of \<open>Send\<close> on the logic thread with the send thread, the packets written
  followed by those queued are the packets sent, in order; and when packets are queued, the signal
  is set, the send thread is taking packets, or \<open>Send\<close> is just about to set the signal.\<close>

theorem link_send_no_lost_wakeup:
  assumes "send_run s"
  shows "ss_written s @ ss_queue s = ss_sent s \<and>
    (ss_queue s \<noteq> [] \<longrightarrow> ss_signal s \<or> ss_draining s \<or> ss_check s \<and> length (ss_queue s) = 1)"
  using sendw.no_lost_wakeup [OF send_run_reached [OF assms]] by auto

theorem link_send_no_lost_wakeup_witness:
  "let s = send_start\<lparr>ss_queue := [7 :: nat], ss_sent := [7], ss_check := True\<rparr> in
   ss_written s @ ss_queue s = [7] \<and> ss_check s"
proof -
  have "send_run (send_start\<lparr>ss_queue := [7 :: nat], ss_sent := [7], ss_check := True\<rparr>)"
    using send_run_step [OF send_run_start send_push, of 7] by (simp add: send_start_def)
  from link_send_no_lost_wakeup [OF this] show ?thesis by (simp add: Let_def)
qed

text \<open>What one side of the handshake writes is what the other side reads.\<close>

definition setup_frame :: "bytes \<Rightarrow> bytes" where
  "setup_frame payload = le_bytes 4 (of_nat (length payload) :: u32) @ replicate (headSize - 4) 0 @ payload"

lemma exchange_spec:
  assumes "writeFull answers (setup_frame payload) = (Done True, w, as)"
    "data_of evs = setup_frame other @ rest" "1 \<le> length other" "length other \<le> 2 ^ 20"
  shows "\<exists>evs'. exchangeMessage answers evs payload = (Done (Some other), setup_frame payload, evs') \<and> data_of evs' = rest"
proof -
  let ?head = "le_bytes 4 (of_nat (length other) :: u32) @ replicate (headSize - 4) 0"
  have len: "length ?head = headSize" by (simp add: headSize_def)
  obtain evs1 where h: "readFull headSize evs = (Done (Some ?head), evs1)" "data_of evs1 = other @ rest"
    using readFull_data [of headSize evs] assms(2) len by (auto simp: setup_frame_def)
  have "unat (le_word (take 4 ?head) :: u32) = length other" using assms(4) by (simp add: wire_simps)
  moreover obtain evs2 where "readFull (length other) evs1 = (Done (Some other), evs2)" "data_of evs2 = rest"
    using readFull_data [of "length other" evs1] h(2) by auto
  moreover have "w = setup_frame payload" using writeFull_done [OF assms(1)] .
  ultimately show ?thesis
    using assms h by (auto simp: exchangeMessage_def setup_frame_def Let_def not_less)
qed

text \<open>When a set-up message arrives, in whatever chunks, that decodes to \<open>m\<close> on top of the link's own
  message, with the signature, then the link learns number and name in \<open>m\<close>, and opens or closes as a
  duplicate.\<close>

lemma handshake_result:
  fixes ctx :: "'pk Context"
  assumes "unmarshal own payload = Some m" "Sign m = LinkSignature" "1 \<le> length payload" "length payload \<le> 2 ^ 20"
    "own = \<lparr>Sign = LinkSignature, ID = l_localID (cx_lk ctx i), Name = l_localName (cx_lk ctx i)\<rparr>"
    "data_of evs = setup_frame payload @ rest"
    "writeFull answers (setup_frame (marshal own)) = (Done True, w, as)"
  shows "\<exists>ctx'. setUpLink marshal unmarshal answers evs i ctx =
      (if ID m \<in> set (cx_remoteMap ctx) then SetUpDuplicate else SetUpOpen, setup_frame (marshal own), ctx') \<and>
    l_remoteID (cx_lk ctx' i) = ID m \<and> l_remoteName (cx_lk ctx' i) = Name m \<and>
    set (cx_remoteMap ctx') = insert (ID m) (set (cx_remoteMap ctx)) \<and>
    (if ID m \<in> set (cx_remoteMap ctx) then l_connClosed (cx_lk ctx' i) \<and> cx_ev ctx' = cx_ev ctx
     else cx_ev ctx' = cx_ev ctx @ [EvOpen i])"
proof -
  obtain evs' where "exchangeMessage answers evs (marshal own) = (Done (Some payload), setup_frame (marshal own), evs')"
    using exchange_spec [OF assms(7,6,3,4)] by blast
  then show ?thesis
    using assms(1,2) unfolding assms(5)
    by (auto simp: setUpLink_def registerRemote_def upd_link_def Let_def)
qed

text \<open>A message that decodes to one with another signature closes the link.\<close>

lemma handshake_refused:
  fixes ctx :: "'pk Context"
  assumes "unmarshal own payload = Some m" "Sign m \<noteq> LinkSignature" "1 \<le> length payload" "length payload \<le> 2 ^ 20"
    "own = \<lparr>Sign = LinkSignature, ID = l_localID (cx_lk ctx i), Name = l_localName (cx_lk ctx i)\<rparr>"
    "data_of evs = setup_frame payload @ rest"
    "writeFull answers (setup_frame (marshal own)) = (Done True, w, as)"
  shows "\<exists>ctx'. setUpLink marshal unmarshal answers evs i ctx = (SetUpFailed, setup_frame (marshal own), ctx') \<and>
    l_connClosed (cx_lk ctx' i) \<and> cx_remoteMap ctx' = cx_remoteMap ctx \<and> cx_ev ctx' = cx_ev ctx"
proof -
  obtain evs' where "exchangeMessage answers evs (marshal own) = (Done (Some payload), setup_frame (marshal own), evs')"
    using exchange_spec [OF assms(7,6,3,4)] by blast
  then show ?thesis using assms(1,2) unfolding assms(5) by (auto simp: setUpLink_def upd_link_def Let_def)
qed

lemma writeFull_all: "b \<noteq> [] \<Longrightarrow> length b \<le> n \<Longrightarrow> writeFull (Some n # as) b = (Done True, b, as)"
  by (cases b) auto

text \<open>A concrete encoding to try runs on: the number alone.\<close>

definition demo_marshal :: "MsgSetUp \<Rightarrow> bytes" where "demo_marshal m = [word_of_int (ID m)]"

definition demo_unmarshal :: "MsgSetUp \<Rightarrow> bytes \<Rightarrow> MsgSetUp option" where
  "demo_unmarshal m b = (if b = [0] then Some m else Some \<lparr>Sign = LinkSignature, ID = uint (hd b), Name = ''game''\<rparr>)"

definition demo_ctx :: "nat Context" where
  "demo_ctx = NewContext (\<lambda>_. newLink ''10.0.0.2:90'' 5 ''gate'' True)"

text \<open>The runs of a context: \<open>A\<close> are the links whose send threads run. A new link is set up, a send
  thread ends, and everything else may happen that keeps the table and the numbers of running links.\<close>

inductive ctx_run :: "'pk Context \<Rightarrow> nat set \<Rightarrow> bool" where
  ctx_new: "ctx_run (NewContext lk) {}"
| ctx_setup: "ctx_run ctx A \<Longrightarrow> i \<notin> A \<Longrightarrow> setUpLink marshal unmarshal answers evs i ctx = (r, w, ctx') \<Longrightarrow>
    ctx_run ctx' (if r = SetUpOpen then insert i A else A)"
| ctx_end: "ctx_run ctx A \<Longrightarrow> i \<in> A \<Longrightarrow> ctx_run (endLink i ctx) (A - {i})"
| ctx_other: "ctx_run ctx A \<Longrightarrow> cx_remoteMap ctx' = cx_remoteMap ctx \<Longrightarrow> cx_linkNum ctx' = cx_linkNum ctx \<Longrightarrow>
    (\<And>i. i \<in> A \<Longrightarrow> l_remoteID (cx_lk ctx' i) = l_remoteID (cx_lk ctx i)) \<Longrightarrow> ctx_run ctx' A"

lemma setUpLink_cases:
  assumes "setUpLink marshal unmarshal answers evs i ctx = (r, w, ctx')"
  shows "(\<forall>j. j \<noteq> i \<longrightarrow> cx_lk ctx' j = cx_lk ctx j) \<and>
    (if r = SetUpOpen then l_remoteID (cx_lk ctx' i) \<notin> set (cx_remoteMap ctx) \<and>
       cx_remoteMap ctx' = l_remoteID (cx_lk ctx' i) # cx_remoteMap ctx \<and> cx_linkNum ctx' = cx_linkNum ctx + 1
     else cx_remoteMap ctx' = cx_remoteMap ctx \<and> cx_linkNum ctx' = cx_linkNum ctx)"
  using assms
  by (auto simp: setUpLink_def registerRemote_def upd_link_def Let_def
      split: prod.splits outcome.splits option.splits if_splits)

lemma ctx_run_table:
  "ctx_run ctx A \<Longrightarrow> finite A \<and> inj_on (\<lambda>i. l_remoteID (cx_lk ctx i)) A \<and>
     set (cx_remoteMap ctx) = (\<lambda>i. l_remoteID (cx_lk ctx i)) ` A \<and> cx_linkNum ctx = int (card A)"
proof (induction rule: ctx_run.induct)
  case (ctx_setup ctx A i marshal unmarshal answers evs r w ctx')
  note s = setUpLink_cases [OF ctx_setup.hyps(3)]
  have same: "l_remoteID (cx_lk ctx' j) = l_remoteID (cx_lk ctx j)" if "j \<in> A" for j using s that ctx_setup.hyps(2) by auto
  have inj: "inj_on (\<lambda>i. l_remoteID (cx_lk ctx' i)) A = inj_on (\<lambda>i. l_remoteID (cx_lk ctx i)) A"
    and img: "(\<lambda>i. l_remoteID (cx_lk ctx' i)) ` A = (\<lambda>i. l_remoteID (cx_lk ctx i)) ` A"
    using same by (auto simp: inj_on_def)
  show ?case
  proof (cases "r = SetUpOpen")
    case True
    then show ?thesis using s ctx_setup inj img by (simp add: card_insert_if)
  next
    case False
    then show ?thesis using s ctx_setup inj img by simp
  qed
next
  case (ctx_end ctx A i)
  have "(\<lambda>i. l_remoteID (cx_lk ctx i)) ` (A - {i}) = (\<lambda>i. l_remoteID (cx_lk ctx i)) ` A - {l_remoteID (cx_lk ctx i)}"
    using ctx_end by (auto simp: inj_on_def)
  moreover have "card A > 0" using ctx_end card_gt_0_iff by blast
  ultimately show ?case using ctx_end by (auto simp: endLink_def inj_on_diff card_Diff_singleton)
next
  case (ctx_other ctx A ctx')
  then have "(\<lambda>i. l_remoteID (cx_lk ctx' i)) ` A = (\<lambda>i. l_remoteID (cx_lk ctx i)) ` A" by auto
  then show ?case using ctx_other by (simp add: inj_on_def)
qed (simp add: NewContext_def)

text \<open>C28: At any time at most one link to a remote runs: the running links have different remote numbers,
  the table of remotes holds exactly those, and the link counter counts them.\<close>

theorem link_remote_unique:
  assumes "ctx_run ctx A"
  shows "(\<forall>i \<in> A. \<forall>j \<in> A. l_remoteID (cx_lk ctx i) = l_remoteID (cx_lk ctx j) \<longrightarrow> i = j) \<and>
    set (cx_remoteMap ctx) = (\<lambda>i. l_remoteID (cx_lk ctx i)) ` A \<and> cx_linkNum ctx = int (card A)"
  using ctx_run_table [OF assms] by (auto simp: inj_on_def)

theorem link_remote_unique_witness:
  "\<exists>ctx :: nat Context. ctx_run ctx {0} \<and> set (cx_remoteMap ctx) = {l_remoteID (cx_lk ctx 0)} \<and> cx_linkNum ctx = 1"
proof -
  let ?own = "\<lparr>Sign = LinkSignature, ID = 5, Name = ''gate''\<rparr>"
  have w: "writeFull [Some 20] (setup_frame (demo_marshal ?own)) = (Done True, setup_frame (demo_marshal ?own), [])"
    by (rule writeFull_all) (simp_all add: setup_frame_def demo_marshal_def headSize_def)
  obtain evs' where "exchangeMessage [Some 20] [Chunk (setup_frame [9])] (demo_marshal ?own) =
      (Done (Some [9]), setup_frame (demo_marshal ?own), evs')"
    using exchange_spec [OF w, of "[Chunk (setup_frame [9])]" "[9]" "[]"] by auto
  then obtain w' ctx' where "setUpLink demo_marshal demo_unmarshal [Some 20] [Chunk (setup_frame [9])] 0 demo_ctx = (SetUpOpen, w', ctx')"
    by (auto simp: setUpLink_def demo_unmarshal_def registerRemote_def upd_link_def demo_ctx_def NewContext_def newLink_def Let_def)
  from ctx_setup [OF ctx_new [of "\<lambda>_. newLink ''10.0.0.2:90'' 5 ''gate'' True"] _ this [unfolded demo_ctx_def]]
  have "ctx_run ctx' {0}" by simp
  then show ?thesis using link_remote_unique [of ctx' "{0}"] by (intro exI [of _ ctx']) simp
qed

end
