(* ===== verification/Rpc_Format.thy ===== *)
theory Rpc_Format
  imports Safelink_Wire
begin

text \<open>
  The packet formatter of the remote procedure calls (\<open>xrpc/saferpcstatic.go\<close>, from \<open>nameSize\<close> to
  \<open>rpcFormatter\<close>). Names are Isabelle strings, on the wire bytes. Protobuf is third-party code: its
  registry and the generated marshalling are the argument \<open>pb\<close>. A buffer to write into starts with
  arbitrary contents \<open>mem\<close>. \<open>None\<close> is a panic (an index or slice out of range, an unknown message
  type); a decoder's \<open>Some None\<close> is its nil.
\<close>

type_synonym u64 = "64 word"

definition str_bytes :: "string \<Rightarrow> bytes" where "str_bytes s = map (\<lambda>c. word_of_nat (of_char c)) s"
definition bytes_str :: "bytes \<Rightarrow> string" where "bytes_str b = map (\<lambda>w. char_of (unat w)) b"

lemma length_str_bytes [simp]: "length (str_bytes s) = length s"
  by (simp add: str_bytes_def)

lemma bytes_str_bytes [simp]: "bytes_str (str_bytes s) = s"
  by (induction s) (simp_all add: bytes_str_def str_bytes_def unat_of_nat)

section \<open>Names\<close>

definition nameSize :: "string \<Rightarrow> nat" where
  "nameSize name = 1 + length name"

text \<open>One byte for the length: a longer name is cut to its length modulo 256.\<close>

definition nameWrite :: "bytes \<Rightarrow> string \<Rightarrow> (nat \<times> bytes) option" where
  "nameWrite buf name =
     (if buf = [] then None
      else let n = length name mod 256; buf = buf[0 := word_of_nat n]; s = str_bytes (take n name) in
        Some (1 + min (length buf - 1) (length s), hd buf # go_copy (tl buf) s))"

definition nameRead :: "bytes \<Rightarrow> (string \<times> nat) option" where
  "nameRead buf =
     (if buf = [] then None
      else let n = unat (hd buf) in
        if length buf < 1 + n then None else Some (bytes_str (take n (tl buf)), 1 + n))"

section \<open>Messages\<close>

definition RpcProtocol :: byte where "RpcProtocol = 1"
definition RpcTypeResponse :: byte where "RpcTypeResponse = 0"
definition RpcTypeRequest :: byte where "RpcTypeRequest = 1"

record 'm protobuf =
  pb_name :: "'m \<Rightarrow> string"
  pb_size :: "'m \<Rightarrow> nat"
  pb_marshalTo :: "'m \<Rightarrow> bytes option"
  pb_registered :: "string \<Rightarrow> bool"
  pb_unmarshal :: "string \<Rightarrow> bytes \<Rightarrow> 'm option"

definition pbFormatter_Size :: "'m protobuf \<Rightarrow> 'm option \<Rightarrow> nat" where
  "pbFormatter_Size pb m = (case m of None \<Rightarrow> 1 | Some m \<Rightarrow> 1 + nameSize (pb_name pb m) + 8 + pb_size pb m)"

text \<open>\<open>buf[pos:]\<close> written by a function that returns how much it wrote.\<close>

definition at_pos :: "nat \<Rightarrow> bytes \<Rightarrow> (bytes \<Rightarrow> (nat \<times> bytes) option) \<Rightarrow> (nat \<times> bytes) option" where
  "at_pos pos buf f =
     (if pos > length buf then None else do { (n, rest) \<leftarrow> f (drop pos buf); Some (pos + n, take pos buf @ rest) })"

definition putUint64 :: "u64 \<Rightarrow> bytes \<Rightarrow> (nat \<times> bytes) option" where
  "putUint64 v buf = (if length buf < 8 then None else Some (8, be_bytes 8 v @ drop 8 buf))"

definition putByte :: "byte \<Rightarrow> bytes \<Rightarrow> (nat \<times> bytes) option" where
  "putByte v buf = (if buf = [] then None else Some (1, v # tl buf))"

definition pbFormatter_Write :: "'m protobuf \<Rightarrow> 'm option \<Rightarrow> bytes \<Rightarrow> (nat \<times> bytes) option" where
  "pbFormatter_Write pb m buf =
     (case m of
        None \<Rightarrow> putByte 0 buf
      | Some m \<Rightarrow> do {
          (pos, buf) \<leftarrow> putByte RpcProtocol buf;
          (pos, buf) \<leftarrow> at_pos pos buf (\<lambda>b. nameWrite b (pb_name pb m));
          (pos, buf) \<leftarrow> at_pos pos buf (putUint64 (word_of_nat (pb_size pb m)));
          (case pb_marshalTo pb m of
             None \<Rightarrow> Some (1, buf[0 := 0])
           | Some body \<Rightarrow> at_pos pos buf (\<lambda>b. if length b < length body then None else Some (length body, body @ drop (length body) b))) })"

definition pbRead :: "'m protobuf \<Rightarrow> bytes \<Rightarrow> ('m option \<times> nat \<times> bool) option" where
  "pbRead pb buf =
     (if buf = [] then None
      else if hd buf = RpcProtocol
      then do {
        (name, n) \<leftarrow> nameRead (tl buf);
        let pos = 1 + n in
        if length buf < pos + 8 then None
        else let sz = uint (be_word (take 8 (drop pos buf)) :: u64); pos = pos + 8 in
          if \<not> pb_registered pb name then None
          else if int (length buf) < int pos + sz then None
          else (case pb_unmarshal pb name (take (nat sz) (drop pos buf)) of
              None \<Rightarrow> Some (None, pos + nat sz, False)
            | Some m \<Rightarrow> Some (Some m, pos + nat sz, True)) }
      else Some (None, 1, True))"

section \<open>Packets\<close>

datatype 'm rpcPacket =
    Request (rq_srvName: string) (rq_seq: u64) (rq_arg: "'m option")
  | Response (rs_srvName: string) (rs_seq: u64) (rs_err: string) (rs_reply: "'m option")

definition packetSize :: "'m protobuf \<Rightarrow> 'm rpcPacket \<Rightarrow> nat" where
  "packetSize pb pk =
     (case pk of
        Response srv sq err m \<Rightarrow> 1 + nameSize srv + 8 + nameSize err + pbFormatter_Size pb m
      | Request srv sq m \<Rightarrow> 1 + nameSize srv + 8 + pbFormatter_Size pb m)"

text \<open>What \<open>WritetoBuffer\<close> makes of the buffer that \<open>WritePacket\<close> gave it.\<close>

definition rpc_writeBody :: "'m protobuf \<Rightarrow> 'm rpcPacket \<Rightarrow> bytes \<Rightarrow> (nat \<times> bytes) option" where
  "rpc_writeBody pb pk buf =
     (case pk of
        Response srv sq err m \<Rightarrow> do {
          (pos, buf) \<leftarrow> putByte RpcTypeResponse buf;
          (pos, buf) \<leftarrow> at_pos pos buf (\<lambda>b. nameWrite b srv);
          (pos, buf) \<leftarrow> at_pos pos buf (putUint64 sq);
          (pos, buf) \<leftarrow> at_pos pos buf (\<lambda>b. nameWrite b err);
          at_pos pos buf (pbFormatter_Write pb m) }
      | Request srv sq m \<Rightarrow> do {
          (pos, buf) \<leftarrow> putByte RpcTypeRequest buf;
          (pos, buf) \<leftarrow> at_pos pos buf (\<lambda>b. nameWrite b srv);
          (pos, buf) \<leftarrow> at_pos pos buf (putUint64 sq);
          at_pos pos buf (pbFormatter_Write pb m) })"

definition rpc_WritetoBuffer :: "'m protobuf \<Rightarrow> (nat \<Rightarrow> bytes) \<Rightarrow> 'm rpcPacket \<Rightarrow> bytes" where
  "rpc_WritetoBuffer pb mem pk = (case rpc_writeBody pb pk (mem (packetSize pb pk)) of None \<Rightarrow> [] | Some (n, buf) \<Rightarrow> buf)"

definition rpc_ReadfromBuffer :: "'m protobuf \<Rightarrow> bytes \<Rightarrow> 'm rpcPacket option option" where
  "rpc_ReadfromBuffer pb buf =
     (if buf = [] then None
      else if hd buf = RpcTypeResponse
      then do {
        (srv, n) \<leftarrow> nameRead (tl buf);
        let pos = 1 + n in
        if length buf < pos + 8 then None
        else let sq = (be_word (take 8 (drop pos buf)) :: u64); pos = pos + 8 in do {
          (err, n) \<leftarrow> nameRead (drop pos buf);
          (m, n, ok) \<leftarrow> pbRead pb (drop (pos + n) buf);
          Some (if ok then Some (Response srv sq err m) else None) } }
      else if hd buf = RpcTypeRequest
      then do {
        (srv, n) \<leftarrow> nameRead (tl buf);
        let pos = 1 + n in
        if length buf < pos + 8 then None
        else let sq = (be_word (take 8 (drop pos buf)) :: u64) in do {
          (m, n, ok) \<leftarrow> pbRead pb (drop (pos + 8) buf);
          Some (if ok then Some (Request srv sq m) else None) } }
      else Some None)"

section \<open>What the writers write\<close>

definition writes :: "(bytes \<Rightarrow> (nat \<times> bytes) option) \<Rightarrow> bytes \<Rightarrow> bool" where
  "writes f x \<longleftrightarrow> (\<forall>b. length x \<le> length b \<longrightarrow> f b = Some (length x, x @ drop (length x) b))"

definition name_bytes :: "string \<Rightarrow> bytes" where
  "name_bytes name = word_of_nat (length name) # str_bytes name"

lemma writes_putByte: "writes (putByte v) [v]"
  by (auto simp: writes_def putByte_def drop_Suc)

lemma writes_putUint64: "writes (putUint64 v) (be_bytes 8 v)"
  by (simp add: writes_def putUint64_def)

lemma writes_nameWrite: "length name < 256 \<Longrightarrow> writes (\<lambda>b. nameWrite b name) (name_bytes name)"
  by (auto simp: writes_def nameWrite_def name_bytes_def go_copy_def Let_def neq_Nil_conv Suc_le_length_iff)

text \<open>Writing at the position reached so far appends.\<close>

definition then_at :: "(bytes \<Rightarrow> (nat \<times> bytes) option) \<Rightarrow> (bytes \<Rightarrow> (nat \<times> bytes) option) \<Rightarrow> bytes \<Rightarrow> (nat \<times> bytes) option" where
  "then_at f g b = do { (pos, b) \<leftarrow> f b; at_pos pos b g }"

lemma writes_then: "writes f x \<Longrightarrow> writes g y \<Longrightarrow> writes (then_at f g) (x @ y)"
  by (auto simp: writes_def then_at_def at_pos_def add.commute)

lemmas writes_intros = writes_then writes_putByte writes_putUint64 writes_nameWrite

definition msg_bytes :: "'m protobuf \<Rightarrow> 'm option \<Rightarrow> bytes" where
  "msg_bytes pb m = (case m of None \<Rightarrow> [0]
     | Some m \<Rightarrow> [RpcProtocol] @ name_bytes (pb_name pb m) @ be_bytes 8 (word_of_nat (pb_size pb m) :: u64) @ the (pb_marshalTo pb m))"

text \<open>A message that can be sent: its name fits its length byte and is registered, marshalling gives
  as many bytes as announced, and unmarshalling gives the message back. These are the documented
  promises of the generated code, here for one message.\<close>

definition msg_ok :: "'m protobuf \<Rightarrow> 'm option \<Rightarrow> bool" where
  "msg_ok pb m = (case m of None \<Rightarrow> True
     | Some m \<Rightarrow> length (pb_name pb m) < 256 \<and> pb_registered pb (pb_name pb m) \<and> pb_size pb m < 2 ^ 63 \<and>
         (case pb_marshalTo pb m of None \<Rightarrow> False
          | Some b \<Rightarrow> length b = pb_size pb m \<and> pb_unmarshal pb (pb_name pb m) b = Some m))"

lemma length_name_bytes [simp]: "length (name_bytes s) = nameSize s"
  by (simp add: name_bytes_def nameSize_def)

lemma length_msg_bytes: "msg_ok pb m \<Longrightarrow> length (msg_bytes pb m) = pbFormatter_Size pb m"
  by (auto simp: msg_ok_def msg_bytes_def pbFormatter_Size_def split: option.splits)

lemma writes_msg:
  assumes "msg_ok pb m"
  shows "writes (pbFormatter_Write pb m) (msg_bytes pb m)"
proof (cases m)
  case None
  then show ?thesis using writes_putByte [of 0] by (simp add: msg_bytes_def pbFormatter_Write_def writes_def)
next
  case (Some m')
  obtain body where body: "pb_marshalTo pb m' = Some body" "length (pb_name pb m') < 256"
    using assms Some by (auto simp: msg_ok_def split: option.splits)
  let ?body = "\<lambda>b. if length b < length body then None else Some (length body, body @ drop (length body) b)"
  have "pbFormatter_Write pb m = then_at (then_at (then_at (putByte RpcProtocol) (\<lambda>b. nameWrite b (pb_name pb m')))
      (putUint64 (word_of_nat (pb_size pb m')))) ?body"
    using Some body(1) by (simp add: pbFormatter_Write_def then_at_def fun_eq_iff split_def)
  moreover have "writes ?body body" by (simp add: writes_def)
  ultimately have "writes (pbFormatter_Write pb m)
      ((([RpcProtocol] @ name_bytes (pb_name pb m')) @ be_bytes 8 (word_of_nat (pb_size pb m') :: u64)) @ body)"
    using body(2) by (simp only:) (intro writes_intros)
  then show ?thesis using Some body(1) by (simp add: msg_bytes_def)
qed

definition packet_bytes :: "'m protobuf \<Rightarrow> 'm rpcPacket \<Rightarrow> bytes" where
  "packet_bytes pb pk =
     (case pk of
        Response srv sq err m \<Rightarrow> [RpcTypeResponse] @ name_bytes srv @ be_bytes 8 sq @ name_bytes err @ msg_bytes pb m
      | Request srv sq m \<Rightarrow> [RpcTypeRequest] @ name_bytes srv @ be_bytes 8 sq @ msg_bytes pb m)"

definition packet_ok :: "'m protobuf \<Rightarrow> 'm rpcPacket \<Rightarrow> bool" where
  "packet_ok pb pk =
     (case pk of
        Response srv sq err m \<Rightarrow> length srv < 256 \<and> length err < 256 \<and> msg_ok pb m
      | Request srv sq m \<Rightarrow> length srv < 256 \<and> msg_ok pb m)"

lemma length_packet_bytes: "packet_ok pb pk \<Longrightarrow> length (packet_bytes pb pk) = packetSize pb pk"
  by (auto simp: packet_ok_def packet_bytes_def packetSize_def length_msg_bytes split: rpcPacket.splits)

lemma writes_packet:
  assumes "packet_ok pb pk"
  shows "writes (rpc_writeBody pb pk) (packet_bytes pb pk)"
proof (cases pk)
  case (Request srv sq m)
  have "rpc_writeBody pb pk = then_at (then_at (then_at (putByte RpcTypeRequest) (\<lambda>b. nameWrite b srv)) (putUint64 sq))
      (pbFormatter_Write pb m)"
    using Request by (simp add: rpc_writeBody_def then_at_def fun_eq_iff split_def)
  moreover have "length srv < 256" "msg_ok pb m" using assms Request by (simp_all add: packet_ok_def)
  ultimately have "writes (rpc_writeBody pb pk) ((([RpcTypeRequest] @ name_bytes srv) @ be_bytes 8 sq) @ msg_bytes pb m)"
    by (simp only:) (intro writes_intros writes_msg)
  then show ?thesis using Request by (simp add: packet_bytes_def)
next
  case (Response srv sq err m)
  have "rpc_writeBody pb pk = then_at (then_at (then_at (then_at (putByte RpcTypeResponse) (\<lambda>b. nameWrite b srv)) (putUint64 sq))
      (\<lambda>b. nameWrite b err)) (pbFormatter_Write pb m)"
    using Response by (simp add: rpc_writeBody_def then_at_def fun_eq_iff split_def)
  moreover have "length srv < 256" "length err < 256" "msg_ok pb m" using assms Response by (simp_all add: packet_ok_def)
  ultimately have "writes (rpc_writeBody pb pk)
      (((([RpcTypeResponse] @ name_bytes srv) @ be_bytes 8 sq) @ name_bytes err) @ msg_bytes pb m)"
    by (simp only:) (intro writes_intros writes_msg)
  then show ?thesis using Response by (simp add: packet_bytes_def)
qed

section \<open>What the readers read\<close>

lemma nameRead_bytes [simp]: "length name < 256 \<Longrightarrow> nameRead (name_bytes name @ rest) = Some (name, nameSize name)"
  by (simp add: nameRead_def name_bytes_def nameSize_def unat_of_nat)

lemma skip_head [simp]: "drop (9 + nameSize s) (c # name_bytes s @ be_bytes 8 v @ r) = r"
proof -
  have "9 + nameSize s = Suc (nameSize s + 8)" by simp
  then show ?thesis by (simp only: drop_Suc_Cons) simp
qed

lemma skip_head_name [simp]: "drop (9 + nameSize s + nameSize e) (c # name_bytes s @ be_bytes 8 v @ name_bytes e @ r) = r"
proof -
  have "9 + nameSize s + nameSize e = Suc (nameSize s + (8 + nameSize e))" by simp
  then show ?thesis by (simp only: drop_Suc_Cons) simp
qed

lemma pbRead_bytes:
  assumes "msg_ok pb m"
  shows "pbRead pb (msg_bytes pb m @ rest) = Some (m, pbFormatter_Size pb m, True)"
proof (cases m)
  case None
  then show ?thesis by (simp add: pbRead_def msg_bytes_def pbFormatter_Size_def RpcProtocol_def)
next
  case (Some m')
  obtain body where body: "pb_marshalTo pb m' = Some body" "length (pb_name pb m') < 256" "length body = pb_size pb m'"
    "pb_registered pb (pb_name pb m')" "pb_unmarshal pb (pb_name pb m') body = Some m'" "pb_size pb m' < 2 ^ 63"
    using assms Some by (auto simp: msg_ok_def split: option.splits)
  have sz: "uint (be_word (be_bytes 8 (word_of_nat (pb_size pb m') :: u64)) :: u64) = int (pb_size pb m')"
    using body(6) by (simp add: wire_simps uint_nat unat_of_nat)
  show ?thesis
    using body sz Some by (simp add: pbRead_def msg_bytes_def pbFormatter_Size_def Let_def)
qed

lemma rpc_read_bytes:
  assumes "packet_ok pb pk"
  shows "rpc_ReadfromBuffer pb (packet_bytes pb pk) = Some (Some pk)"
proof (cases pk)
  case (Request srv sq m)
  then have ok: "length srv < 256" "msg_ok pb m" using assms by (simp_all add: packet_ok_def)
  note pbRead_bytes [OF ok(2), of "[]", simplified]
  then show ?thesis using Request ok
    by (simp add: rpc_ReadfromBuffer_def packet_bytes_def RpcTypeRequest_def RpcTypeResponse_def wire_simps Let_def)
next
  case (Response srv sq err m)
  then have ok: "length srv < 256" "length err < 256" "msg_ok pb m" using assms by (simp_all add: packet_ok_def)
  note pbRead_bytes [OF ok(3), of "[]", simplified]
  then show ?thesis using Response ok
    by (simp add: rpc_ReadfromBuffer_def packet_bytes_def RpcTypeRequest_def RpcTypeResponse_def wire_simps Let_def)
qed

section \<open>The formatter is a codec for links\<close>

definition rpc_fits :: "'m protobuf \<Rightarrow> (nat \<Rightarrow> bytes) \<Rightarrow> 'm rpcPacket \<Rightarrow> bool" where
  "rpc_fits pb mem pk \<longleftrightarrow> packet_ok pb pk \<and> packetSize pb pk < 2 ^ 32 \<and> length (mem (packetSize pb pk)) = packetSize pb pk"

lemma WritetoBuffer_bytes:
  assumes "rpc_fits pb mem pk"
  shows "rpc_WritetoBuffer pb mem pk = packet_bytes pb pk"
proof -
  have ok: "packet_ok pb pk" "length (mem (packetSize pb pk)) = length (packet_bytes pb pk)"
    using assms length_packet_bytes [of pb pk] by (simp_all add: rpc_fits_def)
  then show ?thesis using writes_packet [OF ok(1)] by (simp add: writes_def rpc_WritetoBuffer_def)
qed

interpretation rpcc: codec "rpc_WritetoBuffer pb mem" "rpc_ReadfromBuffer pb" "rpc_fits pb mem"
  for pb :: "'m protobuf" and mem :: "nat \<Rightarrow> bytes"
  by unfold_locales (auto simp: WritetoBuffer_bytes rpc_read_bytes length_packet_bytes, auto simp: rpc_fits_def rpc_read_bytes length_packet_bytes)

section \<open>Properties\<close>

text \<open>C25: Packets sent over a link arrive: a round of the send thread returns, writes a prefix of the
  queue that is not empty unless the queue is, and signals itself when it leaves something behind;
  whatever the chunks in which the bytes arrive, the read thread of the other side queues exactly
  those packets, in order and with consecutive serial numbers, and no packet is taken for a
  heartbeat. The packets have service names and error texts of less than 256 bytes.\<close>

theorem rpc_link_delivers:
  assumes "SingleConsumer_inv (l_sendq l)" "\<not> l_sigClosed l" "SingleConsumer_list (l_sendq l) = ps"
    "\<forall>p \<in> set ps. rpc_fits pb mem p"
  shows "\<exists>m l'. sendRound zero (rpc_WritetoBuffer pb mem) l = Some l' \<and> m \<le> length ps \<and> (ps \<noteq> [] \<longrightarrow> 0 < m) \<and>
    SingleConsumer_list (l_sendq l') = drop m ps \<and> (m < length ps \<longrightarrow> l_sendSig l') \<and>
    (\<forall>evs rest. data_of evs = l_sendb l' @ rest \<longrightarrow> (\<exists>evs'. data_of evs' = rest \<and>
       runRead (rpc_ReadfromBuffer pb) isdial evs =
         (map2 RdPacket (serials (l_serial l) m) (take m ps) @ fst (runRead (rpc_ReadfromBuffer pb) isdial evs'),
          snd (runRead (rpc_ReadfromBuffer pb) isdial evs'))))"
proof -
  let ?enc = "rpc_WritetoBuffer pb mem" and ?l = "l\<lparr>l_sendSig := False, l_sendb := []\<rparr>"
  obtain m l' where s: "sendLoop zero ?enc ?l = Some l'" "m \<le> length ps" "SingleConsumer_list (l_sendq l') = drop m ps"
    "l_sendb l' = frames (l_serial l) (map ?enc (take m ps))" "ps \<noteq> [] \<longrightarrow> m > 0" "m < length ps \<longrightarrow> l_sendSig l'"
    using sendLoop_spec [of ?l ps zero ?enc] assms(1-3) by auto
  have "\<forall>p \<in> set (take m ps). rpc_fits pb mem p" using assms(4) by (auto dest: in_set_takeD)
  from rpcc.read_frames [OF _ this] have "\<exists>evs'. data_of evs' = rest \<and>
       runRead (rpc_ReadfromBuffer pb) isdial evs =
         (map2 RdPacket (serials (l_serial l) m) (take m ps) @ fst (runRead (rpc_ReadfromBuffer pb) isdial evs'),
          snd (runRead (rpc_ReadfromBuffer pb) isdial evs'))"
    if "data_of evs = l_sendb l' @ rest" for evs rest
    using that s(2,4) by (auto simp: min_absorb2)
  then show ?thesis using s unfolding sendRound_def by blast
qed

text \<open>A small registry to try the formatter on: one message type whose values are their own encoding.\<close>

definition demo_pb :: "bytes protobuf" where
  "demo_pb = \<lparr>pb_name = (\<lambda>_. ''Ping''), pb_size = length, pb_marshalTo = Some, pb_registered = (\<lambda>n. n = ''Ping''),
     pb_unmarshal = (\<lambda>_. Some)\<rparr>"

theorem rpc_link_delivers_witness:
  "\<exists>q l'. SingleConsumer_Push (Request [] 0 None) SingleConsumer_empty (Request ''Gate.Ping'' 7 (Some [1, 2])) = Some q \<and>
     sendRound (Request [] 0 None) (rpc_WritetoBuffer demo_pb (\<lambda>n. replicate n 9)) ((newLink ''a:1'' 1 ''gate'' True)\<lparr>l_sendq := q\<rparr>) = Some l' \<and>
     SingleConsumer_list (l_sendq l') = []"
proof -
  let ?p = "Request ''Gate.Ping'' 7 (Some [1, 2]) :: bytes rpcPacket" and ?z = "Request [] 0 None :: bytes rpcPacket"
  obtain q where q: "SingleConsumer_Push ?z SingleConsumer_empty ?p = Some q" "SingleConsumer_inv q" "SingleConsumer_list q = [?p]"
    using SingleConsumer_Push_spec [OF SingleConsumer_empty_inv(1), of ?z ?p] by auto
  let ?l = "(newLink ''a:1'' 1 ''gate'' True)\<lparr>l_sendq := q\<rparr>"
  have fits: "\<forall>p \<in> set [?p]. rpc_fits demo_pb (\<lambda>n. replicate n 9) p"
    by (simp add: rpc_fits_def packet_ok_def msg_ok_def demo_pb_def packetSize_def pbFormatter_Size_def nameSize_def)
  have l: "SingleConsumer_inv (l_sendq ?l)" "\<not> l_sigClosed ?l" "SingleConsumer_list (l_sendq ?l) = [?p]"
    using q by (simp_all add: newLink_def)
  obtain m l' where "sendRound ?z (rpc_WritetoBuffer demo_pb (\<lambda>n. replicate n 9)) ?l = Some l'" "m \<le> length [?p]"
    "[?p] \<noteq> [] \<longrightarrow> 0 < m" "SingleConsumer_list (l_sendq l') = drop m [?p]"
    using rpc_link_delivers [OF l fits, of ?z True] by blast
  then show ?thesis using q(1) by auto
qed

text \<open>An error text whose length is a multiple of 256 is lost on the wire: the caller receives a
  response without an error and without a reply, which its handler takes for a success.\<close>

theorem rpc_error_text_lost:
  assumes "length err mod 256 = 0" "length srv < 256" "length mem = packetSize pb (Response srv sq err None)"
  shows "\<exists>n buf. rpc_writeBody pb (Response srv sq err None) mem = Some (n, buf) \<and>
    rpc_ReadfromBuffer pb buf = Some (Some (Response srv sq [] None))"
proof -
  have w: "writes (\<lambda>b. nameWrite b err) [0]"
    using assms(1) by (auto simp: writes_def nameWrite_def str_bytes_def go_copy_def Let_def neq_Nil_conv Suc_le_length_iff)
  let ?x = "[RpcTypeResponse] @ name_bytes srv @ be_bytes 8 sq @ name_bytes [] @ msg_bytes pb None"
  have nil: "name_bytes [] = [0]" by (simp add: name_bytes_def str_bytes_def)
  have "rpc_writeBody pb (Response srv sq err None) =
      then_at (then_at (then_at (then_at (putByte RpcTypeResponse) (\<lambda>b. nameWrite b srv)) (putUint64 sq))
      (\<lambda>b. nameWrite b err)) (pbFormatter_Write pb None)"
    by (simp add: rpc_writeBody_def then_at_def fun_eq_iff split_def)
  moreover have "msg_ok pb None" by (simp add: msg_ok_def)
  ultimately have "writes (rpc_writeBody pb (Response srv sq err None))
      (((([RpcTypeResponse] @ name_bytes srv) @ be_bytes 8 sq) @ [0]) @ msg_bytes pb None)"
    using w assms(2) by (simp only:) (intro writes_intros writes_msg)
  then have "writes (rpc_writeBody pb (Response srv sq err None)) ?x" using nil by simp
  then have "rpc_writeBody pb (Response srv sq err None) mem = Some (length ?x, ?x @ drop (length ?x) mem)"
    using assms(3) by (simp add: writes_def packetSize_def pbFormatter_Size_def nameSize_def msg_bytes_def)
  moreover have "rpc_ReadfromBuffer pb (?x @ rest) = Some (Some (Response srv sq [] None))" for rest
  proof -
    have "pbRead pb (msg_bytes pb None @ rest) = Some (None, 1, True)"
      using pbRead_bytes [of pb None rest] by (simp add: msg_ok_def pbFormatter_Size_def)
    then show ?thesis using assms(2)
      by (simp add: rpc_ReadfromBuffer_def RpcTypeResponse_def wire_simps Let_def)
  qed
  ultimately show ?thesis by blast
qed

theorem rpc_error_text_lost_witness:
  "\<exists>n buf. rpc_writeBody demo_pb (Response ''Gate.Ping'' 7 (replicate 256 CHR ''x'') None) (replicate 277 0) = Some (n, buf) \<and>
    rpc_ReadfromBuffer demo_pb buf = Some (Some (Response ''Gate.Ping'' 7 [] None))"
  by (rule rpc_error_text_lost) (simp_all add: packetSize_def nameSize_def pbFormatter_Size_def)

end
