(* ===== verification/Rpc.thy ===== *)
theory Rpc
  imports Timer Rpc_Format "HOL-Library.Sublist"
begin

text \<open>
  Remote procedure calls (\<open>xrpc/saferpcstatic.go\<close>, \<open>xrpc/saferpcdynamic.go\<close>): registered services,
  links by number and by name, calls with their pending table and time-out queue, and the handling
  of requests and responses. The time-out queue is the same heap as that of the timers, with the
  start of the call as key: a controller whose items have no duration. User code (service methods
  and callbacks) is called at the end of the step that calls it; \<open>rs_log\<close> records the calls. What
  reflection says of a type is data: a type with its methods. Names are ASCII. \<open>None\<close> is a panic.
\<close>

section \<open>Services\<close>

datatype goType = GPtr goType | GNamed string string \<comment> \<open>name, package path\<close>

record goMethod =
  gm_name :: string
  gm_pkgPath :: string
  gm_in :: "goType list"

record methodType =
  mt_argType :: goType
  mt_numCalls :: nat

record service =
  sv_name :: string
  sv_method :: "string \<Rightarrow> methodType option"

definition isExported :: "string \<Rightarrow> bool" where
  "isExported name = (case name of [] \<Rightarrow> False | c # _ \<Rightarrow> c \<in> set ''ABCDEFGHIJKLMNOPQRSTUVWXYZ'')"

fun isExportedOrBuiltinType :: "goType \<Rightarrow> bool" where
  "isExportedOrBuiltinType (GPtr t) = isExportedOrBuiltinType t"
| "isExportedOrBuiltinType (GNamed name pkg) = (isExported name \<or> pkg = [])"

text \<open>One round of the loop of \<open>suitableMethods\<close>; \<open>pipe\<close> is the type \<open>Pipe\<close> and \<open>isProto\<close> says which
  types implement \<open>ProtoMessage\<close>.\<close>

definition suitableMethod :: "goType \<Rightarrow> (goType \<Rightarrow> bool) \<Rightarrow> goMethod \<Rightarrow> (string \<times> methodType) option" where
  "suitableMethod pipe isProto m =
     (if gm_pkgPath m \<noteq> [] then None
      else case gm_in m of
          [rcvr, pipeType, argType] \<Rightarrow>
            if pipeType \<noteq> pipe then None
            else (case argType of
                GNamed _ _ \<Rightarrow> None
              | GPtr _ \<Rightarrow>
                  if \<not> isExportedOrBuiltinType argType then None
                  else if \<not> isProto argType then None
                  else Some (gm_name m, \<lparr>mt_argType = argType, mt_numCalls = 0\<rparr>))
        | _ \<Rightarrow> None)"

definition suitableMethods :: "goType \<Rightarrow> (goType \<Rightarrow> bool) \<Rightarrow> goMethod list \<Rightarrow> (string \<times> methodType) list" where
  "suitableMethods pipe isProto ms = List.map_filter (suitableMethod pipe isProto) ms"

datatype registerErr = NoServiceName | NotExported | AlreadyDefined | NoMethods

section \<open>The state\<close>

text \<open>The numbers and callbacks of calls; a message of type \<open>'m\<close>, a callback of type \<open>'cb\<close>.\<close>

record PipeImpl =
  pi_remoteID :: int
  pi_srvName :: string
  pi_seq :: u64

record ('m, 'cb) rpcCall =
  rc_srvName :: string
  rc_arg :: 'm
  rc_cb :: 'cb
  rc_item :: addr

type_synonym timeoutQueue = "(u64 \<times> string) Controller"

record ('m, 'cb) RPCDynamicData =
  d_pending :: "u64 \<Rightarrow> ('m, 'cb) rpcCall option"
  d_timeout :: timeoutQueue
  d_seq :: u64
  d_calls :: nat \<comment> \<open>how many calls were made: the number of the next \<open>timeItem\<close>\<close>

record rpcMetric =
  RequestCount :: nat
  RequestBytes :: nat
  RequestInvokeCount :: nat
  ResponseCount :: nat
  ErrorCount :: nat
  TimeoutCount :: nat

datatype ('m, 'cb) rpc_log =
    LogCall u64 'cb
  | LogReply u64 'cb "'m option"
  | LogTimeout u64 'cb
  | LogFailed u64
  | LogInvoke PipeImpl "'m option" \<comment> \<open>pipe, argument\<close>
  | LogOpen nat string nat \<comment> \<open>handler, node, link\<close>
  | LogClose nat string nat

record ('m, 'cb) RPCStatic =
  rs_srv :: "string \<Rightarrow> service option"
  rs_links :: "int \<Rightarrow> nat option"
  rs_name2link :: "string \<Rightarrow> nat option"
  rs_handler :: "string \<Rightarrow> nat option" \<comment> \<open>the handler of a prefix, by its address\<close>
  rs_metric :: rpcMetric
  rs_data :: "('m, 'cb) RPCDynamicData"
  rs_lk :: "nat \<Rightarrow> 'm rpcPacket Link"
  rs_log :: "('m, 'cb) rpc_log list"

definition NewRPCDynamicData :: "int \<Rightarrow> ('m, 'cb) RPCDynamicData" where
  "NewRPCDynamicData now = \<lparr>d_pending = (\<lambda>_. None), d_timeout = Timer_New now (0, Creator_zero) (0, []), d_seq = 0, d_calls = 0\<rparr>"

definition NewRPCStatic :: "int \<Rightarrow> (nat \<Rightarrow> 'm rpcPacket Link) \<Rightarrow> ('m, 'cb) RPCStatic" where
  "NewRPCStatic now lk = \<lparr>rs_srv = (\<lambda>_. None), rs_links = (\<lambda>_. None), rs_name2link = (\<lambda>_. None), rs_handler = (\<lambda>_. None),
     rs_metric = \<lparr>RequestCount = 0, RequestBytes = 0, RequestInvokeCount = 0, ResponseCount = 0, ErrorCount = 0, TimeoutCount = 0\<rparr>,
     rs_data = NewRPCDynamicData now, rs_lk = lk, rs_log = []\<rparr>"

text \<open>\<open>register\<close>: the name to publish under is the type's unless \<open>useName\<close>, but the test for a service
  already defined looks at the argument \<open>name\<close>.\<close>

definition rpc_register :: "goType \<Rightarrow> (goType \<Rightarrow> bool) \<Rightarrow> string \<Rightarrow> goMethod list \<Rightarrow> string \<Rightarrow> bool \<Rightarrow>
    ('m, 'cb) RPCStatic \<Rightarrow> registerErr option \<times> ('m, 'cb) RPCStatic" where
  "rpc_register pipe isProto typeName ms name useName rs =
     (let sname = (if useName then name else typeName) in
      if sname = [] then (Some NoServiceName, rs)
      else if \<not> isExported sname \<and> \<not> useName then (Some NotExported, rs)
      else if rs_srv rs name \<noteq> None then (Some AlreadyDefined, rs)
      else let methods = suitableMethods pipe isProto ms in
        if methods = [] then (Some NoMethods, rs)
        else (None, rs\<lparr>rs_srv := (rs_srv rs)(sname := Some \<lparr>sv_name = sname, sv_method = map_of (rev methods)\<rparr>)\<rparr>))"

definition rpc_Register :: "goType \<Rightarrow> (goType \<Rightarrow> bool) \<Rightarrow> string \<Rightarrow> goMethod list \<Rightarrow> ('m, 'cb) RPCStatic \<Rightarrow>
    registerErr option \<times> ('m, 'cb) RPCStatic" where
  "rpc_Register pipe isProto typeName ms rs = rpc_register pipe isProto typeName ms [] False rs"

definition rpc_RegisterName :: "goType \<Rightarrow> (goType \<Rightarrow> bool) \<Rightarrow> string \<Rightarrow> string \<Rightarrow> goMethod list \<Rightarrow> ('m, 'cb) RPCStatic \<Rightarrow>
    registerErr option \<times> ('m, 'cb) RPCStatic" where
  "rpc_RegisterName pipe isProto name typeName ms rs = rpc_register pipe isProto typeName ms name False rs"

text \<open>\<open>strings.LastIndex(s, ".")\<close>: the parts before and after the last dot.\<close>

fun splitLastDot :: "string \<Rightarrow> (string \<times> string) option" where
  "splitLastDot [] = None"
| "splitLastDot (c # s) =
     (case splitLastDot s of
        Some (h, m) \<Rightarrow> Some (c # h, m)
      | None \<Rightarrow> if c = CHR ''.'' then Some ([], s) else None)"

definition getServiceMethod :: "('m, 'cb) RPCStatic \<Rightarrow> string \<Rightarrow> string + (service \<times> string \<times> methodType)" where
  "getServiceMethod rs srvName =
     (case splitLastDot srvName of
        None \<Rightarrow> Inl (''1 no service'' @ srvName)
      | Some (header, methodName) \<Rightarrow>
          (case rs_srv rs header of
             None \<Rightarrow> Inl (''2 no service'' @ srvName)
           | Some srv \<Rightarrow>
               (case sv_method srv methodName of
                  None \<Rightarrow> Inl (''3 no service'' @ srvName)
                | Some mtype \<Rightarrow> Inr (srv, methodName, mtype))))"

section \<open>Calls\<close>

definition rpc_zero :: "'m rpcPacket" where "rpc_zero = Request [] 0 None"

text \<open>\<open>link.Send(pk)\<close> on link number \<open>i\<close>.\<close>

definition rpc_send :: "nat \<Rightarrow> 'm rpcPacket \<Rightarrow> ('m, 'cb) RPCStatic \<Rightarrow> ('m, 'cb) RPCStatic option" where
  "rpc_send i pk rs = do { (_, l) \<leftarrow> Link_Send rpc_zero (rs_lk rs i) pk; Some (rs\<lparr>rs_lk := (rs_lk rs)(i := l)\<rparr>) }"

definition log :: "('m, 'cb) rpc_log \<Rightarrow> ('m, 'cb) RPCStatic \<Rightarrow> ('m, 'cb) RPCStatic" where
  "log e rs = rs\<lparr>rs_log := rs_log rs @ [e]\<rparr>"

text \<open>A call: the number, then the pending entry with its time-out item if there is a callback.\<close>

definition addPending :: "int \<Rightarrow> string \<Rightarrow> 'm \<Rightarrow> 'cb \<Rightarrow> ('m, 'cb) RPCDynamicData \<Rightarrow> ('m, 'cb) RPCDynamicData" where
  "addPending now srvName arg cb d =
     (let a = Cell 0 (d_calls d); q = d_timeout d;
          q = q\<lparr>items := (items q)(a := \<lparr>index = 0, dual = 0, since = now, tv = (d_seq d, srvName)\<rparr>)\<rparr> in
      d\<lparr>d_pending := (d_pending d)(d_seq d := Some \<lparr>rc_srvName = srvName, rc_arg = arg, rc_cb = cb, rc_item = a\<rparr>),
        d_timeout := heap_Push q a\<rparr>)"

definition sendCall :: "('m \<Rightarrow> nat) \<Rightarrow> int \<Rightarrow> nat \<Rightarrow> string \<Rightarrow> 'm \<Rightarrow> 'cb option \<Rightarrow> ('m, 'cb) RPCStatic \<Rightarrow> ('m, 'cb) RPCStatic option" where
  "sendCall sz now i srvName arg cb rs =
     (let d = (rs_data rs)\<lparr>d_seq := d_seq (rs_data rs) + 1, d_calls := d_calls (rs_data rs) + 1\<rparr>;
          sq = d_seq d;
          rs = (case cb of None \<Rightarrow> rs\<lparr>rs_data := d\<rparr> | Some cb \<Rightarrow> log (LogCall sq cb) (rs\<lparr>rs_data := addPending now srvName arg cb d\<rparr>)) in
      do {
        rs \<leftarrow> rpc_send i (Request srvName sq (Some arg)) rs;
        let m = rs_metric rs in
        Some (rs\<lparr>rs_metric := m\<lparr>RequestCount := RequestCount m + 1, RequestBytes := RequestBytes m + sz arg\<rparr>\<rparr>) })"

definition countError :: "('m, 'cb) RPCStatic \<Rightarrow> ('m, 'cb) RPCStatic" where
  "countError rs = (let m = rs_metric rs in rs\<lparr>rs_metric := m\<lparr>ErrorCount := ErrorCount m + 1\<rparr>\<rparr>)"

definition CallName :: "('m \<Rightarrow> nat) \<Rightarrow> int \<Rightarrow> string \<Rightarrow> string \<Rightarrow> 'm \<Rightarrow> 'cb option \<Rightarrow> ('m, 'cb) RPCStatic \<Rightarrow> (bool \<times> ('m, 'cb) RPCStatic) option" where
  "CallName sz now nodename srvName arg cb rs =
     (case rs_name2link rs nodename of
        Some i \<Rightarrow> do { rs \<leftarrow> sendCall sz now i srvName arg cb rs; Some (True, rs) }
      | None \<Rightarrow> Some (False, countError rs))"

definition CallID :: "('m \<Rightarrow> nat) \<Rightarrow> int \<Rightarrow> int \<Rightarrow> string \<Rightarrow> 'm \<Rightarrow> 'cb option \<Rightarrow> ('m, 'cb) RPCStatic \<Rightarrow> (bool \<times> ('m, 'cb) RPCStatic) option" where
  "CallID sz now remoteID srvName arg cb rs =
     (case rs_links rs remoteID of
        Some i \<Rightarrow> do { rs \<leftarrow> sendCall sz now i srvName arg cb rs; Some (True, rs) }
      | None \<Rightarrow> Some (False, countError rs))"

text \<open>The reply through the pipe that a service method got.\<close>

definition Pipe_Reply :: "PipeImpl \<Rightarrow> 'm option \<Rightarrow> ('m, 'cb) RPCStatic \<Rightarrow> ('m, 'cb) RPCStatic option" where
  "Pipe_Reply p reply rs =
     (case rs_links rs (pi_remoteID p) of
        Some i \<Rightarrow> rpc_send i (Response (pi_srvName p) (pi_seq p) [] reply) rs
      | None \<Rightarrow> Some (countError rs))"

definition Pipe_RemoteID :: "PipeImpl \<Rightarrow> int" where
  "Pipe_RemoteID p = pi_remoteID p"

definition Pipe_Equal :: "PipeImpl \<Rightarrow> PipeImpl \<Rightarrow> bool" where
  "Pipe_Equal p p2 \<longleftrightarrow> pi_remoteID p = pi_remoteID p2 \<and> pi_seq p = pi_seq p2"

definition Pipe_Call :: "('m \<Rightarrow> nat) \<Rightarrow> int \<Rightarrow> PipeImpl \<Rightarrow> string \<Rightarrow> 'm \<Rightarrow> 'cb option \<Rightarrow> ('m, 'cb) RPCStatic \<Rightarrow> ('m, 'cb) RPCStatic option" where
  "Pipe_Call sz now p srvName arg cb rs =
     (case rs_links rs (pi_remoteID p) of
        Some i \<Rightarrow> sendCall sz now i srvName arg cb rs
      | None \<Rightarrow> Some (countError rs))"

section \<open>Links coming and going\<close>

fun splitComma :: "string \<Rightarrow> string list" where
  "splitComma [] = [[]]"
| "splitComma (c # s) = (if c = CHR '','' then [] # splitComma s
     else (case splitComma s of [] \<Rightarrow> [[c]] | p # ps \<Rightarrow> (c # p) # ps))"

definition AddClusterHandler :: "string \<Rightarrow> nat \<Rightarrow> ('m, 'cb) RPCStatic \<Rightarrow> ('m, 'cb) RPCStatic" where
  "AddClusterHandler namePrefix handler rs = rs\<lparr>rs_handler := (rs_handler rs)(namePrefix := Some handler)\<rparr>"

text \<open>A loop over a Go map visits the entries in an unspecified order: \<open>hs\<close> lists them in the order
  of this visit, and the first prefix that fits ends the loop.\<close>

definition callClusterOnOpen :: "(string \<times> nat) list \<Rightarrow> string \<Rightarrow> nat \<Rightarrow> ('m, 'cb) RPCStatic \<Rightarrow> ('m, 'cb) RPCStatic" where
  "callClusterOnOpen hs name i rs =
     (case find (\<lambda>(nodePrefix, h). prefix nodePrefix name) hs of None \<Rightarrow> rs | Some (_, h) \<Rightarrow> log (LogOpen h name i) rs)"

definition callClusterOnClose :: "(string \<times> nat) list \<Rightarrow> string \<Rightarrow> nat \<Rightarrow> ('m, 'cb) RPCStatic \<Rightarrow> ('m, 'cb) RPCStatic" where
  "callClusterOnClose hs name i rs =
     (case find (\<lambda>(nodePrefix, h). prefix nodePrefix name) hs of None \<Rightarrow> rs | Some (_, h) \<Rightarrow> log (LogClose h name i) rs)"

definition rpc_OnOpen :: "(string \<times> nat) list \<Rightarrow> ('m, 'cb) RPCStatic \<Rightarrow> nat \<Rightarrow> ('m, 'cb) RPCStatic" where
  "rpc_OnOpen hs rs i =
     (let l = rs_lk rs i in
      callClusterOnOpen hs (l_remoteName l) i (rs\<lparr>rs_links := (rs_links rs)(l_remoteID l := Some i),
         rs_name2link := fold (\<lambda>n f. f(n := Some i)) (splitComma (l_remoteName l)) (rs_name2link rs)\<rparr>))"

definition rpc_OnClose :: "(string \<times> nat) list \<Rightarrow> ('m, 'cb) RPCStatic \<Rightarrow> nat \<Rightarrow> ('m, 'cb) RPCStatic" where
  "rpc_OnClose hs rs i =
     (let l = rs_lk rs i in
      if rs_links rs (l_remoteID l) \<noteq> Some i then rs
      else callClusterOnClose hs (l_remoteName l) i (rs\<lparr>rs_links := (rs_links rs)(l_remoteID l := None),
              rs_name2link := fold (\<lambda>n f. f(n := None)) (splitComma (l_remoteName l)) (rs_name2link rs)\<rparr>))"

section \<open>Queries\<close>

text \<open>\<open>ks\<close> lists the keys of \<open>name2link\<close> in the order of the visit.\<close>

definition GetNodeNum :: "string list \<Rightarrow> string \<Rightarrow> int" where
  "GetNodeNum ks namePrefix = fold (\<lambda>k num. if prefix namePrefix k then num + 1 else num) ks 0"

definition GetNodes :: "string list \<Rightarrow> string \<Rightarrow> string list" where
  "GetNodes ks namePrefix = filter (prefix namePrefix) ks"

definition GetRemoteIDByNodeName :: "('m, 'cb) RPCStatic \<Rightarrow> string \<Rightarrow> int" where
  "GetRemoteIDByNodeName rs name = (case rs_name2link rs name of Some i \<Rightarrow> l_remoteID (rs_lk rs i) | None \<Rightarrow> 0)"

section \<open>Messages\<close>

text \<open>A request: unknown services and wrong argument types are answered with an error; otherwise the
  method is called with the pipe and the argument. \<open>typeOf\<close> and \<open>showT\<close> are reflection's type of a
  message and its text. A nil argument has no type: building the error text panics.\<close>

definition onRequest :: "('m \<Rightarrow> goType) \<Rightarrow> (goType \<Rightarrow> string) \<Rightarrow> nat \<Rightarrow> string \<Rightarrow> u64 \<Rightarrow> 'm option \<Rightarrow>
    ('m, 'cb) RPCStatic \<Rightarrow> ('m, 'cb) RPCStatic option" where
  "onRequest typeOf showT i srvName sq arg rs =
     (case getServiceMethod rs srvName of
        Inl err \<Rightarrow> rpc_send i (Response srvName sq err None) rs
      | Inr (srv, methodName, mtype) \<Rightarrow>
          (case arg of
             None \<Rightarrow> None
           | Some m \<Rightarrow>
               if mt_argType mtype \<noteq> typeOf m
               then rpc_send i (Response srvName sq (''arg type '' @ showT (typeOf m) @ ''!='' @ showT (mt_argType mtype)) None) rs
               else let srv' = srv\<lparr>sv_method := (sv_method srv)(methodName := Some (mtype\<lparr>mt_numCalls := mt_numCalls mtype + 1\<rparr>))\<rparr>;
                        me = rs_metric rs in
                 Some (log (LogInvoke \<lparr>pi_remoteID = l_remoteID (rs_lk rs i), pi_srvName = srvName, pi_seq = sq\<rparr> arg)
                   (rs\<lparr>rs_srv := (rs_srv rs)(sv_name srv := Some srv'),
                       rs_metric := me\<lparr>RequestInvokeCount := RequestInvokeCount me + 1\<rparr>\<rparr>))))"

text \<open>A response to a pending call: the entry and its time-out item go, then the callback is called
  unless the response carries an error. Responses without a pending call are ignored.\<close>

definition takePending :: "u64 \<Rightarrow> ('m, 'cb) rpcCall \<Rightarrow> ('m, 'cb) RPCDynamicData \<Rightarrow> ('m, 'cb) RPCDynamicData option" where
  "takePending sq call d =
     (let d = d\<lparr>d_pending := (d_pending d)(sq := None)\<rparr>; k = index (items (d_timeout d) (rc_item call)) in
      if k \<noteq> -1 then do { (_, q) \<leftarrow> heap_Remove (d_timeout d) (nat k); Some (d\<lparr>d_timeout := q\<rparr>) } else Some d)"

definition onResponse :: "('m \<Rightarrow> nat) \<Rightarrow> u64 \<Rightarrow> string \<Rightarrow> 'm option \<Rightarrow> ('m, 'cb) RPCStatic \<Rightarrow> ('m, 'cb) RPCStatic option" where
  "onResponse sz sq err reply rs =
     (case d_pending (rs_data rs) sq of
        None \<Rightarrow> Some rs
      | Some call \<Rightarrow> do {
          d \<leftarrow> takePending sq call (rs_data rs);
          let rs = rs\<lparr>rs_data := d\<rparr> in
          if err \<noteq> [] then Some (log (LogFailed sq) (countError rs))
          else (case reply of
              None \<Rightarrow> None
            | Some m \<Rightarrow>
                let me = rs_metric rs in
                Some (log (LogReply sq (rc_cb call) reply)
                  (rs\<lparr>rs_metric := me\<lparr>ResponseCount := ResponseCount me + 1, RequestBytes := RequestBytes me + sz m\<rparr>\<rparr>))) })"

definition rpc_OnMessage :: "('m \<Rightarrow> goType) \<Rightarrow> (goType \<Rightarrow> string) \<Rightarrow> ('m \<Rightarrow> nat) \<Rightarrow> nat \<Rightarrow> 'm rpcPacket \<Rightarrow>
    ('m, 'cb) RPCStatic \<Rightarrow> ('m, 'cb) RPCStatic option" where
  "rpc_OnMessage typeOf showT sz i pk rs =
     (case pk of
        Request srvName sq arg \<Rightarrow> onRequest typeOf showT i srvName sq arg rs
      | Response srvName sq err reply \<Rightarrow> onResponse sz sq err reply rs)"

section \<open>Time-outs\<close>

text \<open>The loop of \<open>Run\<close> when the ticker has fired, with the time it reads: the oldest call is taken;
  a call younger than 60 seconds is put back and ends the loop, an older one is called back with the
  time-out flag.\<close>

definition rpcTimeout :: int where "rpcTimeout = 60000000000"

partial_function (option) runTimeouts :: "int \<Rightarrow> ('m, 'cb) RPCStatic \<Rightarrow> ('m, 'cb) RPCStatic option" where
  "runTimeouts now rs =
     (let d = rs_data rs in
      case heap_Pop (d_timeout d) of
        None \<Rightarrow> Some rs
      | Some (a, q) \<Rightarrow>
          let sq = fst (tv (items q a)); d = d\<lparr>d_timeout := q\<rparr> in
          if since (items q a) + rpcTimeout > now
          then if d_pending d sq \<noteq> None then Some (rs\<lparr>rs_data := d\<lparr>d_timeout := heap_Push q a\<rparr>\<rparr>)
               else runTimeouts now (rs\<lparr>rs_data := d\<rparr>)
          else (case d_pending d sq of
              None \<Rightarrow> runTimeouts now (rs\<lparr>rs_data := d\<rparr>)
            | Some call \<Rightarrow>
                let me = rs_metric rs in
                runTimeouts now (log (LogTimeout sq (rc_cb call))
                  (rs\<lparr>rs_data := d\<lparr>d_pending := (d_pending d)(sq := None)\<rparr>, rs_metric := me\<lparr>TimeoutCount := TimeoutCount me + 1\<rparr>\<rparr>))))"

section \<open>The pending table and the time-out queue\<close>

text \<open>The entries of the table and the items of the queue belong to each other one to one, and all
  numbers given out so far are different.\<close>

definition data_ok :: "('m, 'cb) RPCDynamicData \<Rightarrow> bool" where
  "data_ok d \<longleftrightarrow> timer_inv (d_timeout d) \<and> d_seq d = word_of_nat (d_calls d) \<and> d_calls d < 2 ^ 64 \<and>
     (\<forall>a \<in> set (tq (d_timeout d)). (\<exists>k \<le> d_calls d. a = Cell 0 k) \<and> dual (items (d_timeout d) a) = 0 \<and>
        (\<exists>call. d_pending d (fst (tv (items (d_timeout d) a))) = Some call \<and> rc_item call = a)) \<and>
     (\<forall>sq call. d_pending d sq = Some call \<longrightarrow> (\<exists>k. 0 < k \<and> k \<le> d_calls d \<and> sq = word_of_nat k) \<and>
        rc_item call \<in> set (tq (d_timeout d)) \<and> fst (tv (items (d_timeout d) (rc_item call))) = sq)"

text \<open>Where an entry of the table ends up.\<close>

definition settled :: "u64 \<Rightarrow> ('m, 'cb) rpc_log list \<Rightarrow> nat" where
  "settled sq es = length (filter (\<lambda>e. case e of LogReply s _ _ \<Rightarrow> s = sq | LogTimeout s _ \<Rightarrow> s = sq
     | LogFailed s \<Rightarrow> s = sq | _ \<Rightarrow> False) es)"

definition called :: "u64 \<Rightarrow> ('m, 'cb) rpc_log list \<Rightarrow> nat" where
  "called sq es = length (filter (\<lambda>e. case e of LogCall s _ \<Rightarrow> s = sq | _ \<Rightarrow> False) es)"

text \<open>Only the callback that was given with the call is ever called for it.\<close>

definition answers :: "('m, 'cb) rpc_log set \<Rightarrow> ('m, 'cb) rpc_log \<Rightarrow> bool" where
  "answers es e = (case e of LogReply sq cb _ \<Rightarrow> LogCall sq cb \<in> es | LogTimeout sq cb \<Rightarrow> LogCall sq cb \<in> es | _ \<Rightarrow> True)"

definition rpc_inv :: "('m, 'cb) RPCStatic \<Rightarrow> bool" where
  "rpc_inv rs \<longleftrightarrow> data_ok (rs_data rs) \<and>
     (\<forall>sq. settled sq (rs_log rs) + (if d_pending (rs_data rs) sq = None then 0 else 1) = called sq (rs_log rs) \<and>
        called sq (rs_log rs) \<le> 1) \<and>
     (\<forall>sq. called sq (rs_log rs) > 0 \<longrightarrow> (\<exists>k. 0 < k \<and> k \<le> d_calls (rs_data rs) \<and> sq = word_of_nat k)) \<and>
     (\<forall>sq call. d_pending (rs_data rs) sq = Some call \<longrightarrow> LogCall sq (rc_cb call) \<in> set (rs_log rs)) \<and>
     (\<forall>e \<in> set (rs_log rs). answers (set (rs_log rs)) e)"

lemma settled_append [simp]: "settled sq (es @ fs) = settled sq es + settled sq fs"
  by (simp add: settled_def)

lemma called_append [simp]: "called sq (es @ fs) = called sq es + called sq fs"
  by (simp add: called_def)

lemma settled_simps [simp]: "settled sq [LogCall s cb] = 0" "settled sq [LogReply s cb r] = (if s = sq then 1 else 0)"
  "settled sq [LogTimeout s cb] = (if s = sq then 1 else 0)" "settled sq [LogFailed s] = (if s = sq then 1 else 0)"
  "settled sq [LogInvoke p r] = 0" "settled sq [LogOpen h n j] = 0" "settled sq [LogClose h n j] = 0" "settled sq [] = 0"
  by (simp_all add: settled_def)

lemma called_simps [simp]: "called sq [LogCall s cb] = (if s = sq then 1 else 0)" "called sq [LogReply s cb r] = 0"
  "called sq [LogTimeout s cb] = 0" "called sq [LogFailed s] = 0" "called sq [LogInvoke p r] = 0"
  "called sq [LogOpen h n j] = 0" "called sq [LogClose h n j] = 0" "called sq [] = 0"
  by (simp_all add: called_def)

lemma word_of_nat_neq: "k \<le> n \<Longrightarrow> Suc n < 2 ^ 64 \<Longrightarrow> (word_of_nat k :: u64) \<noteq> word_of_nat (Suc n)"
proof
  assume k: "k \<le> n" "Suc n < 2 ^ 64" and eq: "(word_of_nat k :: u64) = word_of_nat (Suc n)"
  then have "unat (word_of_nat k :: u64) = unat (word_of_nat (Suc n) :: u64)" by simp
  then show False using k by (simp add: unat_of_nat del: of_nat_Suc)
qed

lemma data_okD:
  assumes "data_ok d"
  shows "timer_inv (d_timeout d)" "d_seq d = word_of_nat (d_calls d)" "d_calls d < 2 ^ 64"
    "a \<in> set (tq (d_timeout d)) \<Longrightarrow> \<exists>k \<le> d_calls d. a = Cell 0 k"
    "a \<in> set (tq (d_timeout d)) \<Longrightarrow> dual (items (d_timeout d) a) = 0"
    "a \<in> set (tq (d_timeout d)) \<Longrightarrow> \<exists>call. d_pending d (fst (tv (items (d_timeout d) a))) = Some call \<and> rc_item call = a"
    "d_pending d sq = Some call \<Longrightarrow> \<exists>k. 0 < k \<and> k \<le> d_calls d \<and> sq = word_of_nat k"
    "d_pending d sq = Some call \<Longrightarrow> rc_item call \<in> set (tq (d_timeout d))"
    "d_pending d sq = Some call \<Longrightarrow> fst (tv (items (d_timeout d) (rc_item call))) = sq"
  using assms unfolding data_ok_def by blast+

lemma data_okI:
  assumes "timer_inv (d_timeout d)" "d_seq d = word_of_nat (d_calls d)" "d_calls d < 2 ^ 64"
    "\<And>a. a \<in> set (tq (d_timeout d)) \<Longrightarrow> (\<exists>k \<le> d_calls d. a = Cell 0 k) \<and> dual (items (d_timeout d) a) = 0 \<and>
        (\<exists>call. d_pending d (fst (tv (items (d_timeout d) a))) = Some call \<and> rc_item call = a)"
    "\<And>sq call. d_pending d sq = Some call \<Longrightarrow> (\<exists>k. 0 < k \<and> k \<le> d_calls d \<and> sq = word_of_nat k) \<and>
        rc_item call \<in> set (tq (d_timeout d)) \<and> fst (tv (items (d_timeout d) (rc_item call))) = sq"
  shows "data_ok d"
  using assms unfolding data_ok_def by blast

lemma addPending_ok:
  assumes ok: "data_ok d" and n: "Suc (d_calls d) < 2 ^ 64"
  shows "data_ok (addPending now srvName arg cb (d\<lparr>d_seq := d_seq d + 1, d_calls := d_calls d + 1\<rparr>))"
proof -
  let ?a = "Cell 0 (Suc (d_calls d))" and ?s = "d_seq d + 1" and ?q = "d_timeout d"
  let ?it = "\<lparr>index = 0, dual = 0, since = now, tv = (?s, srvName)\<rparr>"
  let ?q1 = "?q\<lparr>items := (items ?q)(?a := ?it)\<rparr>"
  have s: "?s = word_of_nat (Suc (d_calls d))" using data_okD(2) [OF ok] by simp
  have out: "?a \<notin> set (tq ?q)" using data_okD(4) [OF ok, of ?a] by auto
  have inv: "timer_inv ?q1" by (rule timer_inv_items [OF data_okD(1) [OF ok] out])
  have outc: "?a \<notin> set (tq ?q1)" using out by simp
  note p = Push_facts [OF inv outc] and k = kept_sel [OF Push_facts(5) [OF inv outc]]
  have new: "d_pending d ?s = None"
  proof (rule ccontr)
    assume "d_pending d ?s \<noteq> None"
    then obtain m where "m \<le> d_calls d" "?s = word_of_nat m" using data_okD(7) [OF ok] by blast
    then show False using word_of_nat_neq [OF _ n, of m] s by simp
  qed
  have old: "tv (items (heap_Push ?q1 ?a) b) = tv (items ?q b)" "dual (items (heap_Push ?q1 ?a) b) = dual (items ?q b)"
    if "b \<in> set (tq ?q)" for b using that out k(4,6) [of b] by auto
  have neq: "fst (tv (items ?q b)) \<noteq> ?s" if "b \<in> set (tq ?q)" for b
    using data_okD(6) [OF ok that] new by auto
  let ?Q = "heap_Push ?q1 ?a" and ?c = "\<lparr>rc_srvName = srvName, rc_arg = arg, rc_cb = cb, rc_item = ?a\<rparr>"
  let ?P = "(d_pending d)(?s := Some ?c)"
  have items: "(\<exists>k \<le> Suc (d_calls d). b = Cell 0 k) \<and> dual (items ?Q b) = 0 \<and>
      (\<exists>call. ?P (fst (tv (items ?Q b))) = Some call \<and> rc_item call = b)" if b: "b \<in> insert ?a (set (tq ?q))" for b
  proof (cases "b = ?a")
    case True
    then show ?thesis using k(4,6) [of ?a] by auto
  next
    case False
    then have m: "b \<in> set (tq ?q)" using b by simp
    show ?thesis using data_okD(4-6) [OF ok m] old [OF m] neq [OF m] by (auto intro: le_SucI)
  qed
  have calls: "(\<exists>m. 0 < m \<and> m \<le> Suc (d_calls d) \<and> sq = word_of_nat m) \<and> rc_item call \<in> insert ?a (set (tq ?q)) \<and>
      fst (tv (items ?Q (rc_item call))) = sq" if c: "?P sq = Some call" for sq call
  proof (cases "sq = ?s")
    case True
    then show ?thesis using c s k(4) [of ?a] by (auto simp del: of_nat_Suc)
  next
    case False
    then have m: "d_pending d sq = Some call" using c by simp
    show ?thesis using data_okD(7-9) [OF ok m] old(1) by (auto intro: le_SucI)
  qed
  have "addPending now srvName arg cb (d\<lparr>d_seq := d_seq d + 1, d_calls := d_calls d + 1\<rparr>) =
      d\<lparr>d_seq := ?s, d_calls := Suc (d_calls d), d_pending := ?P, d_timeout := ?Q\<rparr>"
    by (simp add: addPending_def Let_def)
  then show ?thesis
    unfolding data_ok_def using p(1,2) n s items calls by (simp del: of_nat_Suc)
qed

text \<open>Taking one call out of both.\<close>

lemma data_ok_remove:
  assumes ok: "data_ok d" and a: "a \<in> set (tq (d_timeout d))" and sq: "sq = fst (tv (items (d_timeout d) a))"
    and q: "timer_inv q" "set (tq q) = set (tq (d_timeout d)) - {a}" "kept (d_timeout d) q"
  shows "data_ok (d\<lparr>d_pending := (d_pending d)(sq := None), d_timeout := q\<rparr>)"
proof -
  note k = kept_sel(4,6) [OF q(3)]
  obtain call where call: "d_pending d sq = Some call" "rc_item call = a" using data_okD(6) [OF ok a] sq by auto
  have other: "fst (tv (items (d_timeout d) b)) \<noteq> sq" if "b \<in> set (tq (d_timeout d))" "b \<noteq> a" for b
    using data_okD(6) [OF ok that(1)] call that(2) by auto
  have gone: "rc_item c \<noteq> a" if "d_pending d s = Some c" "s \<noteq> sq" for s c
    using data_okD(9) [OF ok that(1)] that(2) sq by auto
  show ?thesis
  proof (rule data_okI)
    fix b assume "b \<in> set (tq (d_timeout (d\<lparr>d_pending := (d_pending d)(sq := None), d_timeout := q\<rparr>)))"
    then have b: "b \<in> set (tq (d_timeout d))" "b \<noteq> a" using q(2) by auto
    show "(\<exists>k \<le> d_calls (d\<lparr>d_pending := (d_pending d)(sq := None), d_timeout := q\<rparr>). b = Cell 0 k) \<and>
        dual (items (d_timeout (d\<lparr>d_pending := (d_pending d)(sq := None), d_timeout := q\<rparr>)) b) = 0 \<and>
        (\<exists>call. d_pending (d\<lparr>d_pending := (d_pending d)(sq := None), d_timeout := q\<rparr>)
          (fst (tv (items (d_timeout (d\<lparr>d_pending := (d_pending d)(sq := None), d_timeout := q\<rparr>)) b))) = Some call \<and> rc_item call = b)"
      using data_okD(4-6) [OF ok b(1)] other [OF b] k [of b] by simp
  next
    fix s c assume "d_pending (d\<lparr>d_pending := (d_pending d)(sq := None), d_timeout := q\<rparr>) s = Some c"
    then have c: "d_pending d s = Some c" "s \<noteq> sq" by (auto split: if_splits)
    show "(\<exists>k. 0 < k \<and> k \<le> d_calls (d\<lparr>d_pending := (d_pending d)(sq := None), d_timeout := q\<rparr>) \<and> s = word_of_nat k) \<and>
        rc_item c \<in> set (tq (d_timeout (d\<lparr>d_pending := (d_pending d)(sq := None), d_timeout := q\<rparr>))) \<and>
        fst (tv (items (d_timeout (d\<lparr>d_pending := (d_pending d)(sq := None), d_timeout := q\<rparr>)) (rc_item c))) = s"
      using data_okD(7-9) [OF ok c(1)] gone [OF c] q(2) k(1) [of "rc_item c"] by simp
  qed (use data_okD(1-3) [OF ok] q(1) in simp_all)
qed

text \<open>Putting the item back.\<close>

lemma data_ok_same:
  assumes ok: "data_ok d" and q: "timer_inv q" "set (tq q) = set (tq (d_timeout d))" "kept (d_timeout d) q"
  shows "data_ok (d\<lparr>d_timeout := q\<rparr>)"
proof (rule data_okI)
  fix a assume "a \<in> set (tq (d_timeout (d\<lparr>d_timeout := q\<rparr>)))"
  then have a: "a \<in> set (tq (d_timeout d))" using q(2) by simp
  show "(\<exists>k \<le> d_calls (d\<lparr>d_timeout := q\<rparr>). a = Cell 0 k) \<and> dual (items (d_timeout (d\<lparr>d_timeout := q\<rparr>)) a) = 0 \<and>
      (\<exists>call. d_pending (d\<lparr>d_timeout := q\<rparr>) (fst (tv (items (d_timeout (d\<lparr>d_timeout := q\<rparr>)) a))) = Some call \<and> rc_item call = a)"
    using data_okD(4-6) [OF ok a] kept_sel(4,6) [OF q(3), of a] by simp
next
  fix s c assume "d_pending (d\<lparr>d_timeout := q\<rparr>) s = Some c"
  then have c: "d_pending d s = Some c" by simp
  show "(\<exists>k. 0 < k \<and> k \<le> d_calls (d\<lparr>d_timeout := q\<rparr>) \<and> s = word_of_nat k) \<and>
      rc_item c \<in> set (tq (d_timeout (d\<lparr>d_timeout := q\<rparr>))) \<and> fst (tv (items (d_timeout (d\<lparr>d_timeout := q\<rparr>)) (rc_item c))) = s"
    using data_okD(7-9) [OF ok c] q(2) kept_sel(4) [OF q(3), of "rc_item c"] by simp
qed (use data_okD(1-3) [OF ok] q(1) in simp_all)

lemma takePending_ok:
  assumes ok: "data_ok d" and p: "d_pending d sq = Some call"
  shows "\<exists>d'. takePending sq call d = Some d' \<and> data_ok d' \<and> d_pending d' = (d_pending d)(sq := None) \<and> d_calls d' = d_calls d"
proof -
  let ?q = "d_timeout d" and ?a = "rc_item call"
  note a = data_okD(8,9) [OF ok p] and inv = data_okD(1) [OF ok]
  obtain i where i: "i < length (tq ?q)" "tq ?q ! i = ?a" "index (items ?q ?a) = int i" by (rule queued_index [OF inv a(1)])
  obtain q where q: "heap_Remove ?q i = Some (?a, q)" "timer_inv q" "set (tq q) = set (tq ?q) - {?a}" "kept ?q q"
    using Remove_spec [OF inv i(1)] unfolding i(2) by (elim exE conjE) (rule that)
  have "takePending sq call d = Some (d\<lparr>d_pending := (d_pending d)(sq := None), d_timeout := q\<rparr>)"
    using q(1) i(3) by (simp add: takePending_def)
  moreover have "data_ok (d\<lparr>d_pending := (d_pending d)(sq := None), d_timeout := q\<rparr>)"
    by (rule data_ok_remove [OF ok a(1) _ q(2-4)]) (use a(2) in simp)
  ultimately show ?thesis
    by (intro exI [of _ "d\<lparr>d_pending := (d_pending d)(sq := None), d_timeout := q\<rparr>"]) simp
qed

text \<open>The oldest item of the queue is a pending call.\<close>

lemma pop_ok:
  assumes ok: "data_ok d" and p: "heap_Pop (d_timeout d) = Some (a, q)"
  shows "a \<in> set (tq (d_timeout d))" "fst (tv (items q a)) = fst (tv (items (d_timeout d) a))"
    "since (items q a) = since (items (d_timeout d) a)"
    "\<exists>call. d_pending d (fst (tv (items q a))) = Some call \<and> rc_item call = a"
    "data_ok (d\<lparr>d_pending := (d_pending d)(fst (tv (items q a)) := None), d_timeout := q\<rparr>)"
    "data_ok (d\<lparr>d_timeout := heap_Push q a\<rparr>)"
    "b \<in> set (tq (d_timeout d)) \<Longrightarrow> since (items (d_timeout d) a) \<le> since (items (d_timeout d) b)"
proof -
  note s = Pop_Some [OF data_okD(1) [OF ok] p] and k = kept_sel [OF Pop_Some(5) [OF data_okD(1) [OF ok] p]]
  show a: "a \<in> set (tq (d_timeout d))" by (rule s(1))
  show t: "fst (tv (items q a)) = fst (tv (items (d_timeout d) a))" "since (items q a) = since (items (d_timeout d) a)"
    using k(4,5) [of a] by simp_all
  show "\<exists>call. d_pending d (fst (tv (items q a))) = Some call \<and> rc_item call = a" using data_okD(6) [OF ok a] t(1) by simp
  show "data_ok (d\<lparr>d_pending := (d_pending d)(fst (tv (items q a)) := None), d_timeout := q\<rparr>)"
    unfolding t(1) by (rule data_ok_remove [OF ok a refl s(3,4,5)])
  have out: "a \<notin> set (tq q)" using s(4) by simp
  have "set (tq (heap_Push q a)) = set (tq (d_timeout d))" using Push_facts(2) [OF s(3) out] s(4) a by auto
  then show "data_ok (d\<lparr>d_timeout := heap_Push q a\<rparr>)"
    by (intro data_ok_same [OF ok] Push_facts(1) [OF s(3) out] kept_trans [OF s(5) Push_facts(5) [OF s(3) out]])
  show "b \<in> set (tq (d_timeout d)) \<Longrightarrow> since (items (d_timeout d) a) \<le> since (items (d_timeout d) b)"
    using s(2) [of b] data_okD(5) [OF ok a] data_okD(5) [OF ok, of b] by (simp add: deadline_def)
qed

section \<open>Every step keeps the books\<close>

lemma rpc_invD:
  assumes "rpc_inv rs"
  shows "data_ok (rs_data rs)"
    "settled sq (rs_log rs) + (if d_pending (rs_data rs) sq = None then 0 else 1) = called sq (rs_log rs)"
    "called sq (rs_log rs) \<le> 1"
    "called sq (rs_log rs) > 0 \<Longrightarrow> \<exists>k. 0 < k \<and> k \<le> d_calls (rs_data rs) \<and> sq = word_of_nat k"
    "d_pending (rs_data rs) sq = Some call \<Longrightarrow> LogCall sq (rc_cb call) \<in> set (rs_log rs)"
    "e \<in> set (rs_log rs) \<Longrightarrow> answers (set (rs_log rs)) e"
  using assms unfolding rpc_inv_def by blast+

lemma answers_mono: "answers A e \<Longrightarrow> A \<subseteq> B \<Longrightarrow> answers B e"
  by (auto simp: answers_def split: rpc_log.splits)

lemma rpc_inv_cong: "rs_data rs' = rs_data rs \<Longrightarrow> rs_log rs' = rs_log rs \<Longrightarrow> rpc_inv rs \<Longrightarrow> rpc_inv rs'"
  by (simp add: rpc_inv_def)

lemma rpc_inv_log:
  assumes inv: "rpc_inv rs" and d: "rs_data rs' = rs_data rs" and l: "rs_log rs' = rs_log rs @ [e]"
    and e: "\<And>sq. settled sq [e] = 0" "\<And>sq. called sq [e] = 0" "answers {} e"
  shows "rpc_inv rs'"
proof -
  have "answers (set (rs_log rs')) x" if "x \<in> set (rs_log rs')" for x
    using that rpc_invD(6) [OF inv, of x] e(3) unfolding l by (auto elim!: answers_mono)
  then show ?thesis
    unfolding rpc_inv_def d using rpc_invD(1-5) [OF inv] by (simp add: l e)
qed

lemma rpc_inv_settle:
  assumes inv: "rpc_inv rs" and p: "d_pending (rs_data rs) sq = Some call"
    and d: "data_ok d" "d_pending d = (d_pending (rs_data rs))(sq := None)" "d_calls d = d_calls (rs_data rs)"
    and r: "rs_data rs' = d" "rs_log rs' = rs_log rs @ [e]"
    and e: "\<And>s. settled s [e] = (if s = sq then 1 else 0)" "\<And>s. called s [e] = 0" "answers {LogCall sq (rc_cb call)} e"
  shows "rpc_inv rs'"
proof -
  have "answers (set (rs_log rs')) x" if "x \<in> set (rs_log rs')" for x
    using that rpc_invD(6) [OF inv, of x] rpc_invD(5) [OF inv p] e(3) unfolding r by (auto elim!: answers_mono)
  moreover have "settled s (rs_log rs') + (if d_pending d s = None then 0 else 1) = called s (rs_log rs')" for s
    using rpc_invD(2) [OF inv, of s] p by (cases "s = sq") (auto simp: r d e)
  ultimately show ?thesis
    unfolding rpc_inv_def r(1) using rpc_invD(3-5) [OF inv] d(1) by (simp add: r d e split: if_splits)
qed

lemma rpc_inv_call:
  assumes inv: "rpc_inv rs" and n: "Suc (d_calls (rs_data rs)) < 2 ^ 64" and sq: "sq = d_seq (rs_data rs) + 1"
    and r: "rs_data rs' = addPending now srvName arg cb ((rs_data rs)\<lparr>d_seq := sq, d_calls := d_calls (rs_data rs) + 1\<rparr>)"
      "rs_log rs' = rs_log rs @ [LogCall sq cb]"
  shows "rpc_inv rs'"
proof -
  have s: "sq = word_of_nat (Suc (d_calls (rs_data rs)))" using data_okD(2) [OF rpc_invD(1) [OF inv]] sq by simp
  have new: "called sq (rs_log rs) = 0"
  proof (rule ccontr)
    assume "called sq (rs_log rs) \<noteq> 0"
    then obtain k where "k \<le> d_calls (rs_data rs)" "sq = word_of_nat k" using rpc_invD(4) [OF inv, of sq] by auto
    then show False using word_of_nat_neq [OF _ n, of k] s by simp
  qed
  have P: "d_calls (rs_data rs') = Suc (d_calls (rs_data rs))" "\<And>x. x \<noteq> sq \<Longrightarrow> d_pending (rs_data rs') x = d_pending (rs_data rs) x"
    "\<exists>c. d_pending (rs_data rs') sq = Some c \<and> rc_cb c = cb"
    by (simp_all add: r(1) addPending_def Let_def)
  have "answers (set (rs_log rs')) x" if "x \<in> set (rs_log rs')" for x
    using that rpc_invD(6) [OF inv, of x] unfolding r by (auto elim!: answers_mono simp: answers_def [of _ "LogCall sq cb"])
  moreover have "settled x (rs_log rs') + (if d_pending (rs_data rs') x = None then 0 else 1) = called x (rs_log rs')" for x
    using rpc_invD(2) [OF inv, of x] P(2) [of x] P(3) new by (cases "x = sq") (auto simp: r(2))
  moreover have "called x (rs_log rs') \<le> 1" for x using rpc_invD(3) [OF inv, of x] new by (auto simp: r(2))
  moreover have "\<exists>k. 0 < k \<and> k \<le> d_calls (rs_data rs') \<and> x = word_of_nat k" if "called x (rs_log rs') > 0" for x
  proof (cases "x = sq")
    case True
    then show ?thesis using s P(1) by (intro exI [of _ "Suc (d_calls (rs_data rs))"]) (simp del: of_nat_Suc)
  next
    case False
    then show ?thesis using rpc_invD(4) [OF inv, of x] that P(1) by (auto simp: r(2) intro: le_SucI)
  qed
  moreover have "LogCall x (rc_cb c) \<in> set (rs_log rs')" if "d_pending (rs_data rs') x = Some c" for x c
    using that P(2) [of x] P(3) rpc_invD(5) [OF inv, of x c] by (cases "x = sq") (auto simp: r(2))
  moreover have "data_ok (rs_data rs')" using addPending_ok [OF rpc_invD(1) [OF inv] n] unfolding r(1) sq by simp
  ultimately show ?thesis unfolding rpc_inv_def by blast
qed

lemma rpc_send_sel: "rpc_send i pk rs = Some rs' \<Longrightarrow> rs_data rs' = rs_data rs \<and> rs_log rs' = rs_log rs \<and> rs_metric rs' = rs_metric rs \<and>
    rs_links rs' = rs_links rs \<and> rs_name2link rs' = rs_name2link rs \<and> rs_srv rs' = rs_srv rs"
  by (auto simp: rpc_send_def split: bind_splits)

lemma countError_sel [simp]: "rs_data (countError rs) = rs_data rs" "rs_log (countError rs) = rs_log rs"
  by (simp_all add: countError_def Let_def)

lemma log_sel [simp]: "rs_data (log e rs) = rs_data rs" "rs_log (log e rs) = rs_log rs @ [e]"
  by (simp_all add: log_def)

lemma data_ok_seq:
  assumes ok: "data_ok d" and n: "Suc (d_calls d) < 2 ^ 64"
  shows "data_ok (d\<lparr>d_seq := d_seq d + 1, d_calls := d_calls d + 1\<rparr>)"
proof (rule data_okI)
  let ?d = "d\<lparr>d_seq := d_seq d + 1, d_calls := d_calls d + 1\<rparr>"
  fix a assume "a \<in> set (tq (d_timeout ?d))"
  then have a: "a \<in> set (tq (d_timeout d))" by simp
  show "(\<exists>k \<le> d_calls ?d. a = Cell 0 k) \<and> dual (items (d_timeout ?d) a) = 0 \<and>
      (\<exists>call. d_pending ?d (fst (tv (items (d_timeout ?d) a))) = Some call \<and> rc_item call = a)"
    using data_okD(4-6) [OF ok a] by (auto intro: le_SucI)
next
  let ?d = "d\<lparr>d_seq := d_seq d + 1, d_calls := d_calls d + 1\<rparr>"
  fix s c assume "d_pending ?d s = Some c"
  then have c: "d_pending d s = Some c" by simp
  show "(\<exists>k. 0 < k \<and> k \<le> d_calls ?d \<and> s = word_of_nat k) \<and>
      rc_item c \<in> set (tq (d_timeout ?d)) \<and> fst (tv (items (d_timeout ?d) (rc_item c))) = s"
    using data_okD(7-9) [OF ok c] by (auto intro: le_SucI)
qed (use data_okD(1-3) [OF ok] n in simp_all)

lemma rpc_inv_seq:
  assumes inv: "rpc_inv rs" and n: "Suc (d_calls (rs_data rs)) < 2 ^ 64"
    and r: "rs_data rs' = (rs_data rs)\<lparr>d_seq := d_seq (rs_data rs) + 1, d_calls := d_calls (rs_data rs) + 1\<rparr>" "rs_log rs' = rs_log rs"
  shows "rpc_inv rs'"
  unfolding rpc_inv_def r using data_ok_seq [OF rpc_invD(1) [OF inv] n] rpc_invD(2-3,5-6) [OF inv]
  by (auto dest!: rpc_invD(4) [OF inv] intro: le_SucI)

lemma sendCall_sel:
  assumes "sendCall sz now i srvName arg cb rs = Some rs'"
    and "d = (rs_data rs)\<lparr>d_seq := d_seq (rs_data rs) + 1, d_calls := d_calls (rs_data rs) + 1\<rparr>"
  shows "rs_data rs' = (case cb of None \<Rightarrow> d | Some f \<Rightarrow> addPending now srvName arg f d)"
    "rs_log rs' = rs_log rs @ (case cb of None \<Rightarrow> [] | Some f \<Rightarrow> [LogCall (d_seq (rs_data rs) + 1) f])"
  using assms by (cases cb; auto simp: sendCall_def Let_def dest!: rpc_send_sel split: bind_splits)+

lemma sendCall_inv:
  assumes inv: "rpc_inv rs" and n: "Suc (d_calls (rs_data rs)) < 2 ^ 64" and s: "sendCall sz now i srvName arg cb rs = Some rs'"
  shows "rpc_inv rs'"
proof (cases cb)
  case None
  then show ?thesis using sendCall_sel [OF s refl] by (intro rpc_inv_seq [OF inv n]) simp_all
next
  case (Some f)
  then show ?thesis using sendCall_sel [OF s refl] by (intro rpc_inv_call [OF inv n refl]) simp_all
qed

lemma onResponse_step:
  assumes inv: "rpc_inv rs" and reply: "err \<noteq> [] \<or> reply \<noteq> None"
  shows "\<exists>rs'. onResponse sz sq err reply rs = Some rs' \<and> rpc_inv rs' \<and>
    d_pending (rs_data rs') = (d_pending (rs_data rs))(sq := None) \<and>
    rs_log rs' = rs_log rs @ (case d_pending (rs_data rs) sq of None \<Rightarrow> []
      | Some call \<Rightarrow> [if err \<noteq> [] then LogFailed sq else LogReply sq (rc_cb call) reply])"
proof (cases "d_pending (rs_data rs) sq")
  case None
  then show ?thesis using inv by (intro exI [of _ rs]) (auto simp: onResponse_def)
next
  case (Some call)
  obtain d where d: "takePending sq call (rs_data rs) = Some d" "data_ok d"
      "d_pending d = (d_pending (rs_data rs))(sq := None)" "d_calls d = d_calls (rs_data rs)"
    using takePending_ok [OF rpc_invD(1) [OF inv] Some] by (elim exE conjE) (rule that)
  note i = rpc_inv_settle [OF inv Some d(2-4)]
  show ?thesis
  proof (cases "err = []")
    case True
    then obtain m where m: "reply = Some m" using reply by auto
    let ?me = "rs_metric rs"
    let ?r = "log (LogReply sq (rc_cb call) reply) (rs\<lparr>rs_data := d,
      rs_metric := ?me\<lparr>ResponseCount := ResponseCount ?me + 1, RequestBytes := RequestBytes ?me + sz m\<rparr>\<rparr>)"
    have "onResponse sz sq err reply rs = Some ?r" using Some d(1) True m by (simp add: onResponse_def Let_def)
    moreover have "rpc_inv ?r" by (rule i [where e = "LogReply sq (rc_cb call) reply"]) (auto simp: answers_def)
    ultimately show ?thesis using Some True d(3) by (intro exI [of _ ?r]) simp
  next
    case False
    let ?r = "log (LogFailed sq) (countError (rs\<lparr>rs_data := d\<rparr>))"
    have "onResponse sz sq err reply rs = Some ?r" using Some d(1) False by (simp add: onResponse_def Let_def)
    moreover have "rpc_inv ?r" by (rule i [where e = "LogFailed sq"]) (auto simp: answers_def)
    ultimately show ?thesis using Some False d(3) by (intro exI [of _ ?r]) simp
  qed
qed

lemma onResponse_inv:
  assumes "rpc_inv rs" "onResponse sz sq err reply rs = Some rs'"
  shows "rpc_inv rs'"
proof (cases "err \<noteq> [] \<or> reply \<noteq> None \<or> d_pending (rs_data rs) sq = None")
  case True
  then show ?thesis using onResponse_step [OF assms(1), of err reply sz sq] assms by (auto simp: onResponse_def)
next
  case False
  then show ?thesis using assms(2) by (auto simp: onResponse_def Let_def split: bind_splits)
qed

lemma onRequest_sel: "onRequest typeOf showT i srvName sq arg rs = Some rs' \<Longrightarrow> rs_data rs' = rs_data rs \<and>
    (rs_log rs' = rs_log rs \<or> rs_log rs' = rs_log rs @ [LogInvoke \<lparr>pi_remoteID = l_remoteID (rs_lk rs i), pi_srvName = srvName, pi_seq = sq\<rparr> arg])"
  by (auto simp: onRequest_def Let_def dest!: rpc_send_sel split: sum.splits option.splits if_splits)

lemma onRequest_inv:
  assumes inv: "rpc_inv rs" and s: "onRequest typeOf showT i srvName sq arg rs = Some rs'"
  shows "rpc_inv rs'"
proof (cases "rs_log rs' = rs_log rs")
  case True
  then show ?thesis using onRequest_sel [OF s] inv by (auto elim: rpc_inv_cong)
next
  case False
  then have l: "rs_log rs' = rs_log rs @ [LogInvoke \<lparr>pi_remoteID = l_remoteID (rs_lk rs i), pi_srvName = srvName, pi_seq = sq\<rparr> arg]" using onRequest_sel [OF s] by simp
  show ?thesis using onRequest_sel [OF s] by (intro rpc_inv_log [OF inv _ l]) (simp_all add: answers_def)
qed

section \<open>What a run of the time-outs does\<close>

definition expired :: "int \<Rightarrow> ('m, 'cb) RPCDynamicData \<Rightarrow> u64 \<Rightarrow> bool" where
  "expired now d sq = (case d_pending d sq of None \<Rightarrow> False
     | Some call \<Rightarrow> since (items (d_timeout d) (rc_item call)) + rpcTimeout \<le> now)"

definition timeoutLog :: "int \<Rightarrow> ('m, 'cb) RPCDynamicData \<Rightarrow> ('m, 'cb) rpc_log set" where
  "timeoutLog now d = {LogTimeout sq (rc_cb call) | sq call. d_pending d sq = Some call \<and> expired now d sq}"

text \<open>What the loop owes: the overdue calls gone and called back, everything else as it was.\<close>

definition timed_out :: "int \<Rightarrow> ('m, 'cb) RPCStatic \<Rightarrow> ('m, 'cb) RPCStatic \<Rightarrow> bool" where
  "timed_out now rs rs' \<longleftrightarrow> rpc_inv rs' \<and>
     d_pending (rs_data rs') = (\<lambda>sq. if expired now (rs_data rs) sq then None else d_pending (rs_data rs) sq) \<and>
     (\<exists>es. rs_log rs' = rs_log rs @ es \<and> set es = timeoutLog now (rs_data rs) \<and>
        TimeoutCount (rs_metric rs') = TimeoutCount (rs_metric rs) + length es) \<and>
     d_calls (rs_data rs') = d_calls (rs_data rs)"

lemma timed_out_none:
  assumes "rpc_inv rs'" "\<And>sq. \<not> expired now (rs_data rs) sq" "d_pending (rs_data rs') = d_pending (rs_data rs)"
    "rs_log rs' = rs_log rs" "rs_metric rs' = rs_metric rs" "d_calls (rs_data rs') = d_calls (rs_data rs)"
  shows "timed_out now rs rs'"
  using assms by (simp add: timed_out_def timeoutLog_def)

lemma timed_out_step:
  assumes p: "d_pending (rs_data rs) sq = Some call" "expired now (rs_data rs) sq"
    and d: "\<And>s. expired now (rs_data r1) s \<longleftrightarrow> s \<noteq> sq \<and> expired now (rs_data rs) s"
      "d_pending (rs_data r1) = (d_pending (rs_data rs))(sq := None)" "d_calls (rs_data r1) = d_calls (rs_data rs)"
    and l: "rs_log r1 = rs_log rs @ [LogTimeout sq (rc_cb call)]" "TimeoutCount (rs_metric r1) = TimeoutCount (rs_metric rs) + 1"
    and t: "timed_out now r1 rs'"
  shows "timed_out now rs rs'"
proof -
  obtain es where es: "rs_log rs' = rs_log r1 @ es" "set es = timeoutLog now (rs_data r1)"
      "TimeoutCount (rs_metric rs') = TimeoutCount (rs_metric r1) + length es"
    using t by (auto simp: timed_out_def)
  have in1: "LogTimeout s (rc_cb c) \<in> timeoutLog now (rs_data rs)" if "d_pending (rs_data rs) s = Some c" "expired now (rs_data rs) s" for s c
    using that by (auto simp: timeoutLog_def)
  have in2: "LogTimeout s (rc_cb c) \<in> insert (LogTimeout sq (rc_cb call)) (timeoutLog now (rs_data r1))"
    if "d_pending (rs_data rs) s = Some c" "expired now (rs_data rs) s" for s c
    using that p(1) by (cases "s = sq") (auto simp: timeoutLog_def d)
  have "set (LogTimeout sq (rc_cb call) # es) = timeoutLog now (rs_data rs)"
  proof (rule equalityI)
    show "set (LogTimeout sq (rc_cb call) # es) \<subseteq> timeoutLog now (rs_data rs)"
      using in1 [OF p] in1 by (auto simp: es(2) timeoutLog_def [of now "rs_data r1"] d split: if_splits)
    show "timeoutLog now (rs_data rs) \<subseteq> set (LogTimeout sq (rc_cb call) # es)"
      using in2 by (auto simp: es(2) timeoutLog_def [of now "rs_data rs"])
  qed
  moreover have "rs_log rs' = rs_log rs @ LogTimeout sq (rc_cb call) # es" by (simp add: es(1) l)
  moreover have "TimeoutCount (rs_metric rs') = TimeoutCount (rs_metric rs) + length (LogTimeout sq (rc_cb call) # es)"
    by (simp add: es(3) l)
  moreover have "d_pending (rs_data rs') = (\<lambda>s. if expired now (rs_data rs) s then None else d_pending (rs_data rs) s)"
    using t p by (auto simp: timed_out_def d)
  ultimately show ?thesis using t unfolding timed_out_def d by blast
qed

text \<open>The item that comes out first is the oldest: if it is not overdue, no call is.\<close>

lemma pop_young:
  assumes ok: "data_ok d" and p: "heap_Pop (d_timeout d) = Some (a, q)" and y: "since (items q a) + rpcTimeout > now"
  shows "\<not> expired now d sq"
proof (cases "d_pending d sq")
  case None
  then show ?thesis by (simp add: expired_def)
next
  case (Some call)
  then show ?thesis using pop_ok(7) [OF ok p data_okD(8) [OF ok Some]] pop_ok(3) [OF ok p] y by (simp add: expired_def)
qed

lemma pop_old:
  assumes ok: "data_ok d" and p: "heap_Pop (d_timeout d) = Some (a, q)" and sq: "sq = fst (tv (items q a))"
    and y: "since (items q a) + rpcTimeout \<le> now"
  shows "expired now d sq"
    "expired now (d\<lparr>d_pending := (d_pending d)(sq := None), d_timeout := q\<rparr>) s \<longleftrightarrow> s \<noteq> sq \<and> expired now d s"
proof -
  have k: "since (items q b) = since (items (d_timeout d) b)" for b
    using kept_sel(5) [OF Pop_Some(5) [OF data_okD(1) [OF ok] p]] .
  show "expired now d sq" using pop_ok(4) [OF ok p] y by (auto simp: expired_def sq k)
  show "expired now (d\<lparr>d_pending := (d_pending d)(sq := None), d_timeout := q\<rparr>) s \<longleftrightarrow> s \<noteq> sq \<and> expired now d s"
    by (cases "s = sq") (simp_all add: expired_def k split: option.split)
qed

lemma no_item_no_call: "data_ok d \<Longrightarrow> tq (d_timeout d) = [] \<Longrightarrow> d_pending d sq = None"
  using data_okD(8) [of d sq] by (cases "d_pending d sq") auto

lemma Pop_length: "timer_inv c \<Longrightarrow> heap_Pop c = Some (a, c') \<Longrightarrow> length (tq c') < length (tq c)"
  using Pop_spec [of c] by (cases "tq c") (force simp: heap_Pop_def)+

lemma data_swap: "d\<lparr>d_timeout := q, d_pending := p\<rparr> = d\<lparr>d_pending := p, d_timeout := q\<rparr>"
  by (cases d) simp

lemma runTimeouts_spec:
  "rpc_inv rs \<Longrightarrow> \<exists>rs'. runTimeouts now rs = Some rs' \<and> timed_out now rs rs'"
proof (induction "length (tq (d_timeout (rs_data rs)))" arbitrary: rs rule: less_induct)
  case less
  let ?d = "rs_data rs"
  note ok = rpc_invD(1) [OF less.prems]
  show ?case
  proof (cases "heap_Pop (d_timeout ?d)")
    case None
    then have "tq (d_timeout ?d) = []" using Pop_spec [OF data_okD(1) [OF ok]] by force
    then have "timed_out now rs rs"
      using no_item_no_call [OF ok] by (intro timed_out_none less.prems) (simp_all add: expired_def)
    moreover have "runTimeouts now rs = Some rs" using None by (subst runTimeouts.simps) (simp add: Let_def)
    ultimately show ?thesis by blast
  next
    case (Some r)
    obtain a q where r: "r = (a, q)" by (cases r)
    note pop = Some [unfolded r]
    define sq where "sq = fst (tv (items q a))"
    note po = pop_ok [OF ok pop, folded sq_def]
    obtain call where call: "d_pending ?d sq = Some call" using po(4) by blast
    show ?thesis
    proof (cases "since (items q a) + rpcTimeout > now")
      case True
      let ?r = "rs\<lparr>rs_data := ?d\<lparr>d_timeout := heap_Push q a\<rparr>\<rparr>"
      have "runTimeouts now rs = Some ?r"
        using pop True call by (subst runTimeouts.simps) (simp add: Let_def sq_def)
      moreover have "rpc_inv ?r" using less.prems po(6) by (simp add: rpc_inv_def)
      then have "timed_out now rs ?r" using pop_young [OF ok pop True] by (intro timed_out_none) simp_all
      ultimately show ?thesis by blast
    next
      case False
      let ?me = "rs_metric rs"
      let ?r = "log (LogTimeout sq (rc_cb call)) (rs\<lparr>rs_data := ?d\<lparr>d_pending := (d_pending ?d)(sq := None), d_timeout := q\<rparr>,
        rs_metric := ?me\<lparr>TimeoutCount := TimeoutCount ?me + 1\<rparr>\<rparr>)"
      have run: "runTimeouts now rs = runTimeouts now ?r"
        using pop False call by (subst runTimeouts.simps) (simp add: Let_def sq_def data_swap)
      have inv: "rpc_inv ?r"
        by (rule rpc_inv_settle [OF less.prems call po(5), where e = "LogTimeout sq (rc_cb call)"]) (auto simp: answers_def)
      have "length (tq q) < length (tq (d_timeout ?d))" by (rule Pop_length [OF data_okD(1) [OF ok] pop])
      then obtain rs' where rs': "runTimeouts now ?r = Some rs'" "timed_out now ?r rs'" using less.hyps [OF _ inv] by auto
      have "timed_out now rs rs'"
        by (rule timed_out_step [OF call _ _ _ _ _ _ rs'(2)])
          (use pop_old [OF ok pop sq_def, of now] False in \<open>simp_all add: log_def\<close>)
      then show ?thesis using run rs'(1) by simp
    qed
  qed
qed

section \<open>Runs\<close>

text \<open>The main loop: everything that reads or changes the calls. The links change on their own
  (\<open>rr_links\<close>); a call needs a number that was not used before, so the runs stop short of the
  wrap-around of the 64-bit counter.\<close>

inductive rpc_run :: "('m \<Rightarrow> goType) \<Rightarrow> (goType \<Rightarrow> string) \<Rightarrow> ('m \<Rightarrow> nat) \<Rightarrow> ('m, 'cb) RPCStatic \<Rightarrow> bool"
  for typeOf :: "'m \<Rightarrow> goType" and showT :: "goType \<Rightarrow> string" and sz :: "'m \<Rightarrow> nat" where
  rr_new: "rpc_run typeOf showT sz (NewRPCStatic now lk)"
| rr_links: "rpc_run typeOf showT sz rs \<Longrightarrow> rpc_run typeOf showT sz (rs\<lparr>rs_lk := lk\<rparr>)"
| rr_register: "rpc_run typeOf showT sz rs \<Longrightarrow>
    rpc_run typeOf showT sz (snd (rpc_register pipe isProto typeName ms name useName rs))"
| rr_handler: "rpc_run typeOf showT sz rs \<Longrightarrow> rpc_run typeOf showT sz (AddClusterHandler namePrefix h rs)"
| rr_open: "rpc_run typeOf showT sz rs \<Longrightarrow> set hs = {(p, h). rs_handler rs p = Some h} \<Longrightarrow> rpc_run typeOf showT sz (rpc_OnOpen hs rs i)"
| rr_close: "rpc_run typeOf showT sz rs \<Longrightarrow> set hs = {(p, h). rs_handler rs p = Some h} \<Longrightarrow> rpc_run typeOf showT sz (rpc_OnClose hs rs i)"
| rr_callName: "rpc_run typeOf showT sz rs \<Longrightarrow> Suc (d_calls (rs_data rs)) < 2 ^ 64 \<Longrightarrow>
    CallName sz now nodename srvName arg cb rs = Some (ok, rs') \<Longrightarrow> rpc_run typeOf showT sz rs'"
| rr_callID: "rpc_run typeOf showT sz rs \<Longrightarrow> Suc (d_calls (rs_data rs)) < 2 ^ 64 \<Longrightarrow>
    CallID sz now remoteID srvName arg cb rs = Some (ok, rs') \<Longrightarrow> rpc_run typeOf showT sz rs'"
| rr_pipeCall: "rpc_run typeOf showT sz rs \<Longrightarrow> Suc (d_calls (rs_data rs)) < 2 ^ 64 \<Longrightarrow>
    Pipe_Call sz now p srvName arg cb rs = Some rs' \<Longrightarrow> rpc_run typeOf showT sz rs'"
| rr_reply: "rpc_run typeOf showT sz rs \<Longrightarrow> Pipe_Reply p reply rs = Some rs' \<Longrightarrow> rpc_run typeOf showT sz rs'"
| rr_message: "rpc_run typeOf showT sz rs \<Longrightarrow> rpc_OnMessage typeOf showT sz i pk rs = Some rs' \<Longrightarrow> rpc_run typeOf showT sz rs'"
| rr_tick: "rpc_run typeOf showT sz rs \<Longrightarrow> runTimeouts now rs = Some rs' \<Longrightarrow> rpc_run typeOf showT sz rs'"

lemma rpc_inv_new: "rpc_inv (NewRPCStatic now lk)"
  by (simp add: rpc_inv_def NewRPCStatic_def NewRPCDynamicData_def data_ok_def Timer_New_def timer_inv_def indexed_def
      heap_below_def)

lemma rpc_register_sel: "rs_data (snd (rpc_register pipe isProto typeName ms name useName rs)) = rs_data rs"
  "rs_log (snd (rpc_register pipe isProto typeName ms name useName rs)) = rs_log rs"
  by (simp_all add: rpc_register_def Let_def)

lemma rpc_link_sel: "rs_data (rpc_OnOpen hs rs i) = rs_data rs" "rs_data (rpc_OnClose hs rs i) = rs_data rs"
  "rs_log (rpc_OnOpen hs rs i) = rs_log rs \<or> (\<exists>h n. rs_log (rpc_OnOpen hs rs i) = rs_log rs @ [LogOpen h n i])"
  "rs_log (rpc_OnClose hs rs i) = rs_log rs \<or> (\<exists>h n. rs_log (rpc_OnClose hs rs i) = rs_log rs @ [LogClose h n i])"
  by (auto simp: rpc_OnOpen_def rpc_OnClose_def callClusterOnOpen_def callClusterOnClose_def Let_def split: option.split)

lemma rpc_link_inv:
  assumes "rpc_inv rs"
  shows "rpc_inv (rpc_OnOpen hs rs i)" "rpc_inv (rpc_OnClose hs rs i)"
  using rpc_link_sel(1,3) [of hs rs i] rpc_link_sel(2,4) [of hs rs i] rpc_inv_cong [OF _ _ assms] rpc_inv_log [OF assms]
  by (auto simp: answers_def)

lemma rpc_run_inv: "rpc_run typeOf showT sz rs \<Longrightarrow> rpc_inv rs"
proof (induction rule: rpc_run.induct)
  case (rr_new now lk)
  show ?case by (rule rpc_inv_new)
next
  case (rr_callName rs now nodename srvName arg cb ok rs')
  then show ?case by (auto simp: CallName_def split: option.splits bind_splits elim: sendCall_inv rpc_inv_cong [rotated 2])
next
  case (rr_callID rs now remoteID srvName arg cb ok rs')
  then show ?case by (auto simp: CallID_def split: option.splits bind_splits elim: sendCall_inv rpc_inv_cong [rotated 2])
next
  case (rr_pipeCall rs now p srvName arg cb rs')
  then show ?case by (auto simp: Pipe_Call_def split: option.splits elim: sendCall_inv rpc_inv_cong [rotated 2])
next
  case (rr_reply rs p reply rs')
  then show ?case by (auto simp: Pipe_Reply_def dest!: rpc_send_sel split: option.splits elim: rpc_inv_cong [rotated 2])
next
  case (rr_message rs i pk rs')
  then show ?case by (auto simp: rpc_OnMessage_def split: rpcPacket.splits elim: onRequest_inv onResponse_inv)
next
  case (rr_tick rs now rs')
  then show ?case using runTimeouts_spec [of rs now] by (auto simp: timed_out_def)
next
  case (rr_open rs hs i)
  show ?case by (rule rpc_link_inv(1) [OF rr_open.IH])
next
  case (rr_close rs hs i)
  show ?case by (rule rpc_link_inv(2) [OF rr_close.IH])
qed (simp_all add: rpc_inv_def rpc_register_sel AddClusterHandler_def)

text \<open>C32: in every run each call with a callback is either pending or was settled exactly once, by its
  reply, by an error response or by its time-out; nothing is settled that was not called; a number
  is given to at most one call; and the callback called is the one given with the call.\<close>

theorem rpc_callback_once:
  assumes "rpc_run typeOf showT sz rs"
  shows "settled sq (rs_log rs) + (if d_pending (rs_data rs) sq = None then 0 else 1) = called sq (rs_log rs) \<and>
    called sq (rs_log rs) \<le> 1 \<and>
    (LogReply sq cb reply \<in> set (rs_log rs) \<or> LogTimeout sq cb \<in> set (rs_log rs) \<longrightarrow> LogCall sq cb \<in> set (rs_log rs))"
  using rpc_invD(2,3) [OF rpc_run_inv [OF assms]] rpc_invD(6) [OF rpc_run_inv [OF assms], of "LogReply sq cb reply"]
    rpc_invD(6) [OF rpc_run_inv [OF assms], of "LogTimeout sq cb"] by (auto simp: answers_def)

text \<open>C33: the time-out pass always returns, and it calls back, once each and with the time-out flag,
  exactly the pending calls made at least 60 seconds ago; these leave the table and are counted, all
  other pending calls stay.\<close>

theorem rpc_timeouts_exact:
  assumes "rpc_run typeOf showT sz rs"
  shows "\<exists>rs' es. runTimeouts now rs = Some rs' \<and> rs_log rs' = rs_log rs @ es \<and>
    set es = {LogTimeout sq (rc_cb call) | sq call. d_pending (rs_data rs) sq = Some call \<and>
      since (items (d_timeout (rs_data rs)) (rc_item call)) + 60000000000 \<le> now} \<and>
    (\<forall>sq. settled sq es \<le> 1) \<and> TimeoutCount (rs_metric rs') = TimeoutCount (rs_metric rs) + length es \<and>
    (\<forall>sq call. d_pending (rs_data rs') sq = Some call \<longleftrightarrow> d_pending (rs_data rs) sq = Some call \<and>
      now < since (items (d_timeout (rs_data rs)) (rc_item call)) + 60000000000)"
proof -
  from runTimeouts_spec [OF rpc_run_inv [OF assms], of now] obtain rs' where r: "runTimeouts now rs = Some rs'" "timed_out now rs rs'"
    by blast
  from r(2) obtain es where es: "rs_log rs' = rs_log rs @ es" "set es = timeoutLog now (rs_data rs)"
    "TimeoutCount (rs_metric rs') = TimeoutCount (rs_metric rs) + length es" "rpc_inv rs'"
    "d_pending (rs_data rs') = (\<lambda>sq. if expired now (rs_data rs) sq then None else d_pending (rs_data rs) sq)"
    by (auto simp: timed_out_def)
  have "settled sq es \<le> 1" for sq
    using rpc_invD(2,3) [OF es(4), of sq] by (simp add: es(1) split: if_splits)
  moreover have "set es = {LogTimeout sq (rc_cb call) | sq call. d_pending (rs_data rs) sq = Some call \<and>
      since (items (d_timeout (rs_data rs)) (rc_item call)) + 60000000000 \<le> now}"
    unfolding es(2) by (auto simp: timeoutLog_def expired_def rpcTimeout_def)
  moreover have "d_pending (rs_data rs') sq = Some call \<longleftrightarrow> d_pending (rs_data rs) sq = Some call \<and>
      now < since (items (d_timeout (rs_data rs)) (rc_item call)) + 60000000000" for sq call
    by (auto simp: es(5) expired_def rpcTimeout_def)
  ultimately show ?thesis using r(1) es(1,3) by (intro exI [of _ rs'] exI [of _ es] conjI allI) simp_all
qed

section \<open>An example\<close>

definition demo_rpc_link :: "nat rpcPacket Link" where
  "demo_rpc_link = (newLink ''10.0.0.2:90'' 1 ''gate'' True)\<lparr>l_remoteID := 9, l_remoteName := ''game,match''\<rparr>"

definition demo_rpc :: "(nat, string) RPCStatic" where
  "demo_rpc = rpc_OnOpen [] (NewRPCStatic 0 (\<lambda>_. demo_rpc_link)) 0"

definition demo_called :: "(nat, string) RPCStatic" where
  "demo_called = (case CallName (\<lambda>_. 4) 5 ''match'' ''S.Join'' 7 (Some ''cb'') demo_rpc of Some (_, rs) \<Rightarrow> rs | None \<Rightarrow> demo_rpc)"

lemma Link_Send_some:
  assumes "SingleConsumer_inv (l_sendq l)" "\<not> l_sigClosed l"
  shows "\<exists>l'. Link_Send zero l pk = Some (l_serial l, l')"
proof -
  obtain q where "SingleConsumer_Push zero (l_sendq l) pk = Some q" using SingleConsumer_Push_spec [OF assms(1)] by blast
  then show ?thesis using assms(2) by (auto simp: Link_Send_def trySignal_def Let_def)
qed

lemma demo_rpc_send: "\<exists>rs'. sendCall (\<lambda>_. 4) 5 0 ''S.Join'' 7 (Some ''cb'') demo_rpc = Some rs'"
proof -
  have l: "rs_lk demo_rpc 0 = demo_rpc_link" by (simp add: demo_rpc_def rpc_OnOpen_def callClusterOnOpen_def NewRPCStatic_def Let_def)
  have s: "\<exists>l'. Link_Send rpc_zero demo_rpc_link pk = Some (0, l')" for pk
    using Link_Send_some [of demo_rpc_link rpc_zero pk] by (simp add: demo_rpc_link_def newLink_def)
  show ?thesis
    using s [of "Request ''S.Join'' (d_seq (rs_data demo_rpc) + 1) (Some 7)"] l by (auto simp: sendCall_def rpc_send_def log_def Let_def)
qed

lemma demo_rpc_call:
  shows "sendCall (\<lambda>_. 4) 5 0 ''S.Join'' 7 (Some ''cb'') demo_rpc = Some demo_called"
    and "CallName (\<lambda>_. 4) 5 ''match'' ''S.Join'' 7 (Some ''cb'') demo_rpc = Some (True, demo_called)"
proof -
  have n: "rs_name2link demo_rpc ''match'' = Some 0"
    by (simp add: demo_rpc_def rpc_OnOpen_def callClusterOnOpen_def demo_rpc_link_def NewRPCStatic_def Let_def newLink_def)
  show "sendCall (\<lambda>_. 4) 5 0 ''S.Join'' 7 (Some ''cb'') demo_rpc = Some demo_called"
      "CallName (\<lambda>_. 4) 5 ''match'' ''S.Join'' 7 (Some ''cb'') demo_rpc = Some (True, demo_called)"
    using demo_rpc_send n by (auto simp: demo_called_def CallName_def)
qed

lemma demo_rpc_sel: "rs_data demo_rpc = NewRPCDynamicData 0" "rs_log demo_rpc = []" "rs_log demo_called = [LogCall 1 ''cb'']"
  "rs_data demo_called = addPending 5 ''S.Join'' 7 ''cb'' ((NewRPCDynamicData 0)\<lparr>d_seq := 1, d_calls := 1\<rparr>)"
  using sendCall_sel [OF demo_rpc_call(1) refl]
  by (simp_all add: demo_rpc_def NewRPCStatic_def NewRPCDynamicData_def rpc_OnOpen_def callClusterOnOpen_def Let_def)

lemma demo_rpc_run: "rpc_run typeOf showT (\<lambda>_. 4) demo_called"
proof (rule rr_callName [OF _ _ demo_rpc_call(2)])
  show "rpc_run typeOf showT (\<lambda>_. 4) demo_rpc" unfolding demo_rpc_def by (intro rr_open rr_new) (simp add: NewRPCStatic_def)
qed (simp add: demo_rpc_sel NewRPCDynamicData_def)

theorem rpc_callback_once_witness:
  "rpc_run (\<lambda>_. GNamed ''Msg'' []) (\<lambda>_. ''Msg'') (\<lambda>_. 4) demo_called \<and> called 1 (rs_log demo_called) = 1 \<and>
   d_pending (rs_data demo_called) 1 \<noteq> None"
  using demo_rpc_run [of "\<lambda>_. GNamed ''Msg'' []" "\<lambda>_. ''Msg''"]
    rpc_callback_once [OF demo_rpc_run [of "\<lambda>_. GNamed ''Msg'' []" "\<lambda>_. ''Msg''"], of 1 "''cb''" None, THEN conjunct1]
  by (simp add: demo_rpc_sel(3) split: if_splits)

theorem rpc_timeouts_exact_witness:
  "\<exists>rs'. runTimeouts 60000000005 demo_called = Some rs' \<and> set (rs_log rs') = {LogCall 1 ''cb'', LogTimeout 1 ''cb''}"
proof -
  have p: "d_pending (rs_data demo_called) sq = (if sq = 1 then Some \<lparr>rc_srvName = ''S.Join'', rc_arg = 7, rc_cb = ''cb'', rc_item = Cell 0 1\<rparr> else None)" for sq
    by (simp add: demo_rpc_sel addPending_def NewRPCDynamicData_def Let_def)
  have s: "since (items (d_timeout (rs_data demo_called)) (Cell 0 1)) = 5"
  proof -
    let ?q = "(d_timeout (NewRPCDynamicData 0 :: (nat, string) RPCDynamicData))\<lparr>items := (items (d_timeout (NewRPCDynamicData 0 :: (nat, string) RPCDynamicData)))
      (Cell 0 1 := \<lparr>index = 0, dual = 0, since = 5, tv = (1, ''S.Join'')\<rparr>)\<rparr>"
    have "timer_inv ?q" "Cell 0 1 \<notin> set (tq ?q)"
      by (simp_all add: NewRPCDynamicData_def Timer_New_def timer_inv_def indexed_def heap_below_def)
    from kept_sel(5) [OF Push_facts(5) [OF this], of "Cell 0 1"] show ?thesis by (simp add: demo_rpc_sel addPending_def Let_def)
  qed
  let ?es = "{LogTimeout sq (rc_cb call) | sq call. d_pending (rs_data demo_called) sq = Some call \<and>
      since (items (d_timeout (rs_data demo_called)) (rc_item call)) + 60000000000 \<le> 60000000005}"
  have es: "?es = {LogTimeout 1 ''cb''}"
    using s by (auto simp: p split: if_splits)
  from rpc_timeouts_exact [OF demo_rpc_run [of "\<lambda>_. GNamed ''Msg'' []" "\<lambda>_. ''Msg''"], of 60000000005] show ?thesis
  proof (elim exE conjE)
    fix rs' es
    assume r: "runTimeouts 60000000005 demo_called = Some rs'" "rs_log rs' = rs_log demo_called @ es" "set es = ?es"
    have "set (rs_log rs') = {LogCall 1 ''cb'', LogTimeout 1 ''cb''}" unfolding r(2) set_append r(3) es by (auto simp: demo_rpc_sel(3))
    then show ?thesis using r(1) by blast
  qed
qed

text \<open>Two links whose names overlap: when the first closes, the shared name is gone although the
  second link, which owns it by then, is still open.\<close>

lemma rpc_close_drops_name:
  assumes "l_remoteID (rs_lk rs 0) \<noteq> l_remoteID (rs_lk rs 1)" "l_remoteName (rs_lk rs 0) = ''game''" "l_remoteName (rs_lk rs 1) = ''game''"
  shows "rs_name2link (rpc_OnOpen [] (rpc_OnOpen [] rs 0) 1) ''game'' = Some 1"
    "rs_name2link (rpc_OnClose [] (rpc_OnOpen [] (rpc_OnOpen [] rs 0) 1) 0) ''game'' = None"
    "rs_links (rpc_OnClose [] (rpc_OnOpen [] (rpc_OnOpen [] rs 0) 1) 0) (l_remoteID (rs_lk rs 1)) = Some 1"
  using assms by (simp_all add: rpc_OnOpen_def rpc_OnClose_def callClusterOnOpen_def callClusterOnClose_def Let_def)

end
