(* ===== verification/Rpc_Cluster.thy ===== *)
theory Rpc_Cluster
  imports Safelink_Context "HOL-Library.AList" "HOL-Library.List_Lexorder" "HOL-Library.Char_ord" "HOL-Library.Sublist"
    "HOL-Library.Multiset"
begin

text \<open>
  The cluster configuration (\<open>xrpc/rpccluster.go\<close>) and the manager that listens and dials by it
  (\<open>xhlink/hlink.go\<close>): which server listens where, who dials whom, and what a reload changes.
  A Go map is the list of its entries in the order in which a loop visits them; the field \<open>cfg\<close> of
  the RPC manager is passed on its own. Reading and parsing the file is a parameter: its result is an
  error text or the entries. Go compares strings by bytes, which is the lexicographic order of HOL
  lists of characters.
\<close>

section \<open>Data\<close>

datatype 'l HLinker = RpcHLink | OwnLinker 'l

record 'l HLinkUnitConfig =
  hu_Addr :: string
  hu_Linker :: "'l HLinker"

record 'l HLinkUnitCfgCreator =
  NamePrefix :: string
  Creator :: "string \<Rightarrow> 'l HLinkUnitConfig"

record clusterConfig =
  cc_Cluster :: "(string \<times> string) list"
  cc_Server :: "(string \<times> string) list"
  cc_Client :: "(string \<times> string list) list"

record NodeInfo =
  nodeName :: string
  Addr :: string

record 'l ClusterCfg =
  cf_Server :: "(string \<times> NodeInfo) list"
  cf_serverAddrSort :: "NodeInfo list"
  cf_Self :: string
  cf_specialLinker :: "'l HLinkUnitCfgCreator list"

section \<open>Reading the configuration\<close>

fun sliceFindFrom :: "int \<Rightarrow> NodeInfo \<Rightarrow> NodeInfo list \<Rightarrow> int" where
  "sliceFindFrom i a [] = -1"
| "sliceFindFrom i a (b # bs) = (if b = a then i else sliceFindFrom (i + 1) a bs)"

definition sliceFindServerAddr :: "NodeInfo \<Rightarrow> NodeInfo list \<Rightarrow> int" where
  "sliceFindServerAddr a bs = sliceFindFrom 0 a bs"

text \<open>\<open>sort.Slice\<close> by address; the addresses of a configuration that was accepted are different, so
  that there is one sorted arrangement only.\<close>

definition getClusterAddrSort :: "(string \<times> NodeInfo) list \<Rightarrow> NodeInfo list" where
  "getClusterAddrSort cluster = sort_key Addr (map snd cluster)"

definition getClusterServerAddr :: "string \<Rightarrow> string \<Rightarrow> NodeInfo" where
  "getClusterServerAddr nodename nodeaddr = \<lparr>nodeName = nodename, Addr = nodeaddr\<rparr>"

definition trimSpace :: "string \<Rightarrow> string" where
  "trimSpace s = rev (dropWhile (\<lambda>c. c = CHR '' '') (rev (dropWhile (\<lambda>c. c = CHR '' '') s)))"

definition checkSetRepeatedServerAddr :: "string \<Rightarrow> (string \<Rightarrow> string option) \<Rightarrow> NodeInfo \<Rightarrow> string + (string \<Rightarrow> string option)" where
  "checkSetRepeatedServerAddr nametrim addrmap srvAddr =
     (case addrmap (Addr srvAddr) of
        Some findname \<Rightarrow> Inl (nametrim @ '' same listen addr with '' @ findname)
      | None \<Rightarrow> Inr (addrmap(Addr srvAddr := Some nametrim)))"

fun rearrangeServers :: "(string \<times> string) list \<Rightarrow> (string \<Rightarrow> string option) \<Rightarrow> (string \<times> NodeInfo) list \<Rightarrow>
    string + (string \<times> NodeInfo) list" where
  "rearrangeServers [] addrtmp server = Inr server"
| "rearrangeServers ((nodename, nodeaddr) # es) addrtmp server =
     (let nametrim = trimSpace nodename; srvAddr = getClusterServerAddr nametrim nodeaddr;
          server = AList.update nametrim srvAddr server in
      case checkSetRepeatedServerAddr nametrim addrtmp srvAddr of
        Inl err \<Rightarrow> Inl err
      | Inr addrtmp \<Rightarrow> rearrangeServers es addrtmp server)"

definition checkAndRearrangeClusterCfg :: "clusterConfig \<Rightarrow> string \<Rightarrow> 'l HLinkUnitCfgCreator list \<Rightarrow> string + 'l ClusterCfg" where
  "checkAndRearrangeClusterCfg jsonCfgRead selfname specialLinker =
     (case rearrangeServers (cc_Server jsonCfgRead) (\<lambda>_. None) [] of
        Inl err \<Rightarrow> Inl err
      | Inr server \<Rightarrow> Inr \<lparr>cf_Server = server, cf_serverAddrSort = getClusterAddrSort server, cf_Self = selfname,
          cf_specialLinker = specialLinker\<rparr>)"

definition LoadClusterFile :: "string + clusterConfig \<Rightarrow> string \<Rightarrow> 'l HLinkUnitCfgCreator list \<Rightarrow> string + 'l ClusterCfg" where
  "LoadClusterFile clusterfile selfname specialLinker =
     (case clusterfile of Inl err \<Rightarrow> Inl err | Inr cfg \<Rightarrow> checkAndRearrangeClusterCfg cfg selfname specialLinker)"

section \<open>Who listens and who dials\<close>

definition newRPCHLink :: "string \<Rightarrow> 'l HLinkUnitConfig" where
  "newRPCHLink addr = \<lparr>hu_Addr = addr, hu_Linker = RpcHLink\<rparr>"

definition newClusterLink :: "string \<Rightarrow> string \<Rightarrow> 'l ClusterCfg \<Rightarrow> 'l HLinkUnitConfig" where
  "newClusterLink nodename addr cluster =
     (case find (\<lambda>linker. prefix (NamePrefix linker) nodename) (cf_specialLinker cluster) of
        Some linker \<Rightarrow> Creator linker addr
      | None \<Rightarrow> newRPCHLink addr)"

type_synonym 'l units = "'l HLinkUnitConfig list"

definition NewClusterHLinkFromFile :: "string + clusterConfig \<Rightarrow> string \<Rightarrow> 'l HLinkUnitCfgCreator list \<Rightarrow> 'l ClusterCfg option \<Rightarrow>
    (string + 'l units \<times> 'l units) \<times> 'l ClusterCfg option" where
  "NewClusterHLinkFromFile clusterfile selfname specialLinker old =
     (case LoadClusterFile clusterfile selfname specialLinker of
        Inl err \<Rightarrow> (Inl err, old)
      | Inr cfg \<Rightarrow>
          let link = (\<lambda>n. newClusterLink (nodeName n) (Addr n) cfg) in
          (Inr (case map_of (cf_Server cfg) (cf_Self cfg) of
              Some selfServerAddr \<Rightarrow>
                ([link selfServerAddr], map link (takeWhile (\<lambda>n. selfServerAddr \<noteq> n) (cf_serverAddrSort cfg)))
            | None \<Rightarrow> ([], map link (map snd (cf_Server cfg)))), Some cfg))"

text \<open>The closure of the reload; \<open>self\<close> is the entry of this server in the new configuration.\<close>

definition fillDialFunc :: "NodeInfo option \<Rightarrow> 'l ClusterCfg \<Rightarrow> 'l ClusterCfg \<Rightarrow> 'l units" where
  "fillDialFunc self traverse contrast =
     map (\<lambda>n. newClusterLink (nodeName n) (Addr n) traverse)
       (filter (\<lambda>n. sliceFindServerAddr n (cf_serverAddrSort contrast) < 0)
         (takeWhile (\<lambda>n. self \<noteq> Some n) (cf_serverAddrSort traverse)))"

definition ReloadClusterHLinkFromFile :: "string + clusterConfig \<Rightarrow> string \<Rightarrow> 'l ClusterCfg option \<Rightarrow>
    (string + 'l units \<times> 'l units) \<times> 'l ClusterCfg option" where
  "ReloadClusterHLinkFromFile clusterfile selfname cfg =
     (case cfg of
        None \<Rightarrow> (Inl ''no init cfg in ReloadClusterHLinkFromFile'', None)
      | Some oldCfg \<Rightarrow>
          (case LoadClusterFile clusterfile selfname (cf_specialLinker oldCfg) of
             Inl err \<Rightarrow> (Inl err, cfg)
           | Inr newCfg \<Rightarrow>
               if cf_Self oldCfg \<noteq> cf_Self newCfg
               then (Inl (''Reload cluster selfname different ['' @ cf_Self oldCfg @ ''] != ['' @ cf_Self newCfg @ '']''), cfg)
               else let self = map_of (cf_Server newCfg) (cf_Self newCfg) in
                 (Inr (fillDialFunc self newCfg oldCfg, fillDialFunc self oldCfg newCfg), Some newCfg)))"

definition GetServerWithPrefix :: "'l ClusterCfg \<Rightarrow> string \<Rightarrow> string list" where
  "GetServerWithPrefix cfg namePrefix = filter (prefix namePrefix) (map fst (cf_Server cfg))"

section \<open>The link manager\<close>

text \<open>\<open>ctx.Listen\<close> and the goroutine that \<open>ctx.PostDial\<close> starts are recorded with their arguments; the
  part of both that runs at once on the context is the reset of \<open>isstop\<close>.\<close>

record 'l HLinkConfig =
  RouteID :: int
  hc_Name :: string
  ListenMap :: "string \<Rightarrow> 'l HLinkUnitConfig option"
  DialMap :: "string \<Rightarrow> 'l HLinkUnitConfig option"

record ('l, 'pk) HLinkMgr =
  hm_config :: "'l HLinkConfig"
  hm_ctx :: "'pk Context"
  hm_listened :: "'l units"
  hm_dialled :: "'l units"

text \<open>A repeated address ends the process (\<open>None\<close>).\<close>

fun unitMap :: "'l units \<Rightarrow> (string \<Rightarrow> 'l HLinkUnitConfig option) \<Rightarrow> (string \<Rightarrow> 'l HLinkUnitConfig option) option" where
  "unitMap [] m = Some m"
| "unitMap (u # us) m = (if m (hu_Addr u) \<noteq> None then None else unitMap us (m(hu_Addr u := Some u)))"

definition NewHLinkConfig :: "string \<Rightarrow> int \<Rightarrow> 'l units \<Rightarrow> 'l units \<Rightarrow> 'l HLinkConfig option" where
  "NewHLinkConfig name routeID listen dial = do {
     l \<leftarrow> unitMap listen (\<lambda>_. None);
     d \<leftarrow> unitMap dial (\<lambda>_. None);
     Some \<lparr>RouteID = routeID, hc_Name = name, ListenMap = l, DialMap = d\<rparr> }"

definition NewHLinkMgr :: "'l HLinkConfig \<Rightarrow> (nat \<Rightarrow> 'pk Link) \<Rightarrow> ('l, 'pk) HLinkMgr" where
  "NewHLinkMgr config lk = \<lparr>hm_config = config, hm_ctx = NewContext lk, hm_listened = [], hm_dialled = []\<rparr>"

definition hm_PostDial :: "'l HLinkUnitConfig \<Rightarrow> ('l, 'pk) HLinkMgr \<Rightarrow> ('l, 'pk) HLinkMgr" where
  "hm_PostDial u mgr = mgr\<lparr>hm_ctx := (hm_ctx mgr)\<lparr>cx_isstop := False\<rparr>, hm_dialled := hm_dialled mgr @ [u]\<rparr>"

definition hm_Listen :: "'l HLinkUnitConfig \<Rightarrow> ('l, 'pk) HLinkMgr \<Rightarrow> ('l, 'pk) HLinkMgr" where
  "hm_Listen u mgr = mgr\<lparr>hm_ctx := (hm_ctx mgr)\<lparr>cx_isstop := False\<rparr>, hm_listened := hm_listened mgr @ [u]\<rparr>"

fun AddDial :: "'l units \<Rightarrow> ('l, 'pk) HLinkMgr \<Rightarrow> ('l, 'pk) HLinkMgr" where
  "AddDial [] mgr = mgr"
| "AddDial (u # us) mgr =
     (let c = hm_config mgr in
      if DialMap c (hu_Addr u) \<noteq> None then AddDial us mgr
      else AddDial us (hm_PostDial u (mgr\<lparr>hm_config := c\<lparr>DialMap := (DialMap c)(hu_Addr u := Some u)\<rparr>\<rparr>)))"

fun DelDial :: "'l units \<Rightarrow> ('l, 'pk) HLinkMgr \<Rightarrow> ('l, 'pk) HLinkMgr" where
  "DelDial [] mgr = mgr"
| "DelDial (u # us) mgr =
     (let c = hm_config mgr in
      DelDial us (mgr\<lparr>hm_config := c\<lparr>DialMap := (DialMap c)(hu_Addr u := None)\<rparr>,
        hm_ctx := CloseDialConnection (hm_ctx mgr) (hu_Addr u)\<rparr>))"

text \<open>The loops of \<open>initLink\<close> visit \<open>ls\<close> and \<open>ds\<close>, the entries of the two maps.\<close>

definition initLink :: "'l units \<Rightarrow> 'l units \<Rightarrow> ('l, 'pk) HLinkMgr \<Rightarrow> ('l, 'pk) HLinkMgr" where
  "initLink ls ds mgr = fold hm_PostDial ds (fold hm_Listen ls mgr)"

definition HLinkMgr_Run :: "'pk watcher \<Rightarrow> ('l, 'pk) HLinkMgr \<Rightarrow> ('l, 'pk) HLinkMgr option" where
  "HLinkMgr_Run wat mgr = do { ctx \<leftarrow> Context_Tick wat (hm_ctx mgr); Some (mgr\<lparr>hm_ctx := ctx\<rparr>) }"

definition HLinkMgr_Destroy :: "('l, 'pk) HLinkMgr \<Rightarrow> ('l, 'pk) HLinkMgr" where
  "HLinkMgr_Destroy mgr = mgr\<lparr>hm_ctx := StopAll (hm_ctx mgr)\<rparr>"

section \<open>What an accepted configuration looks like\<close>

definition cfg_ok :: "'l ClusterCfg \<Rightarrow> bool" where
  "cfg_ok cfg \<longleftrightarrow> distinct (map fst (cf_Server cfg)) \<and> distinct (map (\<lambda>e. Addr (snd e)) (cf_Server cfg)) \<and>
     cf_serverAddrSort cfg = getClusterAddrSort (cf_Server cfg)"

definition nodes :: "'l ClusterCfg \<Rightarrow> NodeInfo set" where
  "nodes cfg = snd ` set (cf_Server cfg)"

lemma update_addrs: "(\<lambda>e. Addr (snd e)) ` set (AList.update k v al) \<subseteq> insert (Addr v) ((\<lambda>e. Addr (snd e)) ` set al)"
  by (induction al) auto

lemma update_addr_distinct:
  "distinct (map (\<lambda>e. Addr (snd e)) al) \<Longrightarrow> Addr v \<notin> (\<lambda>e. Addr (snd e)) ` set al \<Longrightarrow> distinct (map (\<lambda>e. Addr (snd e)) (AList.update k v al))"
proof (induction al)
  case (Cons e al)
  then show ?case using update_addrs [of k v al] by (cases e) auto
qed simp

lemma rearrangeServers_ok:
  assumes "rearrangeServers es m sv = Inr server" "distinct (map fst sv)" "distinct (map (\<lambda>e. Addr (snd e)) sv)"
    "(\<lambda>e. Addr (snd e)) ` set sv \<subseteq> dom m"
  shows "distinct (map fst server) \<and> distinct (map (\<lambda>e. Addr (snd e)) server)"
  using assms
proof (induction es arbitrary: m sv)
  case (Cons e es)
  let ?n = "trimSpace (fst e)" and ?a = "snd e" let ?v = "getClusterServerAddr ?n ?a" let ?sv = "AList.update ?n ?v sv"
  have v: "Addr ?v = ?a" by (simp add: getClusterServerAddr_def)
  from Cons.prems(1) have c: "m ?a = None" "rearrangeServers es (m(?a := Some ?n)) ?sv = Inr server"
    by (cases e; auto simp: checkSetRepeatedServerAddr_def getClusterServerAddr_def Let_def split: option.splits)+
  have "?a \<notin> (\<lambda>e. Addr (snd e)) ` set sv" using Cons.prems(4) c(1) by auto
  then have "distinct (map (\<lambda>e. Addr (snd e)) ?sv)" using update_addr_distinct [OF Cons.prems(3)] v by simp
  moreover have "(\<lambda>e. Addr (snd e)) ` set ?sv \<subseteq> dom (m(?a := Some ?n))"
    using update_addrs [of ?n ?v sv] Cons.prems(4) unfolding v by auto
  ultimately show ?case using Cons.prems(2) by (intro Cons.IH [OF c(2)] distinct_update)
qed simp

lemma LoadClusterFile_ok:
  assumes "LoadClusterFile file self sp = Inr cfg"
  shows "cfg_ok cfg" "cf_Self cfg = self" "cf_specialLinker cfg = sp"
  using assms rearrangeServers_ok [of _ "\<lambda>_. None" "[]"]
  by (auto simp: LoadClusterFile_def checkAndRearrangeClusterCfg_def cfg_ok_def split: sum.splits)

text \<open>A file without repeated names and addresses is accepted, and its servers are its entries.\<close>

definition serverEntry :: "string \<times> string \<Rightarrow> string \<times> NodeInfo" where
  "serverEntry e = (trimSpace (fst e), getClusterServerAddr (trimSpace (fst e)) (snd e))"

lemma update_append: "k \<notin> fst ` set al \<Longrightarrow> AList.update k v al = al @ [(k, v)]"
  by (induction al) auto

lemma rearrangeServers_entries:
  assumes "distinct (map fst sv @ map (\<lambda>e. trimSpace (fst e)) es)" "distinct (map snd es)" "\<And>a. a \<in> snd ` set es \<Longrightarrow> m a = None"
  shows "rearrangeServers es m sv = Inr (sv @ map serverEntry es)"
  using assms
proof (induction es arbitrary: m sv)
  case (Cons e es)
  let ?n = "trimSpace (fst e)"
  have m: "m (snd e) = None" using Cons.prems(3) by simp
  have "rearrangeServers (e # es) m sv =
      rearrangeServers es (m(snd e := Some ?n)) (sv @ [serverEntry e])"
    using m Cons.prems(1) by (cases e) (simp add: checkSetRepeatedServerAddr_def serverEntry_def getClusterServerAddr_def update_append Let_def)
  also have "\<dots> = Inr ((sv @ [serverEntry e]) @ map serverEntry es)"
  proof (rule Cons.IH)
    show "distinct (map fst (sv @ [serverEntry e]) @ map (\<lambda>e. trimSpace (fst e)) es)" using Cons.prems(1) by (auto simp: serverEntry_def o_def)
    show "distinct (map snd es)" using Cons.prems(2) by simp
    show "(m(snd e := Some ?n)) a = None" if "a \<in> snd ` set es" for a
      using Cons.prems(2) Cons.prems(3) [of a] that by (cases "a = snd e") auto
  qed
  finally show ?case by simp
qed simp

lemma LoadClusterFile_entries:
  assumes "distinct (map (\<lambda>e. trimSpace (fst e)) (cc_Server c))" "distinct (map snd (cc_Server c))"
  shows "\<exists>cfg. LoadClusterFile (Inr c) self sp = Inr cfg \<and> cf_Server cfg = map serverEntry (cc_Server c)"
  using rearrangeServers_entries [of "[]" "cc_Server c" "\<lambda>_. None"] assms
  by (simp add: LoadClusterFile_def checkAndRearrangeClusterCfg_def)

section \<open>The servers before this one\<close>

lemma takeWhile_below:
  fixes f :: "'a \<Rightarrow> 'b :: linorder"
  assumes "sorted (map f xs)" "distinct (map f xs)" "a \<in> set xs"
  shows "set (takeWhile (\<lambda>n. a \<noteq> n) xs) = {n \<in> set xs. f n < f a}"
  using assms
proof (induction xs)
  case (Cons x xs)
  then show ?case by (cases "a = x") (auto simp: order.strict_iff_order)
qed simp

lemma sorted_nodes: "cfg_ok cfg \<Longrightarrow> set (cf_serverAddrSort cfg) = nodes cfg"
  by (simp add: cfg_ok_def getClusterAddrSort_def nodes_def)

lemma nodes_inj:
  assumes "cfg_ok cfg" "n \<in> nodes cfg" "k \<in> nodes cfg" "Addr n = Addr k"
  shows "n = k"
proof -
  obtain x y where "(x, n) \<in> set (cf_Server cfg)" "(y, k) \<in> set (cf_Server cfg)" using assms(2,3) by (auto simp: nodes_def)
  moreover have "inj_on (\<lambda>e. Addr (snd e)) (set (cf_Server cfg))" using assms(1) unfolding cfg_ok_def distinct_map by blast
  ultimately show ?thesis using assms(4) by (auto dest!: inj_onD [where x = "(x, n)" and y = "(y, k)"])
qed

lemma nodes_before:
  assumes ok: "cfg_ok cfg" and a: "a \<in> nodes cfg"
  shows "set (takeWhile (\<lambda>n. a \<noteq> n) (cf_serverAddrSort cfg)) = {n \<in> nodes cfg. Addr n < Addr a}"
proof -
  have "mset (map Addr (cf_serverAddrSort cfg)) = mset (map (\<lambda>e. Addr (snd e)) (cf_Server cfg))"
    using ok by (simp add: cfg_ok_def getClusterAddrSort_def image_mset.compositionality o_def)
  then have "distinct (map Addr (cf_serverAddrSort cfg))" using mset_eq_imp_distinct_iff ok unfolding cfg_ok_def by blast
  moreover have "sorted (map Addr (cf_serverAddrSort cfg))" using ok by (simp add: cfg_ok_def getClusterAddrSort_def)
  ultimately show ?thesis using takeWhile_below [of Addr "cf_serverAddrSort cfg" a] a sorted_nodes [OF ok] by simp
qed

text \<open>The nodes a process dials.\<close>

definition dialNodes :: "'l ClusterCfg \<Rightarrow> NodeInfo set" where
  "dialNodes cfg = (case map_of (cf_Server cfg) (cf_Self cfg) of Some a \<Rightarrow> {n \<in> nodes cfg. Addr n < Addr a} | None \<Rightarrow> nodes cfg)"

definition keepsAddr :: "'l HLinkUnitCfgCreator list \<Rightarrow> bool" where
  "keepsAddr sp \<longleftrightarrow> (\<forall>c \<in> set sp. \<forall>a. hu_Addr (Creator c a) = a)"

lemma newClusterLink_addr: "keepsAddr (cf_specialLinker cfg) \<Longrightarrow> hu_Addr (newClusterLink n a cfg) = a"
  by (auto simp: newClusterLink_def newRPCHLink_def keepsAddr_def find_Some_iff split: option.split)

text \<open>A set of nodes as a map from addresses to link configurations.\<close>

definition unitOf :: "'l ClusterCfg \<Rightarrow> NodeInfo \<Rightarrow> 'l HLinkUnitConfig" where
  "unitOf cfg n = newClusterLink (nodeName n) (Addr n) cfg"

definition shows_nodes :: "(NodeInfo \<Rightarrow> 'l HLinkUnitConfig) \<Rightarrow> NodeInfo set \<Rightarrow> (string \<Rightarrow> 'l HLinkUnitConfig option) \<Rightarrow> bool" where
  "shows_nodes U N m \<longleftrightarrow> (\<forall>x u. m x = Some u \<longleftrightarrow> (\<exists>n \<in> N. Addr n = x \<and> u = U n))"

lemma shows_nodes_unique: "shows_nodes U N m \<Longrightarrow> shows_nodes U N m' \<Longrightarrow> m = m'"
  unfolding shows_nodes_def by (intro ext) (metis not_Some_eq)

lemma shows_nodes_dom: "shows_nodes U N m \<Longrightarrow> m x = None \<longleftrightarrow> x \<notin> Addr ` N"
  unfolding shows_nodes_def by (metis imageE imageI not_Some_eq)

lemma unitOf_addr: "keepsAddr (cf_specialLinker cfg) \<Longrightarrow> hu_Addr (unitOf cfg n) = Addr n"
  by (simp add: unitOf_def newClusterLink_addr)

lemma unitOf_cong: "cf_specialLinker cfg = cf_specialLinker cfg' \<Longrightarrow> unitOf cfg = unitOf cfg'"
  by (simp add: unitOf_def newClusterLink_def fun_eq_iff)

lemma shows_nodes_insert:
  assumes "shows_nodes U N m" "Addr n \<notin> Addr ` N"
  shows "shows_nodes U (insert n N) (m(Addr n := Some (U n)))"
  unfolding shows_nodes_def
proof (intro allI)
  fix x u
  have ne: "Addr k \<noteq> Addr n" if "k \<in> N" for k using assms(2) that by (metis imageI)
  show "(m(Addr n := Some (U n))) x = Some u \<longleftrightarrow> (\<exists>k \<in> insert n N. Addr k = x \<and> u = U k)"
    using assms by (cases "x = Addr n") (auto simp: shows_nodes_def dest: ne)
qed

lemma unitMap_nodes:
  assumes "distinct (map Addr ns)" "\<And>n. hu_Addr (U n) = Addr n" "shows_nodes U N m" "Addr ` N \<inter> Addr ` set ns = {}"
  shows "\<exists>m'. unitMap (map U ns) m = Some m' \<and> shows_nodes U (N \<union> set ns) m'"
  using assms
proof (induction ns arbitrary: m N)
  case (Cons n ns)
  have m: "m (Addr n) = None" using shows_nodes_dom [OF Cons.prems(3)] Cons.prems(4) by auto
  have s: "shows_nodes U (insert n N) (m(Addr n := Some (U n)))"
    using Cons.prems(4) by (intro shows_nodes_insert [OF Cons.prems(3)]) auto
  have "\<exists>m'. unitMap (map U ns) (m(Addr n := Some (U n))) = Some m' \<and> shows_nodes U (insert n N \<union> set ns) m'"
    using Cons.prems(1,4) by (intro Cons.IH [OF _ Cons.prems(2) s]) auto
  then show ?case using m Cons.prems(2) by simp
qed simp

lemma DelDial_map: "DialMap (hm_config (DelDial us mgr)) x = (if x \<in> hu_Addr ` set us then None else DialMap (hm_config mgr) x)"
  by (induction us mgr rule: DelDial.induct) (auto simp: Let_def)

lemma AddDial_nodes:
  assumes "distinct (map Addr ns)" "\<And>n. hu_Addr (U n) = Addr n" "shows_nodes U N (DialMap (hm_config mgr))"
    "Addr ` N \<inter> Addr ` set ns = {}"
  shows "shows_nodes U (N \<union> set ns) (DialMap (hm_config (AddDial (map U ns) mgr)))"
  using assms
proof (induction ns arbitrary: mgr N)
  case (Cons n ns)
  let ?c = "hm_config mgr"
  let ?mgr = "hm_PostDial (U n) (mgr\<lparr>hm_config := ?c\<lparr>DialMap := (DialMap ?c)(Addr n := Some (U n))\<rparr>\<rparr>)"
  have m: "DialMap ?c (Addr n) = None" using shows_nodes_dom [OF Cons.prems(3)] Cons.prems(4) by auto
  have s: "shows_nodes U (insert n N) (DialMap (hm_config ?mgr))"
    using shows_nodes_insert [OF Cons.prems(3), of n] Cons.prems(4) by (auto simp: hm_PostDial_def)
  have "shows_nodes U (insert n N \<union> set ns) (DialMap (hm_config (AddDial (map U ns) ?mgr)))"
    using Cons.prems(1,4) by (intro Cons.IH [OF _ Cons.prems(2) s]) auto
  then show ?case using m Cons.prems(2) by (simp add: Let_def)
qed simp

lemma sort_distinct:
  assumes "cfg_ok cfg"
  shows "distinct (map Addr (cf_serverAddrSort cfg))" "distinct (map Addr (map snd (cf_Server cfg)))"
proof -
  have "mset (map Addr (cf_serverAddrSort cfg)) = mset (map (\<lambda>e. Addr (snd e)) (cf_Server cfg))"
    using assms by (simp add: cfg_ok_def getClusterAddrSort_def image_mset.compositionality o_def)
  then show "distinct (map Addr (cf_serverAddrSort cfg))" using mset_eq_imp_distinct_iff assms unfolding cfg_ok_def by blast
  show "distinct (map Addr (map snd (cf_Server cfg)))" using assms by (simp add: cfg_ok_def o_def)
qed

text \<open>The start: the configuration of the links shows the nodes to dial.\<close>

lemma NewCluster_dials:
  assumes new: "NewClusterHLinkFromFile file self sp old = (Inr (l, d), Some cfg)"
  shows "LoadClusterFile file self sp = Inr cfg" "cfg_ok cfg" "\<exists>ns. d = map (unitOf cfg) ns \<and> set ns = dialNodes cfg \<and> distinct (map Addr ns)"
    "l = (case map_of (cf_Server cfg) self of Some a \<Rightarrow> [unitOf cfg a] | None \<Rightarrow> [])"
proof -
  show load: "LoadClusterFile file self sp = Inr cfg"
    using new by (auto simp: NewClusterHLinkFromFile_def Let_def split: sum.splits)
  note L = LoadClusterFile_ok [OF load]
  show "cfg_ok cfg" by (rule L(1))
  show "l = (case map_of (cf_Server cfg) self of Some a \<Rightarrow> [unitOf cfg a] | None \<Rightarrow> [])"
    using new load L(2) by (auto simp: NewClusterHLinkFromFile_def Let_def unitOf_def split: option.splits)
  show "\<exists>ns. d = map (unitOf cfg) ns \<and> set ns = dialNodes cfg \<and> distinct (map Addr ns)"
  proof (cases "map_of (cf_Server cfg) self")
    case None
    then show ?thesis using new load L(2) sort_distinct(2) [OF L(1)]
      by (intro exI [of _ "map snd (cf_Server cfg)"])
        (auto simp: NewClusterHLinkFromFile_def Let_def unitOf_def [abs_def] dialNodes_def nodes_def)
  next
    case (Some a)
    let ?ns = "takeWhile (\<lambda>n. a \<noteq> n) (cf_serverAddrSort cfg)"
    have "a \<in> nodes cfg" using map_of_SomeD [OF Some] by (force simp: nodes_def)
    then have "set ?ns = dialNodes cfg" using nodes_before [OF L(1)] Some L(2) by (simp add: dialNodes_def)
    moreover have "distinct (map Addr ?ns)"
      using sort_distinct(1) [OF L(1)] by (auto simp: distinct_map dest: set_takeWhileD intro: inj_on_subset)
    moreover have "d = map (unitOf cfg) ?ns" using new load L(2) Some by (simp add: NewClusterHLinkFromFile_def Let_def unitOf_def [abs_def])
    ultimately show ?thesis by blast
  qed
qed

lemma sliceFindFrom_neg: "0 \<le> i \<Longrightarrow> sliceFindFrom i a bs < 0 \<longleftrightarrow> a \<notin> set bs"
  by (induction bs arbitrary: i) auto

lemma sliceFind_neg [simp]: "sliceFindServerAddr a bs < 0 \<longleftrightarrow> a \<notin> set bs"
  by (simp add: sliceFindServerAddr_def sliceFindFrom_neg)

lemma fillDial_nodes:
  assumes t: "cfg_ok t" and c: "cfg_ok c" and self: "self = map_of (cf_Server t) (cf_Self t)"
  shows "\<exists>ns. fillDialFunc self t c = map (unitOf t) ns \<and> set ns = dialNodes t - nodes c \<and> distinct (map Addr ns)"
proof -
  let ?ns = "filter (\<lambda>n. sliceFindServerAddr n (cf_serverAddrSort c) < 0) (takeWhile (\<lambda>n. self \<noteq> Some n) (cf_serverAddrSort t))"
  have tw: "set (takeWhile (\<lambda>n. self \<noteq> Some n) (cf_serverAddrSort t)) = dialNodes t"
  proof (cases self)
    case None
    then have eq: "takeWhile (\<lambda>n. self \<noteq> Some n) (cf_serverAddrSort t) = cf_serverAddrSort t" by (simp add: takeWhile_eq_all_conv)
    show ?thesis unfolding eq using None self sorted_nodes [OF t] by (simp add: dialNodes_def)
  next
    case (Some a)
    then have "a \<in> nodes t" using map_of_SomeD self by (force simp: nodes_def)
    then show ?thesis using nodes_before [OF t] Some self by (auto simp: dialNodes_def split: option.splits)
  qed
  have "distinct (map Addr ?ns)"
    using sort_distinct(1) [OF t] by (auto simp: distinct_map dest: set_takeWhileD intro: inj_on_subset)
  moreover have "set ?ns = dialNodes t - nodes c" using tw by (auto simp: sorted_nodes [OF c])
  ultimately show ?thesis by (intro exI [of _ ?ns]) (simp add: fillDialFunc_def unitOf_def [abs_def])
qed

lemma start_spec:
  assumes c: "distinct (map (\<lambda>e. trimSpace (fst e)) (cc_Server c))" "distinct (map snd (cc_Server c))" "(n, a) \<in> set (cc_Server c)"
    and sp: "keepsAddr sp"
  shows "\<exists>l d. fst (NewClusterHLinkFromFile (Inr c) (trimSpace n) sp None) = Inr (l, d) \<and> map hu_Addr l = [a] \<and>
      hu_Addr ` set d = {b \<in> snd ` set (cc_Server c). b < a}"
proof -
  obtain cfg where cfg: "LoadClusterFile (Inr c) (trimSpace n) sp = Inr cfg" "cf_Server cfg = map serverEntry (cc_Server c)"
    using LoadClusterFile_entries [OF c(1,2)] by blast
  have "\<exists>r. NewClusterHLinkFromFile (Inr c) (trimSpace n) sp None = (Inr r, Some cfg)"
    using cfg(1) by (simp add: NewClusterHLinkFromFile_def Let_def)
  then obtain l d where new: "NewClusterHLinkFromFile (Inr c) (trimSpace n) sp None = (Inr (l, d), Some cfg)" by auto
  note L = LoadClusterFile_ok [OF cfg(1)]
  have "serverEntry (n, a) \<in> set (cf_Server cfg)" using c(3) unfolding cfg(2) set_map by (rule imageI)
  then have self: "map_of (cf_Server cfg) (trimSpace n) = Some (getClusterServerAddr (trimSpace n) a)"
    using L(1) by (simp add: cfg_ok_def serverEntry_def)
  obtain ns where ns: "d = map (unitOf cfg) ns" "set ns = dialNodes cfg" using NewCluster_dials(3) [OF new] by blast
  have U: "hu_Addr (unitOf cfg k) = Addr k" for k using unitOf_addr sp L(3) by blast
  have N: "Addr ` nodes cfg = snd ` set (cc_Server c)"
    by (simp add: nodes_def cfg(2) image_image serverEntry_def getClusterServerAddr_def)
  have "dialNodes cfg = {k \<in> nodes cfg. Addr k < a}" using self L(2) by (simp add: dialNodes_def getClusterServerAddr_def)
  then have "hu_Addr ` set d = {b \<in> Addr ` nodes cfg. b < a}" by (auto simp: ns image_image U)
  then show ?thesis using new NewCluster_dials(4) [OF new] self U unfolding N by (simp add: getClusterServerAddr_def)
qed

text \<open>C34: of two servers in a configuration with different names and addresses, whatever order their
  processes visit the entries in, each listens on its own address and exactly one dials the other:
  there is one connection between them. No server dials itself.\<close>

theorem cluster_one_dials:
  assumes "distinct (map (\<lambda>e. trimSpace (fst e)) (cc_Server c1))" "distinct (map snd (cc_Server c1))"
    and "mset (cc_Server c2) = mset (cc_Server c1)" "keepsAddr sp"
    and "(n1, a1) \<in> set (cc_Server c1)" "(n2, a2) \<in> set (cc_Server c1)" "a1 \<noteq> a2"
  shows "\<exists>l1 d1 l2 d2. fst (NewClusterHLinkFromFile (Inr c1) (trimSpace n1) sp None) = Inr (l1, d1) \<and>
    fst (NewClusterHLinkFromFile (Inr c2) (trimSpace n2) sp None) = Inr (l2, d2) \<and>
    map hu_Addr l1 = [a1] \<and> map hu_Addr l2 = [a2] \<and>
    (a2 \<in> hu_Addr ` set d1) \<noteq> (a1 \<in> hu_Addr ` set d2) \<and> a1 \<notin> hu_Addr ` set d1"
proof -
  have p: "distinct (map (\<lambda>e. trimSpace (fst e)) (cc_Server c2))" "distinct (map snd (cc_Server c2))" "set (cc_Server c2) = set (cc_Server c1)"
    using mset_eq_imp_distinct_iff [of "map (\<lambda>e. trimSpace (fst e)) (cc_Server c2)" "map (\<lambda>e. trimSpace (fst e)) (cc_Server c1)"]
      mset_eq_imp_distinct_iff [of "map snd (cc_Server c2)" "map snd (cc_Server c1)"] mset_eq_setD [OF assms(3)] assms(1-3)
    by simp_all
  obtain l1 d1 where r1: "fst (NewClusterHLinkFromFile (Inr c1) (trimSpace n1) sp None) = Inr (l1, d1)" "map hu_Addr l1 = [a1]"
    "hu_Addr ` set d1 = {b \<in> snd ` set (cc_Server c1). b < a1}" using start_spec [OF assms(1,2,5,4)] by (elim exE conjE) (rule that)
  obtain l2 d2 where r2: "fst (NewClusterHLinkFromFile (Inr c2) (trimSpace n2) sp None) = Inr (l2, d2)" "map hu_Addr l2 = [a2]"
    "hu_Addr ` set d2 = {b \<in> snd ` set (cc_Server c1). b < a2}" using start_spec [OF p(1,2) _ assms(4), of n2 a2, unfolded p(3), OF assms(6)] by (elim exE conjE) (rule that)
  have "a1 \<in> snd ` set (cc_Server c1)" "a2 \<in> snd ` set (cc_Server c1)" using assms(5,6) by force+
  then have *: "(a2 \<in> hu_Addr ` set d1) = (a2 < a1)" "(a1 \<in> hu_Addr ` set d2) = (a1 < a2)" "a1 \<notin> hu_Addr ` set d1"
    unfolding r1(3) r2(3) by simp_all
  have "(a2 < a1) \<noteq> (a1 < a2)" using assms(7) by (metis less_asym linorder_less_linear)
  then have "(a2 \<in> hu_Addr ` set d1) \<noteq> (a1 \<in> hu_Addr ` set d2)" unfolding *(1,2) .
  then show ?thesis using r1(1,2) r2(1,2) *(3) by (intro exI conjI)
qed

definition demo_cluster :: "(string \<times> string) list \<Rightarrow> clusterConfig" where
  "demo_cluster es = \<lparr>cc_Cluster = [], cc_Server = es, cc_Client = []\<rparr>"

lemma demo_trim: "trimSpace ''a'' = ''a''" "trimSpace ''b'' = ''b''" "trimSpace ''c'' = ''c''" "trimSpace '' b'' = ''b''"
  by (simp_all add: trimSpace_def)

theorem cluster_one_dials_witness:
  "\<exists>l1 d1 l2 d2. fst (NewClusterHLinkFromFile (Inr (demo_cluster [(''a'', ''h:1''), ('' b'', ''h:2'')])) ''a'' ([] :: nat HLinkUnitCfgCreator list) None) = Inr (l1, d1) \<and>
     fst (NewClusterHLinkFromFile (Inr (demo_cluster [('' b'', ''h:2''), (''a'', ''h:1'')])) ''b'' ([] :: nat HLinkUnitCfgCreator list) None) = Inr (l2, d2) \<and>
     map hu_Addr l1 = [''h:1''] \<and> map hu_Addr l2 = [''h:2''] \<and> (''h:2'' \<in> hu_Addr ` set d1) \<noteq> (''h:1'' \<in> hu_Addr ` set d2) \<and>
     ''h:1'' \<notin> hu_Addr ` set d1"
  using cluster_one_dials [of "demo_cluster [(''a'', ''h:1''), ('' b'', ''h:2'')]" "demo_cluster [('' b'', ''h:2''), (''a'', ''h:1'')]"
      "[]" "''a''" "''h:1''" "'' b''" "''h:2''"]
  unfolding demo_trim by (simp add: demo_cluster_def demo_trim keepsAddr_def)

section \<open>Reloading\<close>

lemma shows_nodes_reload:
  assumes m: "shows_nodes U D (DialMap (hm_config mgr))" and U: "\<And>n. hu_Addr (U n) = Addr n"
    and inj: "inj_on Addr D" "inj_on Addr D'" and ds: "set ds = D - D'" and ns: "set ns = D' - D" "distinct (map Addr ns)"
  shows "shows_nodes U D' (DialMap (hm_config (AddDial (map U ns) (DelDial (map U ds) mgr))))"
proof -
  have A: "hu_Addr ` set (map U ds) = Addr ` (D - D')" by (simp add: ds image_image U)
  have "shows_nodes U (D \<inter> D') (DialMap (hm_config (DelDial (map U ds) mgr)))"
    unfolding shows_nodes_def
  proof (intro allI)
    fix x u
    have "(\<exists>n \<in> D \<inter> D'. Addr n = x \<and> u = U n) \<longleftrightarrow> x \<notin> Addr ` (D - D') \<and> (\<exists>n \<in> D. Addr n = x \<and> u = U n)"
      using inj(1) by (auto dest: inj_onD)
    then show "DialMap (hm_config (DelDial (map U ds) mgr)) x = Some u \<longleftrightarrow> (\<exists>n \<in> D \<inter> D'. Addr n = x \<and> u = U n)"
      using m unfolding DelDial_map A shows_nodes_def by simp
  qed
  moreover have "Addr ` (D \<inter> D') \<inter> Addr ` set ns = {}" using inj(2) by (auto simp: ns(1) dest: inj_onD)
  ultimately have "shows_nodes U (D \<inter> D' \<union> set ns) (DialMap (hm_config (AddDial (map U ns) (DelDial (map U ds) mgr))))"
    using AddDial_nodes [OF ns(2) U] by blast
  moreover have "D \<inter> D' \<union> set ns = D'" using ns(1) by auto
  ultimately show ?thesis by simp
qed

lemma dialNodes_diff:
  assumes "cf_Self c = cf_Self c'" "map_of (cf_Server c) (cf_Self c) = map_of (cf_Server c') (cf_Self c')"
  shows "dialNodes c - nodes c' = dialNodes c - dialNodes c'"
  using assms by (auto simp: dialNodes_def split: option.splits)

lemma dialNodes_inj: "cfg_ok cfg \<Longrightarrow> inj_on Addr (dialNodes cfg)"
  by (auto intro!: inj_onI dest: nodes_inj simp: dialNodes_def split: option.splits)

text \<open>C35: when the entry of this process is the same in both files, applying a reload (first the
  deletions, then the additions) leaves the link manager with exactly the dial table it would have
  after a restart with the new file, link by link.\<close>

theorem cluster_reload_is_restart:
  assumes "NewClusterHLinkFromFile file self sp old = (Inr (l, d), Some cfg)"
    and "NewHLinkConfig name rid l d = Some hc" "DialMap (hm_config mgr) = DialMap hc"
    and "ReloadClusterHLinkFromFile file' self (Some cfg) = (Inr (add, del), Some cfg')"
    and "map_of (cf_Server cfg) self = map_of (cf_Server cfg') self" "keepsAddr sp"
  shows "\<exists>l' d' hc'. NewClusterHLinkFromFile file' self sp None = (Inr (l', d'), Some cfg') \<and>
    NewHLinkConfig name rid l' d' = Some hc' \<and> DialMap (hm_config (AddDial add (DelDial del mgr))) = DialMap hc'"
proof -
  note N = NewCluster_dials [OF assms(1)] and L = LoadClusterFile_ok [OF NewCluster_dials(1) [OF assms(1)]]
  have load: "LoadClusterFile file' self sp = Inr cfg'"
    using assms(4) L(3) by (auto simp: ReloadClusterHLinkFromFile_def Let_def split: sum.splits if_splits)
  note L' = LoadClusterFile_ok [OF load]
  let ?self = "map_of (cf_Server cfg') self" and ?U = "unitOf cfg'"
  have ad: "add = fillDialFunc ?self cfg' cfg" "del = fillDialFunc ?self cfg cfg'"
    using assms(4) load L(2,3) L'(2) by (simp_all add: ReloadClusterHLinkFromFile_def Let_def)
  have UU: "unitOf cfg = ?U" by (rule unitOf_cong) (simp add: L(3) L'(3))
  have U: "hu_Addr (?U n) = Addr n" for n using unitOf_addr assms(6) L'(3) by blast
  have eq: "map_of (cf_Server cfg) (cf_Self cfg) = map_of (cf_Server cfg') (cf_Self cfg')" "cf_Self cfg = cf_Self cfg'"
    using assms(5) L(2) L'(2) by simp_all
  obtain ns where ns: "add = map ?U ns" "set ns = dialNodes cfg' - dialNodes cfg" "distinct (map Addr ns)"
    using fillDial_nodes [OF L'(1) L(1), of ?self] L'(2) dialNodes_diff [OF eq(2,1) [symmetric]] ad(1) by auto
  obtain ds where ds: "del = map ?U ds" "set ds = dialNodes cfg - dialNodes cfg'"
    using fillDial_nodes [OF L(1) L'(1), of ?self] L(2) assms(5) dialNodes_diff [OF eq(2,1)] ad(2) UU by auto
  obtain ks where ks: "d = map ?U ks" "set ks = dialNodes cfg" "distinct (map Addr ks)" using N(3) UU by auto
  have start: "\<exists>m. unitMap (map ?U xs) (\<lambda>_. None) = Some m \<and> shows_nodes ?U (set xs) m" if "distinct (map Addr xs)" for xs
    using unitMap_nodes [OF that, of ?U "{}" "\<lambda>_. None"] U by (simp add: shows_nodes_def)
  have m: "shows_nodes ?U (dialNodes cfg) (DialMap (hm_config mgr))"
    using assms(2,3) start [OF ks(3)] ks(1,2) by (auto simp: NewHLinkConfig_def split: bind_splits)
  have after: "shows_nodes ?U (dialNodes cfg') (DialMap (hm_config (AddDial add (DelDial del mgr))))"
    unfolding ns(1) ds(1) by (rule shows_nodes_reload [OF m U dialNodes_inj [OF L(1)] dialNodes_inj [OF L'(1)] ds(2) ns(2,3)])
  have "\<exists>r. NewClusterHLinkFromFile file' self sp None = (Inr r, Some cfg')" using load by (simp add: NewClusterHLinkFromFile_def Let_def)
  then obtain l' d' where new: "NewClusterHLinkFromFile file' self sp None = (Inr (l', d'), Some cfg')" by auto
  obtain js where js: "d' = map ?U js" "set js = dialNodes cfg'" "distinct (map Addr js)" using NewCluster_dials(3) [OF new] by blast
  obtain dm where dm: "unitMap d' (\<lambda>_. None) = Some dm" "shows_nodes ?U (dialNodes cfg') dm" using start [OF js(3)] js(1,2) by auto
  obtain lm where lm: "unitMap l' (\<lambda>_. None) = Some lm"
    using NewCluster_dials(4) [OF new] by (cases ?self) auto
  have "NewHLinkConfig name rid l' d' = Some \<lparr>RouteID = rid, hc_Name = name, ListenMap = lm, DialMap = dm\<rparr>"
    using dm(1) lm by (simp add: NewHLinkConfig_def)
  then show ?thesis using new shows_nodes_unique [OF after dm(2)]
    by (intro exI [of _ l'] exI [of _ d'] exI [of _ "\<lparr>RouteID = rid, hc_Name = name, ListenMap = lm, DialMap = dm\<rparr>"]) simp
qed

definition demo_cfg :: "string \<Rightarrow> clusterConfig \<Rightarrow> nat ClusterCfg option" where
  "demo_cfg self c = (case LoadClusterFile (Inr c) self [] of Inr cfg \<Rightarrow> Some cfg | Inl _ \<Rightarrow> None)"

definition demo_old :: clusterConfig where
  "demo_old = demo_cluster [(''a'', ''h:1''), (''b'', ''h:2''), (''c'', ''h:3'')]"

definition demo_next :: clusterConfig where
  "demo_next = demo_cluster [(''d'', ''h:0''), (''c'', ''h:3''), (''b'', ''h:2'')]"


lemma demo_cluster_new: "fst (NewClusterHLinkFromFile (Inr demo_old) ''b'' ([] :: nat HLinkUnitCfgCreator list) None) =
    Inr ([newRPCHLink ''h:2''], [newRPCHLink ''h:1''])"
  by code_simp

lemma demo_cluster_reload: "fst (ReloadClusterHLinkFromFile (Inr demo_next) ''b'' (demo_cfg ''b'' demo_old)) =
    Inr ([newRPCHLink ''h:0''], [newRPCHLink ''h:1''])"
  by code_simp


lemma demo_cfg_some:
  assumes "fst (NewClusterHLinkFromFile (Inr c) self [] None) = Inr r"
  shows "\<exists>cfg. demo_cfg self c = Some cfg \<and> LoadClusterFile (Inr c) self [] = Inr cfg \<and> NewClusterHLinkFromFile (Inr c) self [] None = (Inr r, Some cfg)"
  using assms by (auto simp: NewClusterHLinkFromFile_def demo_cfg_def Let_def split: sum.splits)

lemma demo_cluster_servers:
  fixes cfg :: "'l ClusterCfg"
  assumes "LoadClusterFile (Inr c) ''b'' [] = Inr cfg" "c = demo_old \<or> c = demo_next"
  shows "map_of (cf_Server cfg) ''b'' = Some \<lparr>nodeName = ''b'', Addr = ''h:2''\<rparr>"
proof -
  have d: "trimSpace ''d'' = ''d''" by (simp add: trimSpace_def)
  have "\<exists>cfg :: 'l ClusterCfg. LoadClusterFile (Inr c) ''b'' [] = Inr cfg \<and> cf_Server cfg = map serverEntry (cc_Server c)"
    by (rule LoadClusterFile_entries) (use assms(2) in \<open>auto simp: demo_old_def demo_next_def demo_cluster_def demo_trim d\<close>)
  then show ?thesis using assms
    by (auto simp: demo_old_def demo_next_def demo_cluster_def serverEntry_def getClusterServerAddr_def demo_trim d)
qed

theorem cluster_reload_is_restart_witness:
  "\<exists>hc l' d' hc'. NewHLinkConfig ''b'' 7 [newRPCHLink ''h:2''] [newRPCHLink ''h:1'' :: nat HLinkUnitConfig] = Some hc \<and>
     fst (NewClusterHLinkFromFile (Inr demo_next) ''b'' [] None) = Inr (l', d') \<and> NewHLinkConfig ''b'' 7 l' d' = Some hc' \<and>
     DialMap (hm_config (AddDial [newRPCHLink ''h:0''] (DelDial [newRPCHLink ''h:1''] (NewHLinkMgr hc (\<lambda>_. newLink ''x'' 7 ''b'' True :: nat Link))))) =
       DialMap hc'"
proof -
  obtain cfg where cfg: "demo_cfg ''b'' demo_old = Some cfg" "LoadClusterFile (Inr demo_old) ''b'' [] = Inr cfg"
    "NewClusterHLinkFromFile (Inr demo_old) ''b'' [] None = (Inr ([newRPCHLink ''h:2''], [newRPCHLink ''h:1'']), Some cfg)"
    using demo_cfg_some [OF demo_cluster_new] by blast
  have r: "fst (ReloadClusterHLinkFromFile (Inr demo_next) ''b'' (Some cfg)) = Inr ([newRPCHLink ''h:0''], [newRPCHLink ''h:1''])"
    using demo_cluster_reload cfg(1) by simp
  obtain cfg' where cfg': "ReloadClusterHLinkFromFile (Inr demo_next) ''b'' (Some cfg) =
      (Inr ([newRPCHLink ''h:0''], [newRPCHLink ''h:1'']), Some cfg')" "LoadClusterFile (Inr demo_next) ''b'' [] = Inr cfg'"
    using r LoadClusterFile_ok(3) [OF cfg(2)]
    by (auto simp: ReloadClusterHLinkFromFile_def Let_def split: sum.splits if_splits)
  obtain hc where hc: "NewHLinkConfig ''b'' 7 [newRPCHLink ''h:2''] [newRPCHLink ''h:1'' :: nat HLinkUnitConfig] = Some hc"
    by (simp add: NewHLinkConfig_def newRPCHLink_def)
  have same: "map_of (cf_Server cfg) ''b'' = map_of (cf_Server cfg') ''b''"
    using demo_cluster_servers [OF cfg(2)] demo_cluster_servers [OF cfg'(2)] by simp
  have m: "DialMap (hm_config (NewHLinkMgr hc (\<lambda>_. newLink ''x'' 7 ''b'' True :: nat Link))) = DialMap hc" by (simp add: NewHLinkMgr_def)
  have k: "keepsAddr ([] :: nat HLinkUnitCfgCreator list)" by (simp add: keepsAddr_def)
  show ?thesis using cluster_reload_is_restart [OF cfg(3) hc m cfg'(1) same k] hc by force
qed

end
