(* ===== verification/Tlv_Stream.thy ===== *)
theory Tlv_Stream
  imports Safelink_Wire
begin

text \<open>
  The packet streams between players and servers (\<open>xnet/tlvstream.go\<close>, \<open>formater.go\<close>,
  \<open>pbformater.go\<close>, \<open>pbcommon.go\<close>, \<open>pbserialize.go\<close>, \<open>datagram.go\<close>, \<open>codec/codec.go\<close>). A stream is
  written over the interfaces of its formatters, so the model's \<open>Recv\<close> and \<open>Send\<close> take their methods as
  arguments. Protobuf messages of type \<open>'m\<close> come with their size, marshalling and unmarshalling; a
  compressor, when there is one, with its two directions. \<open>None\<close> is a panic. What a connection gives
  to reads is a list of chunks as in \<open>Safelink_Wire\<close>.
\<close>

unbundle bit_operations_syntax

type_synonym u16 = "16 word"

datatype streamErr = ErrConn | ErrPacketSize | ErrPacketSizeLimitExceeded | ErrPBDecodeMinSize | ErrPBMaxSize
  | ErrPBMsgType | ErrUnregistered u16 | ErrNoCodec | ErrCodec | ErrMarshal | ErrUnmarshal

section \<open>Packets and their registry\<close>

record 'm PBPacket =
  ConnID :: u32
  Seq :: u32
  MsgID :: u16
  Flag :: "8 word"
  Body :: "'m option"

definition minPacketSize :: nat where "minPacketSize = 11"

text \<open>The table of message types has \<open>math.MaxUint16\<close> slots: the last number has none.\<close>

type_synonym 'm packetFactory = "u16 \<Rightarrow> 'm option" \<comment> \<open>the zero message of a registered number\<close>

definition createFact :: "'m packetFactory" where "createFact = (\<lambda>_. None)"

definition factory_register :: "u16 \<Rightarrow> 'm \<Rightarrow> 'm packetFactory \<Rightarrow> 'm packetFactory option" where
  "factory_register i zero pf = (if unat i \<ge> 65535 then None else Some (pf(i := Some zero)))"

definition createByMsgID :: "'m packetFactory \<Rightarrow> u16 \<Rightarrow> 'm PBPacket option option" where
  "createByMsgID pf i =
     (if unat i \<ge> 65535 then None
      else Some (case pf i of None \<Rightarrow> None
        | Some zero \<Rightarrow> Some \<lparr>ConnID = 0, Seq = 0, MsgID = i, Flag = 0, Body = Some zero\<rparr>))"

definition pack_size :: "('m \<Rightarrow> nat) \<Rightarrow> 'm PBPacket \<Rightarrow> nat" where
  "pack_size sz pack = (case Body pack of Some m \<Rightarrow> minPacketSize + sz m | None \<Rightarrow> minPacketSize)"

section \<open>Heads\<close>

definition BE4_HeadLen :: nat where "BE4_HeadLen = 4"

definition BE4_Encode :: "nat \<Rightarrow> bytes" where
  "BE4_Encode size' = be_bytes 4 (of_nat size' :: u32)"

definition BE4_Decode :: "bytes \<Rightarrow> int" where
  "BE4_Decode h = int (unat (be_word h :: u32))"

section \<open>Bodies\<close>

record Codec =
  cd_Encode :: "bytes \<Rightarrow> bytes option"
  cd_Decode :: "bytes \<Rightarrow> bytes option"

definition codec_New :: "string \<Rightarrow> Codec option" where
  "codec_New encode = None"

definition compressThreshold :: nat where "compressThreshold = 128"
definition maxPBLoadSize :: nat where "maxPBLoadSize = 16 * 1024 * 1024"
definition CompressFlag :: "8 word" where "CompressFlag = 2"

record PBFormater =
  f_codec :: "Codec option"
  f_headsize :: nat
  f_encodeBuf :: bytes

definition NewPBFormater :: "nat \<Rightarrow> string \<Rightarrow> PBFormater" where
  "NewPBFormater headLen encoding =
     \<lparr>f_codec = codec_New encoding, f_headsize = headLen, f_encodeBuf = replicate (4096 + minPacketSize) 0\<rparr>"

text \<open>The protobuf library: \<open>Size\<close>, what \<open>MarshalTo\<close> leaves in a buffer of that size, \<open>Unmarshal\<close>.\<close>

record 'm protoLib =
  pl_size :: "'m \<Rightarrow> nat"
  pl_marshal :: "'m \<Rightarrow> bytes option"
  pl_unmarshal :: "'m \<Rightarrow> bytes \<Rightarrow> 'm option"

definition packHead :: "'m PBPacket \<Rightarrow> 8 word \<Rightarrow> bytes" where
  "packHead m flag = be_bytes 4 (ConnID m) @ be_bytes 4 (Seq m) @ be_bytes 2 (MsgID m) @ [flag]"

text \<open>The body to send, with the flags to set.\<close>

definition compressBody :: "Codec option \<Rightarrow> bytes \<Rightarrow> 8 word \<times> bytes" where
  "compressBody c body =
     (case c of
        None \<Rightarrow> (0, body)
      | Some c \<Rightarrow>
          if length body > compressThreshold
          then (case cd_Encode c body of Some compressed \<Rightarrow> (CompressFlag, compressed) | None \<Rightarrow> (0, body))
          else (0, body))"

text \<open>\<open>Encode\<close> of a packet, or of something else (\<open>None\<close>). The head is written into the buffer of the
  formatter first, a body that does not fit makes a new buffer.\<close>

definition PBFormater_Encode :: "'m protoLib \<Rightarrow> PBFormater \<Rightarrow> 'm PBPacket option \<Rightarrow> (streamErr + bytes) \<times> PBFormater" where
  "PBFormater_Encode pl f msg =
     (case msg of
        None \<Rightarrow> (Inl ErrPBMsgType, f)
      | Some m \<Rightarrow>
          let f = f\<lparr>f_encodeBuf := put_at 0 (packHead m (Flag m)) (f_encodeBuf f)\<rparr> in
          (case Body m of
             None \<Rightarrow> (Inr (take minPacketSize (f_encodeBuf f)), f)
           | Some b \<Rightarrow>
               if pl_size pl b > maxPBLoadSize then (Inl ErrPBMaxSize, f)
               else (case pl_marshal pl b of
                   None \<Rightarrow> (Inl ErrMarshal, f)
                 | Some body \<Rightarrow>
                     let (extra, body) = compressBody (f_codec f) body;
                         f = f\<lparr>f_encodeBuf := put_at 0 (packHead m (Flag m OR extra)) (f_encodeBuf f)\<rparr>;
                         totalSize = minPacketSize + length body in
                     if length (f_encodeBuf f) < totalSize
                     then (Inr (take minPacketSize (f_encodeBuf f) @ body), f)
                     else let f = f\<lparr>f_encodeBuf := put_at minPacketSize body (f_encodeBuf f)\<rparr> in
                       (Inr (take totalSize (f_encodeBuf f)), f))))"

definition PBFormater_Decode :: "'m protoLib \<Rightarrow> 'm packetFactory \<Rightarrow> PBFormater \<Rightarrow> bytes \<Rightarrow> (streamErr + 'm PBPacket) option" where
  "PBFormater_Decode pl pf f msg =
     (if length msg < minPacketSize + f_headsize f then Some (Inl ErrPBDecodeMinSize)
      else let msg = drop (f_headsize f) msg;
               connID = (be_word (take 4 msg) :: u32); sq = (be_word (take 4 (drop 4 msg)) :: u32);
               msgID = (be_word (take 2 (drop 8 msg)) :: u16); flag = msg ! 10; body = drop minPacketSize msg in
        do {
          packet \<leftarrow> createByMsgID pf msgID;
          Some (case packet of
              None \<Rightarrow> Inl (ErrUnregistered msgID)
            | Some packet \<Rightarrow>
                (case (if flag AND CompressFlag \<noteq> 0
                       then (case f_codec f of None \<Rightarrow> Inl ErrNoCodec
                         | Some c \<Rightarrow> (case cd_Decode c body of None \<Rightarrow> Inl ErrCodec | Some data \<Rightarrow> Inr data))
                       else Inr body) of
                   Inl err \<Rightarrow> Inl err
                 | Inr body \<Rightarrow>
                     (case Body packet of
                        None \<Rightarrow> Inl ErrUnmarshal
                      | Some zero \<Rightarrow>
                          (case pl_unmarshal pl zero body of
                             None \<Rightarrow> Inl ErrUnmarshal
                           | Some b \<Rightarrow> Inr (packet\<lparr>ConnID := connID, MsgID := msgID, Seq := sq, Flag := flag, Body := Some b\<rparr>))))) })"

section \<open>The stream\<close>

definition packetSizeLimit :: int where "packetSizeLimit = 4 * 1024 * 1024"

text \<open>\<open>Recv\<close> over the head length, the decoder of heads and that of bodies; \<open>deadline\<close> says whether
  setting the deadline works (it always does without a time-out).\<close>

definition TLVStream_Recv :: "bool \<Rightarrow> nat \<Rightarrow> (bytes \<Rightarrow> int) \<Rightarrow> (bytes \<Rightarrow> (streamErr + 'p) option) \<Rightarrow> conn_read list \<Rightarrow>
    ((streamErr + 'p) outcome \<times> conn_read list) option" where
  "TLVStream_Recv deadline headLen headDecode bodyDecode evs =
     (if \<not> deadline then Some (Done (Inl ErrConn), evs)
      else case readFull headLen evs of
          (Blocked, evs) \<Rightarrow> Some (Blocked, evs)
        | (Done None, evs) \<Rightarrow> Some (Done (Inl ErrConn), evs)
        | (Done (Some head), evs) \<Rightarrow>
            let bodyLen = headDecode head; totalLen = bodyLen + int headLen in
            if totalLen < int headLen then Some (Done (Inl ErrPacketSize), evs)
            else if totalLen > packetSizeLimit then Some (Done (Inl ErrPacketSizeLimitExceeded), evs)
            else (case readFull (nat bodyLen) evs of
                (Blocked, evs) \<Rightarrow> Some (Blocked, evs)
              | (Done None, evs) \<Rightarrow> Some (Done (Inl ErrConn), evs)
              | (Done (Some body), evs) \<Rightarrow> do { r \<leftarrow> bodyDecode (head @ body); Some (Done r, evs) }))"

text \<open>\<open>Send\<close>: the connection takes everything (\<open>None\<close>) or fails after some bytes. What went out is
  returned, with the state of the body formatter.\<close>

definition TLVStream_Send :: "bool \<Rightarrow> (nat \<Rightarrow> bytes) \<Rightarrow> ('f \<Rightarrow> 'p \<Rightarrow> (streamErr + bytes) \<times> 'f) \<Rightarrow> nat option \<Rightarrow> 'f \<Rightarrow> 'p \<Rightarrow>
    streamErr option \<times> bytes \<times> 'f" where
  "TLVStream_Send deadline headEncode bodyEncode answer f msg =
     (case bodyEncode f msg of
        (Inl err, f) \<Rightarrow> (Some err, [], f)
      | (Inr buf, f) \<Rightarrow>
          if \<not> deadline then (Some ErrConn, [], f)
          else let writeBuf = headEncode (length buf) @ buf in
            (case answer of None \<Rightarrow> (None, writeBuf, f) | Some n \<Rightarrow> (Some ErrConn, take n writeBuf, f)))"

definition TLVStream_SendRaw :: "bool \<Rightarrow> nat option \<Rightarrow> bytes \<Rightarrow> streamErr option \<times> bytes" where
  "TLVStream_SendRaw deadline answer msg =
     (if \<not> deadline then (Some ErrConn, [])
      else case answer of None \<Rightarrow> (None, msg) | Some n \<Rightarrow> (Some ErrConn, take n msg))"

section \<open>Writing to a datagram connection\<close>

text \<open>\<open>datagramWriter.Write\<close>: the base takes a whole piece (\<open>None\<close>) or fails after some bytes, as
  \<open>io.Writer\<close> demands. The pieces handed to the base are returned in order.\<close>

fun datagramWriter_Write :: "nat \<Rightarrow> nat option list \<Rightarrow> bytes \<Rightarrow> (nat \<times> bool) outcome \<times> bytes list \<times> nat option list" where
  "datagramWriter_Write mss answers p =
     (if length p > mss
      then (case answers of
          [] \<Rightarrow> (Blocked, [take mss p], [])
        | Some n # answers \<Rightarrow> (Done (n, True), [take mss p], answers)
        | None # answers \<Rightarrow>
            (case datagramWriter_Write mss answers (drop mss p) of
                (Done (m, e), ds, answers) \<Rightarrow> (Done (mss + m, e), take mss p # ds, answers)
              | (Blocked, ds, answers) \<Rightarrow> (Blocked, take mss p # ds, answers)))
      else if length p > 0
      then (case answers of
          [] \<Rightarrow> (Blocked, [p], [])
        | Some n # answers \<Rightarrow> (Done (n, True), [p], answers)
        | None # answers \<Rightarrow> (Done (length p, False), [p], answers))
      else (Done (0, False), [], answers))"

declare datagramWriter_Write.simps [simp del]

text \<open>\<open>rdpWriter.Write\<close>. Its \<open>bufio.Writer\<close> is empty between calls because every call flushes it: a
  slice up to the size of the buffer is copied and flushed in one write, a longer one is handed over
  at once. An error of the \<open>bufio.Writer\<close> stays for ever.\<close>

record rdpWriter =
  rw_size :: nat
  rw_failed :: bool

definition newRdpWriter :: "nat \<Rightarrow> rdpWriter" where
  "newRdpWriter size' = \<lparr>rw_size = size', rw_failed = False\<rparr>"

definition rdpWriter_Write :: "rdpWriter \<Rightarrow> nat option list \<Rightarrow> bytes \<Rightarrow> (nat \<times> bool) outcome \<times> bytes list \<times> nat option list \<times> rdpWriter" where
  "rdpWriter_Write w answers p =
     (if rw_failed w then (Done (0, True), [], answers, w)
      else case datagramWriter_Write (rw_size w) answers p of
          (Blocked, ds, answers) \<Rightarrow> (Blocked, ds, answers, w)
        | (Done (n, True), ds, answers) \<Rightarrow> (Done (0, True), ds, answers, w\<lparr>rw_failed := True\<rparr>)
        | (Done (n, False), ds, answers) \<Rightarrow> (Done (length p, False), ds, answers, w))"

section \<open>Streams over their formatters\<close>

text \<open>Sending and receiving a list of packets.\<close>

fun sendAll :: "(nat \<Rightarrow> bytes) \<Rightarrow> ('f \<Rightarrow> 'p \<Rightarrow> (streamErr + bytes) \<times> 'f) \<Rightarrow> 'f \<Rightarrow> 'p list \<Rightarrow> (bytes \<times> 'f) option" where
  "sendAll headEncode bodyEncode f [] = Some ([], f)"
| "sendAll headEncode bodyEncode f (p # ps) =
     (case TLVStream_Send True headEncode bodyEncode None f p of
        (Some err, _, _) \<Rightarrow> None
      | (None, w, f) \<Rightarrow> do { (w', f) \<leftarrow> sendAll headEncode bodyEncode f ps; Some (w @ w', f) })"

fun recvAll :: "nat \<Rightarrow> (bytes \<Rightarrow> int) \<Rightarrow> (bytes \<Rightarrow> (streamErr + 'p) option) \<Rightarrow> nat \<Rightarrow> conn_read list \<Rightarrow> ('p list \<times> conn_read list) option" where
  "recvAll headLen headDecode bodyDecode 0 evs = Some ([], evs)"
| "recvAll headLen headDecode bodyDecode (Suc n) evs =
     (case TLVStream_Recv True headLen headDecode bodyDecode evs of
        Some (Done (Inr p), evs) \<Rightarrow> do { (ps, evs) \<leftarrow> recvAll headLen headDecode bodyDecode n evs; Some (p # ps, evs) }
      | _ \<Rightarrow> None)"

text \<open>The contract of \<open>HeadFormater\<close> and \<open>BodyFormater\<close>: heads have a fixed length and give the length
  back; a packet that may be sent is encoded within the limit and decodes, behind any head, to what
  the receiver is to see.\<close>

locale tlv =
  fixes headLen :: nat and headEncode :: "nat \<Rightarrow> bytes" and headDecode :: "bytes \<Rightarrow> int"
    and bodyEncode :: "'f \<Rightarrow> 'p \<Rightarrow> (streamErr + bytes) \<times> 'f" and bodyDecode :: "bytes \<Rightarrow> (streamErr + 'q) option"
    and ok :: "'f \<Rightarrow> bool" and sends :: "'p \<Rightarrow> bool" and seen :: "'p \<Rightarrow> 'q"
  assumes head: "int (n + headLen) \<le> packetSizeLimit \<Longrightarrow> length (headEncode n) = headLen \<and> headDecode (headEncode n) = int n"
    and body: "ok f \<Longrightarrow> sends p \<Longrightarrow> \<exists>b f'. bodyEncode f p = (Inr b, f') \<and> ok f' \<and> int (length b + headLen) \<le> packetSizeLimit \<and>
      (\<forall>h. length h = headLen \<longrightarrow> bodyDecode (h @ b) = Some (Inr (seen p)))"
begin

lemma one_packet:
  assumes "ok f" "sends p"
  shows "\<exists>w f'. TLVStream_Send True headEncode bodyEncode None f p = (None, w, f') \<and> ok f' \<and>
    (\<forall>evs rest. data_of evs = w @ rest \<longrightarrow>
      (\<exists>evs'. TLVStream_Recv True headLen headDecode bodyDecode evs = Some (Done (Inr (seen p)), evs') \<and> data_of evs' = rest))"
proof -
  obtain b f' where b: "bodyEncode f p = (Inr b, f')" "ok f'" "int (length b + headLen) \<le> packetSizeLimit"
      "\<And>h. length h = headLen \<Longrightarrow> bodyDecode (h @ b) = Some (Inr (seen p))" using body [OF assms] by blast
  let ?h = "headEncode (length b)"
  have h: "length ?h = headLen" "headDecode ?h = int (length b)" using head [OF b(3)] by auto
  have recv: "\<exists>evs'. TLVStream_Recv True headLen headDecode bodyDecode evs = Some (Done (Inr (seen p)), evs') \<and> data_of evs' = rest"
    if d: "data_of evs = (?h @ b) @ rest" for evs rest
  proof -
    obtain evs1 where 1: "readFull headLen evs = (Done (Some ?h), evs1)" "data_of evs1 = b @ rest"
      using readFull_data [of headLen evs] d h(1) by auto
    obtain evs2 where 2: "readFull (length b) evs1 = (Done (Some b), evs2)" "data_of evs2 = rest"
      using readFull_data [of "length b" evs1] 1(2) by auto
    show ?thesis using 1(1) 2 h b(3) b(4) [OF h(1)] by (simp add: TLVStream_Recv_def Let_def)
  qed
  then show ?thesis using b(1,2) by (simp add: TLVStream_Send_def Let_def)
qed

lemma all_packets:
  assumes "ok f" "\<And>p. p \<in> set ps \<Longrightarrow> sends p"
  shows "\<exists>w f'. sendAll headEncode bodyEncode f ps = Some (w, f') \<and> ok f' \<and>
    (\<forall>evs rest. data_of evs = w @ rest \<longrightarrow>
      (\<exists>evs'. recvAll headLen headDecode bodyDecode (length ps) evs = Some (map seen ps, evs') \<and> data_of evs' = rest))"
  using assms
proof (induction ps arbitrary: f)
  case (Cons p ps)
  obtain w1 f1 where 1: "TLVStream_Send True headEncode bodyEncode None f p = (None, w1, f1)" "ok f1"
    "\<And>evs rest. data_of evs = w1 @ rest \<Longrightarrow>
      \<exists>evs'. TLVStream_Recv True headLen headDecode bodyDecode evs = Some (Done (Inr (seen p)), evs') \<and> data_of evs' = rest"
    using one_packet [OF Cons.prems(1), of p] Cons.prems(2) by auto
  obtain w2 f2 where 2: "sendAll headEncode bodyEncode f1 ps = Some (w2, f2)" "ok f2"
    "\<And>evs rest. data_of evs = w2 @ rest \<Longrightarrow>
      \<exists>evs'. recvAll headLen headDecode bodyDecode (length ps) evs = Some (map seen ps, evs') \<and> data_of evs' = rest"
    using Cons.IH [OF 1(2)] Cons.prems(2) by auto
  have "\<exists>evs'. recvAll headLen headDecode bodyDecode (length (p # ps)) evs = Some (map seen (p # ps), evs') \<and> data_of evs' = rest"
    if d: "data_of evs = (w1 @ w2) @ rest" for evs rest
  proof -
    obtain evs1 where "TLVStream_Recv True headLen headDecode bodyDecode evs = Some (Done (Inr (seen p)), evs1)" "data_of evs1 = w2 @ rest"
      using 1(3) [of evs "w2 @ rest"] d by auto
    then show ?thesis using 2(3) [of evs1 rest] by auto
  qed
  then show ?case using 1(1) 2(1,2) by auto
qed simp

end

section \<open>The streams of the players\<close>

definition formater_ok :: "Codec option \<Rightarrow> PBFormater \<Rightarrow> bool" where
  "formater_ok c f \<longleftrightarrow> f_codec f = c \<and> f_headsize f = BE4_HeadLen \<and> minPacketSize \<le> length (f_encodeBuf f)"

text \<open>The bytes of a body, and what the libraries owe for a packet: a registered number, a body that
  unmarshals to itself, a compressor that gives its input back and does not exceed it, a size within
  the limit of the receiver, and no compression flag set by the sender.\<close>

definition bodyBytes :: "'m protoLib \<Rightarrow> 'm PBPacket \<Rightarrow> bytes option" where
  "bodyBytes pl p = (case Body p of None \<Rightarrow> Some [] | Some b \<Rightarrow> pl_marshal pl b)"

definition seenBody :: "'m protoLib \<Rightarrow> 'm packetFactory \<Rightarrow> 'm PBPacket \<Rightarrow> 'm option" where
  "seenBody pl pf p = (case (pf (MsgID p), bodyBytes pl p) of (Some zero, Some bs) \<Rightarrow> pl_unmarshal pl zero bs | _ \<Rightarrow> None)"

definition sendable_packet :: "'m protoLib \<Rightarrow> 'm packetFactory \<Rightarrow> Codec option \<Rightarrow> 'm PBPacket option \<Rightarrow> bool" where
  "sendable_packet pl pf c msg = (case msg of None \<Rightarrow> False | Some p \<Rightarrow>
     unat (MsgID p) < 65535 \<and> seenBody pl pf p \<noteq> None \<and> (Body p \<noteq> None \<longrightarrow> seenBody pl pf p = Body p) \<and>
     Flag p AND CompressFlag = 0 \<and>
     (case bodyBytes pl p of None \<Rightarrow> False | Some bs \<Rightarrow>
        int (BE4_HeadLen + minPacketSize + length bs) \<le> packetSizeLimit \<and>
        (case Body p of None \<Rightarrow> True | Some b \<Rightarrow> pl_size pl b = length bs) \<and>
        (case c of None \<Rightarrow> True | Some cd \<Rightarrow> (case cd_Encode cd bs of None \<Rightarrow> True
           | Some z \<Rightarrow> length z \<le> length bs \<and> cd_Decode cd z = Some bs))))"

text \<open>What the receiver sees: the packet with the compression flag when the body was compressed.\<close>

definition seen_packet :: "'m protoLib \<Rightarrow> 'm packetFactory \<Rightarrow> Codec option \<Rightarrow> 'm PBPacket option \<Rightarrow> 'm PBPacket" where
  "seen_packet pl pf c msg = (case msg of None \<Rightarrow> \<lparr>ConnID = 0, Seq = 0, MsgID = 0, Flag = 0, Body = None\<rparr>
     | Some p \<Rightarrow> p\<lparr>Flag := Flag p OR (case Body p of None \<Rightarrow> 0 | Some _ \<Rightarrow> fst (compressBody c (the (bodyBytes pl p)))),
                  Body := seenBody pl pf p\<rparr>)"

lemma length_packHead [simp]: "length (packHead m flag) = minPacketSize"
  by (simp add: packHead_def minPacketSize_def)

text \<open>What \<open>Encode\<close> returns, whichever buffer it uses.\<close>

lemma Encode_spec:
  assumes f: "formater_ok c f"
  shows "Body p = None \<Longrightarrow> \<exists>f'. PBFormater_Encode pl f (Some p) = (Inr (packHead p (Flag p)), f') \<and> formater_ok c f'"
    "Body p = Some b \<Longrightarrow> pl_size pl b \<le> maxPBLoadSize \<Longrightarrow> pl_marshal pl b = Some bs \<Longrightarrow> compressBody c bs = (extra, body) \<Longrightarrow>
     \<exists>f'. PBFormater_Encode pl f (Some p) = (Inr (packHead p (Flag p OR extra) @ body), f') \<and> formater_ok c f'"
proof -
  have len: "minPacketSize \<le> length (f_encodeBuf f)" and c: "f_codec f = c" using f by (auto simp: formater_ok_def)
  show "\<exists>f'. PBFormater_Encode pl f (Some p) = (Inr (packHead p (Flag p)), f') \<and> formater_ok c f'" if "Body p = None"
    using that f len by (simp add: PBFormater_Encode_def Let_def put_at_def formater_ok_def)
  show "\<exists>f'. PBFormater_Encode pl f (Some p) = (Inr (packHead p (Flag p OR extra) @ body), f') \<and> formater_ok c f'"
    if b: "Body p = Some b" "pl_size pl b \<le> maxPBLoadSize" "pl_marshal pl b = Some bs" "compressBody c bs = (extra, body)"
    using b f len c by (simp add: PBFormater_Encode_def Let_def put_at_def formater_ok_def)
qed

lemma Decode_spec:
  assumes "formater_ok c f" "length h = BE4_HeadLen" "pf (MsgID p) = Some zero" "unat (MsgID p) < 65535"
    and "(if flag AND CompressFlag \<noteq> 0 then \<exists>cd. c = Some cd \<and> cd_Decode cd body = Some bs else body = bs)"
    and "pl_unmarshal pl zero bs = Some b"
  shows "PBFormater_Decode pl pf f (h @ packHead p flag @ body) = Some (Inr (p\<lparr>Flag := flag, Body := Some b\<rparr>))"
proof -
  have d: "drop (f_headsize f) (h @ packHead p flag @ body) = packHead p flag @ body" using assms(1,2) by (simp add: formater_ok_def)
  have fields: "be_word (take 4 (packHead p flag @ body)) = ConnID p" "be_word (take 4 (drop 4 (packHead p flag @ body))) = Seq p"
    "be_word (take 2 (drop 8 (packHead p flag @ body))) = MsgID p" "(packHead p flag @ body) ! 10 = flag"
    "drop minPacketSize (packHead p flag @ body) = body"
    by (simp_all add: packHead_def wire_simps minPacketSize_def nth_append)
  have l: "f_headsize f = length h" using assms(1,2) by (simp add: formater_ok_def)
  have cf: "f_codec f = c" using assms(1) by (simp add: formater_ok_def)
  show ?thesis
    using assms(3-6) unfolding PBFormater_Decode_def Let_def d fields cf
    by (simp add: l createByMsgID_def split: if_splits) auto
qed

lemma BE4_roundtrip:
  assumes "int (n + BE4_HeadLen) \<le> packetSizeLimit"
  shows "length (BE4_Encode n) = BE4_HeadLen \<and> BE4_Decode (BE4_Encode n) = int n"
  using assms by (simp add: BE4_Encode_def BE4_Decode_def BE4_HeadLen_def wire_simps packetSizeLimit_def unat_of_nat)

lemma sendable_body:
  assumes f: "formater_ok c f" "formater_ok c g" and p: "sendable_packet pl pf c msg"
  shows "\<exists>b f'. PBFormater_Encode pl f msg = (Inr b, f') \<and> formater_ok c f' \<and> int (length b + BE4_HeadLen) \<le> packetSizeLimit \<and>
    (\<forall>h. length h = BE4_HeadLen \<longrightarrow> PBFormater_Decode pl pf g (h @ b) = Some (Inr (seen_packet pl pf c msg)))"
proof -
  obtain p where m: "msg = Some p" using p by (auto simp: sendable_packet_def split: option.splits)
  obtain bs where bs: "bodyBytes pl p = Some bs" "int (BE4_HeadLen + minPacketSize + length bs) \<le> packetSizeLimit"
    using p by (auto simp: m sendable_packet_def split: option.splits)
  obtain zero b' where z: "pf (MsgID p) = Some zero" "pl_unmarshal pl zero bs = Some b'" "seenBody pl pf p = Some b'"
    using p bs(1) by (auto simp: m sendable_packet_def seenBody_def split: option.splits)
  have i: "unat (MsgID p) < 65535" "Flag p AND CompressFlag = 0" using p by (simp_all add: m sendable_packet_def)
  note dec = Decode_spec [where pf = pf and p = p and zero = zero and bs = bs and b = b' and pl = pl, OF f(2) _ z(1) i(1) _ z(2)]
  show ?thesis
  proof (cases "Body p")
    case None
    then have "bs = []" using bs(1) by (simp add: bodyBytes_def)
    then have "PBFormater_Decode pl pf g (h @ packHead p (Flag p)) = Some (Inr (p\<lparr>Flag := Flag p, Body := Some b'\<rparr>))"
      if "length h = BE4_HeadLen" for h
      using dec [OF that, of "Flag p" "[]"] i(2) by simp
    then show ?thesis using Encode_spec(1) [OF f(1) None, of pl] bs(2) z(3) None
      by (auto simp: m seen_packet_def)
  next
    case (Some b)
    obtain extra body where eb: "compressBody c bs = (extra, body)" by (cases "compressBody c bs")
    have "length body \<le> length bs \<and>
        (if (Flag p OR extra) AND CompressFlag \<noteq> 0 then \<exists>cd. c = Some cd \<and> cd_Decode cd body = Some bs else body = bs)"
      using eb i(2) p bs(1) by (auto simp: m sendable_packet_def compressBody_def bit.conj_disj_distrib2 CompressFlag_def split: option.splits if_splits)
    moreover have "pl_size pl b \<le> maxPBLoadSize" "pl_marshal pl b = Some bs"
      using p bs Some by (auto simp: m sendable_packet_def bodyBytes_def maxPBLoadSize_def packetSizeLimit_def)
    ultimately show ?thesis
      using Encode_spec(2) [OF f(1) Some _ _ eb, of pl] dec [of _ "Flag p OR extra" body] bs z(3) Some eb
      by (auto simp: m seen_packet_def)
  qed
qed

interpretation pbs: tlv BE4_HeadLen BE4_Encode BE4_Decode "PBFormater_Encode pl" "PBFormater_Decode pl pf g"
    "\<lambda>f. formater_ok c f \<and> formater_ok c g" "sendable_packet pl pf c" "seen_packet pl pf c"
  for pl :: "'m protoLib" and pf c g
  using BE4_roundtrip sendable_body by unfold_locales blast+

text \<open>C37: packets sent over one stream arrive over the stream at the other end: whatever pieces the
  connection delivers the bytes in, receiving as many times as was sent gives the packets in order
  with their connection, sequence and message numbers and their bodies, the compression flag set
  exactly where the body was compressed, and consumes exactly their bytes.\<close>

theorem stream_delivers:
  assumes "formater_ok c f" "formater_ok c g" "\<And>p. p \<in> set ps \<Longrightarrow> sendable_packet pl pf c (Some p)"
  shows "\<exists>w f'. sendAll BE4_Encode (PBFormater_Encode pl) f (map Some ps) = Some (w, f') \<and>
    (\<forall>evs rest. data_of evs = w @ rest \<longrightarrow>
      (\<exists>evs'. recvAll BE4_HeadLen BE4_Decode (PBFormater_Decode pl pf g) (length ps) evs =
         Some (map (\<lambda>p. seen_packet pl pf c (Some p)) ps, evs') \<and> data_of evs' = rest))"
  using pbs.all_packets [of c f g "map Some ps" pl pf] assms by (auto simp: o_def)

definition demo_lib :: "bytes protoLib" where
  "demo_lib = \<lparr>pl_size = length, pl_marshal = Some, pl_unmarshal = (\<lambda>z b. Some b)\<rparr>"

definition demo_packets :: "bytes PBPacket list" where
  "demo_packets = [\<lparr>ConnID = 1, Seq = 7, MsgID = 300, Flag = 1, Body = Some [1, 2, 3]\<rparr>, \<lparr>ConnID = 2, Seq = 8, MsgID = 5, Flag = 0, Body = Some []\<rparr>]"

theorem stream_delivers_witness:
  "\<exists>w f'. sendAll BE4_Encode (PBFormater_Encode demo_lib) (NewPBFormater 4 ''lz4'') (map Some demo_packets) = Some (w, f') \<and>
    (\<exists>evs'. recvAll BE4_HeadLen BE4_Decode (PBFormater_Decode demo_lib (\<lambda>_. Some []) (NewPBFormater 4 ''lz4'')) 2
       [Chunk (take 3 w), Chunk (drop 3 w)] = Some (demo_packets, evs'))"
proof -
  have ok: "formater_ok None (NewPBFormater 4 ''lz4'')"
    by (simp add: formater_ok_def NewPBFormater_def codec_New_def BE4_HeadLen_def)
  have s: "sendable_packet demo_lib (\<lambda>_. Some []) None (Some p)" if "p \<in> set demo_packets" for p
    using that by (auto simp: demo_packets_def sendable_packet_def demo_lib_def seenBody_def bodyBytes_def CompressFlag_def
        BE4_HeadLen_def minPacketSize_def packetSizeLimit_def)
  obtain w f' where w: "sendAll BE4_Encode (PBFormater_Encode demo_lib) (NewPBFormater 4 ''lz4'') (map Some demo_packets) = Some (w, f')"
    "\<And>evs rest. data_of evs = w @ rest \<Longrightarrow> \<exists>evs'. recvAll BE4_HeadLen BE4_Decode (PBFormater_Decode demo_lib (\<lambda>_. Some []) (NewPBFormater 4 ''lz4''))
       (length demo_packets) evs = Some (map (\<lambda>p. seen_packet demo_lib (\<lambda>_. Some []) None (Some p)) demo_packets, evs') \<and> data_of evs' = rest"
    using stream_delivers [OF ok ok s] by blast
  have "data_of [Chunk (take 3 w), Chunk (drop 3 w)] = w @ []" by simp
  moreover have "map (\<lambda>p. seen_packet demo_lib (\<lambda>_. Some []) None (Some p)) demo_packets = demo_packets" "length demo_packets = 2"
    by (simp_all add: demo_packets_def seen_packet_def seenBody_def bodyBytes_def demo_lib_def compressBody_def)
  ultimately have "\<exists>evs'. recvAll BE4_HeadLen BE4_Decode (PBFormater_Decode demo_lib (\<lambda>_. Some []) (NewPBFormater 4 ''lz4'')) 2
       [Chunk (take 3 w), Chunk (drop 3 w)] = Some (demo_packets, evs')"
    using w(2) by metis
  then show ?thesis using w(1) by blast
qed

section \<open>Datagrams\<close>

function pieces :: "nat \<Rightarrow> bytes \<Rightarrow> bytes list" where
  "pieces mss p = (if 0 < mss \<and> length p > mss then take mss p # pieces mss (drop mss p) else if p = [] then [] else [p])"
  by pat_completeness auto
termination by (relation "measure (\<lambda>(_, p). length p)") auto

declare pieces.simps [simp del]

lemma pieces_ok: "0 < mss \<Longrightarrow> concat (pieces mss p) = p \<and> (\<forall>d \<in> set (pieces mss p). 0 < length d \<and> length d \<le> mss)"
proof (induction mss p rule: pieces.induct)
  case (1 mss p)
  show ?case
  proof (cases "length p > mss")
    case True
    then show ?thesis using 1 by (subst (1 2) pieces.simps) auto
  next
    case False
    then show ?thesis by (subst (1 2) pieces.simps) auto
  qed
qed

lemma datagram_all:
  "0 < mss \<Longrightarrow> datagramWriter_Write mss (replicate (length (pieces mss p)) None @ as) p = (Done (length p, False), pieces mss p, as)"
proof (induction mss p rule: pieces.induct)
  case (1 mss p)
  show ?case
  proof (cases "length p > mss")
    case True
    then have "pieces mss p = take mss p # pieces mss (drop mss p)" using 1(2) by (simp add: pieces.simps [of mss p])
    then show ?thesis using 1 True by (subst datagramWriter_Write.simps) simp
  next
    case False
    then show ?thesis by (subst datagramWriter_Write.simps) (simp add: pieces.simps [of mss])
  qed
qed

lemma datagram_fails:
  "0 < mss \<Longrightarrow> j < length (pieces mss p) \<Longrightarrow>
   datagramWriter_Write mss (replicate j None @ Some n # as) p = (Done (j * mss + n, True), take (Suc j) (pieces mss p), as)"
proof (induction mss p arbitrary: j rule: pieces.induct)
  case (1 mss p)
  show ?case
  proof (cases "length p > mss")
    case True
    then have q: "pieces mss p = take mss p # pieces mss (drop mss p)" using 1(2) by (simp add: pieces.simps [of mss p])
    show ?thesis
    proof (cases j)
      case 0
      then show ?thesis using True q by (subst datagramWriter_Write.simps) simp
    next
      case (Suc i)
      then show ?thesis using 1(1) [of i] 1(2,3) True q by (subst datagramWriter_Write.simps) simp
    qed
  next
    case False
    then have "j = 0" "pieces mss p = [p]" "p \<noteq> []" using 1(3) by (auto simp: pieces.simps [of mss p] split: if_splits)
    then show ?thesis using False by (subst datagramWriter_Write.simps) simp
  qed
qed

text \<open>The writer of a datagram connection cuts what it is given into pieces of at most the packet
  size, none empty, that make up the bytes in order; it reports success exactly when the connection
  took them all. When the connection fails at a piece, nothing after that piece is sent and every
  later write fails without sending anything.\<close>

lemma datagram_pieces:
  assumes "0 < mss"
  shows "concat (pieces mss p) = p \<and> (\<forall>d \<in> set (pieces mss p). 0 < length d \<and> length d \<le> mss) \<and>
    rdpWriter_Write (newRdpWriter mss) (replicate (length (pieces mss p)) None @ as) p =
      (Done (length p, False), pieces mss p, as, newRdpWriter mss) \<and>
    (\<forall>j n. j < length (pieces mss p) \<longrightarrow>
      (\<exists>w. rdpWriter_Write (newRdpWriter mss) (replicate j None @ Some n # as) p = (Done (0, True), take (Suc j) (pieces mss p), as, w) \<and>
        (\<forall>as' p'. rdpWriter_Write w as' p' = (Done (0, True), [], as', w))))"
  using pieces_ok [OF assms] datagram_all [OF assms] datagram_fails [OF assms]
  by (auto simp: rdpWriter_Write_def newRdpWriter_def)

lemma datagram_pieces_example:
  "rdpWriter_Write (newRdpWriter 2) [None, None] [1, 2, 3] = (Done (3, False), [[1, 2], [3]], [], newRdpWriter 2)"
  using datagram_pieces [of 2 "[1, 2, 3]" "[]"] by (simp add: pieces.simps numeral_2_eq_2)

text \<open>What the encoder may produce the receiver may refuse: the limits are 16 and 4 megabytes.\<close>

lemma stream_limit_mismatch:
  assumes "readFull BE4_HeadLen evs = (Done (Some head), evs')" "BE4_Decode head + int BE4_HeadLen > packetSizeLimit"
  shows "TLVStream_Recv True BE4_HeadLen BE4_Decode dec evs = Some (Done (Inl ErrPacketSizeLimitExceeded), evs')"
  using assms by (simp add: TLVStream_Recv_def Let_def packetSizeLimit_def BE4_Decode_def)

end
