(* ===== verification/Session.thy ===== *)
theory Session
  imports Channels Tlv_Stream
begin

text \<open>
  The sessions of players (\<open>xnet/session.go\<close>, \<open>sessionmgr.go\<close>, \<open>tcpserver.go\<close>): a session over a
  stream, the manager with its limit, the goroutine that serves one connection, and the main loop
  that handles the events. A connection, its stream and its session carry the same number. The
  goroutine of a connection is a state machine whose states lie between its atomic actions, because
  other goroutines close sessions at any time. Handler calls and calls of \<open>onSessionClose\<close> are
  recorded. \<open>None\<close> is a panic.
\<close>

section \<open>Sessions\<close>

datatype sessErr = ErrSessionNotClosed | ErrSessionClosed | ErrAsyncNotEnable | ErrPanicRecovered | ErrStream streamErr

datatype closeCb = CbServer | CbUser nat

record 'm Session =
  se_id :: u32
  se_async :: bool
  se_stream :: "nat option"
  se_sendChan :: "'m SwitchChan"
  se_closeCallbacks :: "closeCb list"
  se_userData :: nat
  se_sendSig :: bool
  se_sigClosed :: bool

definition newSession :: "u32 \<Rightarrow> nat option \<Rightarrow> bool \<Rightarrow> 'm Session" where
  "newSession sid stream async = \<lparr>se_id = sid, se_async = async, se_stream = stream, se_sendChan = SwitchChan_Init,
     se_closeCallbacks = [], se_userData = 0, se_sendSig = False, se_sigClosed = False\<rparr>"

definition newClientSession :: "u32 \<Rightarrow> bool \<Rightarrow> 'm Session" where
  "newClientSession sid async = newSession sid None async"

text \<open>\<open>ReBind\<close> after the test of its argument; the panic of a send on the closed signal channel is
  recovered into an error, with the stream already stored.\<close>

definition Session_ReBind :: "nat \<Rightarrow> 'm Session \<Rightarrow> sessErr option \<times> 'm Session" where
  "Session_ReBind stream s =
     (if se_stream s \<noteq> None then (Some ErrSessionNotClosed, s)
      else let s = s\<lparr>se_stream := Some stream\<rparr> in
        if se_async s
        then if se_sigClosed s then (Some ErrPanicRecovered, s) else (None, s\<lparr>se_sendSig := True\<rparr>)
        else (None, s))"

definition AddCloseCallback :: "closeCb \<Rightarrow> 'm Session \<Rightarrow> 'm Session" where
  "AddCloseCallback cb s = s\<lparr>se_closeCallbacks := se_closeCallbacks s @ [cb]\<rparr>"

definition Session_destroy :: "'m Session \<Rightarrow> 'm Session option" where
  "Session_destroy s =
     (if se_sigClosed s then None
      else let s = s\<lparr>se_sigClosed := True\<rparr> in
        Some (if se_async s then s\<lparr>se_sendChan := SwitchChan_Close (se_sendChan s)\<rparr> else s))"

text \<open>\<open>Close\<close>: the stream it closes, the callbacks it invokes (before \<open>destroy\<close>), the session.\<close>

definition Session_Close :: "'m Session \<Rightarrow> (nat option \<times> closeCb list \<times> 'm Session) option" where
  "Session_Close s =
     (case se_stream s of
        None \<Rightarrow> Some (None, [], s)
      | Some c \<Rightarrow> do { s' \<leftarrow> Session_destroy (s\<lparr>se_stream := None\<rparr>); Some (Some c, se_closeCallbacks s, s') })"

text \<open>What the stream's \<open>Recv\<close> gives is a message, an error, or nothing to post.\<close>

definition Session_Recv :: "streamErr + 'm option \<Rightarrow> 'm Session \<Rightarrow> sessErr + 'm option" where
  "Session_Recv inp s =
     (case se_stream s of None \<Rightarrow> Inl ErrSessionClosed
      | Some _ \<Rightarrow> (case inp of Inl err \<Rightarrow> Inl (ErrStream err) | Inr m \<Rightarrow> Inr m))"

text \<open>The sends take the answer of the stream. A failing \<open>SyncSendRaw\<close> closes the session.\<close>

definition SyncSendRaw :: "streamErr option \<Rightarrow> 'm Session \<Rightarrow> (sessErr option \<times> closeCb list \<times> 'm Session) option" where
  "SyncSendRaw answer s =
     (case se_stream s of None \<Rightarrow> Some (Some ErrSessionClosed, [], s)
      | Some _ \<Rightarrow>
          (case answer of None \<Rightarrow> Some (None, [], s)
           | Some err \<Rightarrow> do { (_, cbs, s) \<leftarrow> Session_Close s; Some (Some (ErrStream err), cbs, s) }))"

definition SyncSend :: "streamErr option \<Rightarrow> 'm Session \<Rightarrow> sessErr option" where
  "SyncSend answer s =
     (case se_stream s of None \<Rightarrow> Some ErrSessionClosed | Some _ \<Rightarrow> map_option ErrStream answer)"

definition AsyncSend :: "'m option \<Rightarrow> 'm Session \<Rightarrow> sessErr option \<times> 'm Session" where
  "AsyncSend msg s =
     (if \<not> se_async s then (Some ErrAsyncNotEnable, s)
      else (None, s\<lparr>se_sendChan := SwitchChan_Write (se_sendChan s) msg\<rparr>))"

text \<open>The goroutine \<open>sender\<close>: it waits for a message, then tries to send it until that works; without
  a stream it waits for a signal. One round of the loops; a round that blocks changes nothing.\<close>

datatype 'm senderAt = SenderIdle | SenderHolds "'m option" | SenderEnded

definition sender_step :: "streamErr option \<Rightarrow> 'm senderAt \<times> 'm Session \<Rightarrow> (closeCb list \<times> 'm senderAt \<times> 'm Session) option" where
  "sender_step answer = (\<lambda>(pc, s).
     case pc of
       SenderEnded \<Rightarrow> Some ([], pc, s)
     | SenderIdle \<Rightarrow>
         (case SwitchChan_Read (se_sendChan s) of
            None \<Rightarrow> Some ([], pc, s)
          | Some (None, ch) \<Rightarrow> Some ([], SenderEnded, s\<lparr>se_sendChan := ch\<rparr>)
          | Some (Some m, ch) \<Rightarrow> Some ([], SenderHolds m, s\<lparr>se_sendChan := ch\<rparr>))
     | SenderHolds m \<Rightarrow>
         (case se_stream s of
            None \<Rightarrow>
              if se_sendSig s then Some ([], pc, s\<lparr>se_sendSig := False\<rparr>)
              else if se_sigClosed s then Some ([], SenderEnded, s)
              else Some ([], pc, s)
          | Some _ \<Rightarrow>
              (case answer of
                 None \<Rightarrow> Some ([], SenderIdle, s)
               | Some err \<Rightarrow> do { (_, cbs, s) \<leftarrow> Session_Close s; Some (cbs, pc, s) })))"

section \<open>The manager\<close>

record SessionMgr =
  sm_map :: "u32 \<Rightarrow> nat option"
  sm_num :: u32
  sm_total :: u64
  sm_max :: u32

definition mgrFull :: "SessionMgr \<Rightarrow> bool" where
  "mgrFull m \<longleftrightarrow> sm_num m \<ge> sm_max m"

definition mgrCount :: "SessionMgr \<Rightarrow> SessionMgr" where
  "mgrCount m = m\<lparr>sm_num := sm_num m + 1, sm_total := sm_total m + 1\<rparr>"

definition mgrStore :: "u32 \<Rightarrow> nat \<Rightarrow> SessionMgr \<Rightarrow> SessionMgr" where
  "mgrStore sid i m = m\<lparr>sm_map := (sm_map m)(sid := Some i)\<rparr>"

definition GetSession :: "u32 \<Rightarrow> SessionMgr \<Rightarrow> nat option" where
  "GetSession sid m = sm_map m sid"

definition DeleteSession :: "u32 \<Rightarrow> SessionMgr \<Rightarrow> SessionMgr" where
  "DeleteSession sid m = m\<lparr>sm_num := sm_num m - 1, sm_map := (sm_map m)(sid := None)\<rparr>"

section \<open>The server\<close>

datatype 'm sessionEvent = SessOpen nat | SessReopen nat | SessClose nat | SessData nat 'm

datatype serveAt = AtAccept | AtChecked | AtCounted | AtStored | AtRegistered | AtServing | AtEnding | AtRefused | AtOver

record 'm server =
  sv_mgr :: SessionMgr
  sv_alloc :: u32
  sv_post :: bool
  sv_se :: "nat \<Rightarrow> 'm Session"
  sv_ev :: "'m sessionEvent list"
  sv_at :: "nat \<Rightarrow> serveAt"
  sv_calls :: "'m sessionEvent list" \<comment> \<open>handler calls\<close>
  sv_deleted :: "nat list" \<comment> \<open>sessions \<open>onSessionClose\<close> was called with\<close>

definition checkServerConfig :: "bool \<Rightarrow> nat \<Rightarrow> u32 \<Rightarrow> nat \<times> u32" where
  "checkServerConfig postEvent queueBufLen maxSessionNum =
     (if postEvent \<and> queueBufLen = 0 then 1024 else queueBufLen, if maxSessionNum \<le> 0 then 1024 else maxSessionNum)"

definition NewTcpServer :: "bool \<Rightarrow> nat \<Rightarrow> u32 \<Rightarrow> 'm server" where
  "NewTcpServer postEvent queueBufLen maxSessionNum =
     \<lparr>sv_mgr = \<lparr>sm_map = (\<lambda>_. None), sm_num = 0, sm_total = 0, sm_max = snd (checkServerConfig postEvent queueBufLen maxSessionNum)\<rparr>,
      sv_alloc = 0, sv_post = postEvent, sv_se = (\<lambda>_. newSession 0 None False), sv_ev = [], sv_at = (\<lambda>_. AtAccept),
      sv_calls = [], sv_deleted = []\<rparr>"

definition defaultEvChanSize :: nat where "defaultEvChanSize = 1024"

definition evRoom :: "'m server \<Rightarrow> bool" where
  "evRoom s \<longleftrightarrow> \<not> sv_post s \<or> length (sv_ev s) < defaultEvChanSize"

definition postEvent :: "'m sessionEvent \<Rightarrow> 'm server \<Rightarrow> 'm server" where
  "postEvent e s = (if sv_post s then s\<lparr>sv_ev := sv_ev s @ [e]\<rparr> else s\<lparr>sv_calls := sv_calls s @ [e]\<rparr>)"

definition postOpenEvent :: "nat \<Rightarrow> 'm server \<Rightarrow> 'm server" where "postOpenEvent i = postEvent (SessOpen i)"
definition postCloseEvent :: "nat \<Rightarrow> 'm server \<Rightarrow> 'm server" where "postCloseEvent i = postEvent (SessClose i)"
definition postMsgEvent :: "nat \<Rightarrow> 'm \<Rightarrow> 'm server \<Rightarrow> 'm server" where "postMsgEvent i m = postEvent (SessData i m)"

definition onSessionClose :: "nat \<Rightarrow> 'm server \<Rightarrow> 'm server" where
  "onSessionClose i s = s\<lparr>sv_mgr := DeleteSession (se_id (sv_se s i)) (sv_mgr s), sv_deleted := sv_deleted s @ [i]\<rparr>"

definition putSession :: "nat \<Rightarrow> closeCb list \<Rightarrow> 'm Session \<Rightarrow> 'm server \<Rightarrow> 'm server" where
  "putSession i cbs se s =
     (let s = fold (\<lambda>cb s. if cb = CbServer then onSessionClose i s else s) cbs s in s\<lparr>sv_se := (sv_se s)(i := se)\<rparr>)"

definition closeSession :: "nat \<Rightarrow> 'm server \<Rightarrow> 'm server option" where
  "closeSession i s = do { (_, cbs, se) \<leftarrow> Session_Close (sv_se s i); Some (putSession i cbs se s) }"

definition setAt :: "nat \<Rightarrow> serveAt \<Rightarrow> 'm server \<Rightarrow> 'm server" where
  "setAt i a s = s\<lparr>sv_at := (sv_at s)(i := a)\<rparr>"

text \<open>The goroutine of connection \<open>i\<close>, from \<open>handshake\<close> through \<open>CreateSession\<close> to \<open>serveOne\<close>; \<open>inp\<close>
  is what the stream's \<open>Recv\<close> gives.\<close>

definition serve_step :: "streamErr + 'm option \<Rightarrow> nat \<Rightarrow> 'm server \<Rightarrow> 'm server option" where
  "serve_step inp i s =
     (case sv_at s i of
        AtAccept \<Rightarrow> Some (setAt i (if mgrFull (sv_mgr s) then AtRefused else AtChecked) s)
      | AtChecked \<Rightarrow> Some (setAt i AtCounted (s\<lparr>sv_mgr := mgrCount (sv_mgr s)\<rparr>))
      | AtCounted \<Rightarrow>
          let sid = sv_alloc s + 1 in
          Some (setAt i AtStored (s\<lparr>sv_alloc := sid, sv_se := (sv_se s)(i := newSession sid (Some i) (sv_post s)),
            sv_mgr := mgrStore sid i (sv_mgr s)\<rparr>))
      | AtStored \<Rightarrow> Some (setAt i AtRegistered (s\<lparr>sv_se := (sv_se s)(i := AddCloseCallback CbServer (sv_se s i))\<rparr>))
      | AtRegistered \<Rightarrow> Some (setAt i AtServing (postOpenEvent i s))
      | AtServing \<Rightarrow>
          (case Session_Recv inp (sv_se s i) of
             Inr None \<Rightarrow> Some s
           | Inr (Some m) \<Rightarrow> Some (postMsgEvent i m s)
           | Inl err \<Rightarrow> do { s \<leftarrow> closeSession i s; Some (setAt i AtEnding s) })
      | AtEnding \<Rightarrow> Some (setAt i AtOver (postCloseEvent i s))
      | AtRefused \<Rightarrow> Some s
      | AtOver \<Rightarrow> Some s)"

fun processLoop :: "nat \<Rightarrow> 'm server \<Rightarrow> bool \<times> 'm server" where
  "processLoop 0 s = (False, s)"
| "processLoop (Suc n) s =
     (case sv_ev s of [] \<Rightarrow> (True, s) | e # es \<Rightarrow> processLoop n (s\<lparr>sv_ev := es, sv_calls := sv_calls s @ [e]\<rparr>))"

definition ProcessEvent :: "'m server \<Rightarrow> bool \<times> 'm server" where
  "ProcessEvent s = processLoop 1024 s"

text \<open>\<open>close\<close>, with the sessions of the map in the order of the visit.\<close>

fun server_closeAll :: "nat list \<Rightarrow> 'm server \<Rightarrow> 'm server option" where
  "server_closeAll [] s = Some s"
| "server_closeAll (i # is) s = do { s \<leftarrow> closeSession i s; server_closeAll is s }"

section \<open>Runs\<close>

definition stored :: "'m server \<Rightarrow> nat \<Rightarrow> bool" where
  "stored s i \<longleftrightarrow> sv_at s i \<in> {AtStored, AtRegistered, AtServing, AtEnding, AtOver}"

definition posts :: "serveAt \<Rightarrow> bool" where
  "posts a \<longleftrightarrow> a \<in> {AtRegistered, AtServing, AtEnding}"

text \<open>The goroutines of the connections, of the senders and of the users of a session, and the main
  loop, in any order. A goroutine that posts to a full channel waits.\<close>

inductive session_run :: "'m server \<Rightarrow> bool" where
  sr_new: "session_run (NewTcpServer post bufLen maxNum)"
| sr_serve: "session_run s \<Longrightarrow> posts (sv_at s i) \<longrightarrow> evRoom s \<Longrightarrow> serve_step inp i s = Some s' \<Longrightarrow> session_run s'"
| sr_close: "session_run s \<Longrightarrow> stored s i \<Longrightarrow> closeSession i s = Some s' \<Longrightarrow> session_run s'"
| sr_sender: "session_run s \<Longrightarrow> stored s i \<Longrightarrow> sender_step answer (pc, sv_se s i) = Some (cbs, pc', se) \<Longrightarrow>
    session_run (putSession i cbs se s)"
| sr_sendRaw: "session_run s \<Longrightarrow> stored s i \<Longrightarrow> SyncSendRaw answer (sv_se s i) = Some (err, cbs, se) \<Longrightarrow>
    session_run (putSession i cbs se s)"
| sr_send: "session_run s \<Longrightarrow> stored s i \<Longrightarrow> AsyncSend msg (sv_se s i) = (err, se) \<Longrightarrow> session_run (putSession i [] se s)"
| sr_process: "session_run s \<Longrightarrow> session_run (snd (ProcessEvent s))"

section \<open>The life of a session\<close>

definition session_of :: "'m sessionEvent \<Rightarrow> nat" where
  "session_of e = (case e of SessOpen i \<Rightarrow> i | SessReopen i \<Rightarrow> i | SessClose i \<Rightarrow> i | SessData i _ \<Rightarrow> i)"

text \<open>All events of a session so far, handled ones first.\<close>

definition events_of :: "nat \<Rightarrow> 'm server \<Rightarrow> 'm sessionEvent list" where
  "events_of i s = filter (\<lambda>e. session_of e = i) (sv_calls s @ sv_ev s)"

definition life :: "nat \<Rightarrow> serveAt \<Rightarrow> 'm sessionEvent list \<Rightarrow> bool" where
  "life i a es = (case a of
     AtServing \<Rightarrow> (\<exists>ms. es = SessOpen i # map (SessData i) ms)
   | AtEnding \<Rightarrow> (\<exists>ms. es = SessOpen i # map (SessData i) ms)
   | AtOver \<Rightarrow> (\<exists>ms. es = SessOpen i # map (SessData i) ms @ [SessClose i])
   | _ \<Rightarrow> es = [])"

text \<open>A stored session is closed exactly when its signal channel is; only the server's callback is
  registered, after \<open>AtStored\<close>; a session that is over is closed.\<close>

definition se_ok :: "serveAt \<Rightarrow> 'm Session \<Rightarrow> bool \<Rightarrow> bool" where
  "se_ok a se deleted \<longleftrightarrow>
     (a \<in> {AtStored, AtRegistered, AtServing, AtEnding, AtOver} \<longrightarrow>
        (se_stream se = None \<longleftrightarrow> se_sigClosed se) \<and> se_closeCallbacks se = (if a = AtStored then [] else [CbServer]) \<and>
        (deleted \<longrightarrow> se_stream se = None)) \<and>
     (a \<in> {AtEnding, AtOver} \<longrightarrow> se_stream se = None) \<and>
     (a \<in> {AtAccept, AtChecked, AtCounted, AtRefused} \<longrightarrow> \<not> deleted)"

definition counted :: "serveAt \<Rightarrow> bool" where
  "counted a \<longleftrightarrow> a \<notin> {AtAccept, AtChecked, AtRefused}"

definition num_ok :: "'m server \<Rightarrow> bool" where
  "num_ok s \<longleftrightarrow> finite {i. counted (sv_at s i)} \<and> distinct (sv_deleted s) \<and>
     sm_num (sv_mgr s) = of_nat (card {i. counted (sv_at s i)}) - of_nat (length (sv_deleted s)) \<and>
     sm_total (sv_mgr s) = of_nat (card {i. counted (sv_at s i)})"

definition sess_inv :: "'m server \<Rightarrow> bool" where
  "sess_inv s \<longleftrightarrow> num_ok s \<and> (\<not> sv_post s \<longrightarrow> sv_ev s = []) \<and>
     (\<forall>i. life i (sv_at s i) (events_of i s) \<and> se_ok (sv_at s i) (sv_se s i) (i \<in> set (sv_deleted s)))"

lemma sess_invD:
  assumes "sess_inv s"
  shows "num_ok s" "\<not> sv_post s \<Longrightarrow> sv_ev s = []" "life i (sv_at s i) (events_of i s)"
    "se_ok (sv_at s i) (sv_se s i) (i \<in> set (sv_deleted s))"
  using assms by (simp_all add: sess_inv_def)

lemma setAt_sel [simp]: "sv_at (setAt i a s) = (sv_at s)(i := a)" "sv_se (setAt i a s) = sv_se s" "sv_mgr (setAt i a s) = sv_mgr s"
  "sv_ev (setAt i a s) = sv_ev s" "sv_calls (setAt i a s) = sv_calls s" "sv_deleted (setAt i a s) = sv_deleted s"
  "sv_post (setAt i a s) = sv_post s" "events_of j (setAt i a s) = events_of j s"
  by (simp_all add: setAt_def events_of_def)

lemma postEvent_sel [simp]: "sv_at (postEvent e s) = sv_at s" "sv_se (postEvent e s) = sv_se s" "sv_mgr (postEvent e s) = sv_mgr s"
  "sv_deleted (postEvent e s) = sv_deleted s" "sv_post (postEvent e s) = sv_post s"
  by (simp_all add: postEvent_def)

lemma postEvent_events:
  "sess_inv s \<Longrightarrow> events_of j (postEvent e s) = events_of j s @ (if session_of e = j then [e] else [])"
  "sess_inv s \<Longrightarrow> \<not> sv_post s \<Longrightarrow> sv_ev (postEvent e s) = []"
  by (auto simp: postEvent_def events_of_def sess_inv_def)

lemmas post_defs = postOpenEvent_def postCloseEvent_def postMsgEvent_def

lemma session_of_simps [simp]: "session_of (SessOpen i) = i" "session_of (SessClose i) = i" "session_of (SessData i m) = i"
  by (simp_all add: session_of_def)

lemma num_ok_cong:
  "num_ok s \<Longrightarrow> sv_at s' = (sv_at s)(i := a) \<Longrightarrow> counted a = counted (sv_at s i) \<Longrightarrow> sv_deleted s' = sv_deleted s \<Longrightarrow>
   sm_num (sv_mgr s') = sm_num (sv_mgr s) \<Longrightarrow> sm_total (sv_mgr s') = sm_total (sv_mgr s) \<Longrightarrow> num_ok s'"
proof -
  assume a: "sv_at s' = (sv_at s)(i := a)" "counted a = counted (sv_at s i)"
  then have "{j. counted (sv_at s' j)} = {j. counted (sv_at s j)}" by auto
  then show "num_ok s \<Longrightarrow> sv_deleted s' = sv_deleted s \<Longrightarrow> sm_num (sv_mgr s') = sm_num (sv_mgr s) \<Longrightarrow>
      sm_total (sv_mgr s') = sm_total (sv_mgr s) \<Longrightarrow> num_ok s'" by (simp add: num_ok_def)
qed

text \<open>A step that changes one session: what has to be shown for the invariant.\<close>

lemma sess_inv_one:
  assumes inv: "sess_inv s" and num: "num_ok s'" and ev: "\<not> sv_post s' \<Longrightarrow> sv_ev s' = []"
    and i: "life i (sv_at s' i) (events_of i s')" "se_ok (sv_at s' i) (sv_se s' i) (i \<in> set (sv_deleted s'))"
    and j: "\<And>j. j \<noteq> i \<Longrightarrow> sv_at s' j = sv_at s j \<and> events_of j s' = events_of j s \<and> sv_se s' j = sv_se s j \<and>
      (j \<in> set (sv_deleted s') \<longleftrightarrow> j \<in> set (sv_deleted s))"
  shows "sess_inv s'"
  unfolding sess_inv_def
proof (intro conjI allI impI num)
  show "sv_ev s' = []" if "\<not> sv_post s'" using ev that by simp
  show "life k (sv_at s' k) (events_of k s')" for k using i(1) j [of k] sess_invD(3) [OF inv, of k] by (cases "k = i") simp_all
  show "se_ok (sv_at s' k) (sv_se s' k) (k \<in> set (sv_deleted s'))" for k
    using i(2) j [of k] sess_invD(4) [OF inv, of k] by (cases "k = i") simp_all
qed

lemma se_ok_stored:
  assumes "stored s i"
  shows "se_ok (sv_at s i) se deleted \<longleftrightarrow>
    (se_stream se = None \<longleftrightarrow> se_sigClosed se) \<and> se_closeCallbacks se = (if sv_at s i = AtStored then [] else [CbServer]) \<and>
    (deleted \<or> sv_at s i \<in> {AtEnding, AtOver} \<longrightarrow> se_stream se = None)"
  using assms unfolding stored_def se_ok_def by (cases "sv_at s i") auto

text \<open>Closing: the first time with the callback registered the session is deleted.\<close>

lemma Session_Close_ok:
  assumes "se_ok (sv_at s i) se del" "stored s i"
  shows "\<exists>c se'. Session_Close se = Some (c, if se_stream se = None \<or> sv_at s i = AtStored then [] else [CbServer], se') \<and>
    se_stream se' = None \<and> se_sigClosed se' \<and> se_closeCallbacks se' = se_closeCallbacks se"
  using assms(1) unfolding se_ok_stored [OF assms(2)]
  by (cases "se_stream se") (auto simp: Session_Close_def Session_destroy_def Let_def)

lemma putSession_sel [simp]: "sv_at (putSession i cbs se s) = sv_at s" "events_of j (putSession i cbs se s) = events_of j s"
  "sv_post (putSession i cbs se s) = sv_post s" "sv_ev (putSession i cbs se s) = sv_ev s"
  "sv_se (putSession i cbs se s) = (sv_se s)(i := se)"
proof -
  let ?f = "fold (\<lambda>cb s. if cb = CbServer then onSessionClose i s else s) cbs"
  have f: "sv_at (?f s) = sv_at s \<and> sv_post (?f s) = sv_post s \<and> sv_ev (?f s) = sv_ev s \<and> sv_calls (?f s) = sv_calls s \<and> sv_se (?f s) = sv_se s" for s
    by (induction cbs arbitrary: s) (auto simp: onSessionClose_def)
  show "sv_at (putSession i cbs se s) = sv_at s" "events_of j (putSession i cbs se s) = events_of j s"
    "sv_post (putSession i cbs se s) = sv_post s" "sv_ev (putSession i cbs se s) = sv_ev s"
    "sv_se (putSession i cbs se s) = (sv_se s)(i := se)"
    using f [of s] by (simp_all add: putSession_def Let_def events_of_def)
qed

lemma putSession_inv:
  assumes inv: "sess_inv s" and st: "stored s i" and stream: "se_stream se = None \<longleftrightarrow> se_sigClosed se"
    and cb: "se_closeCallbacks se = se_closeCallbacks (sv_se s i)" "se_stream (sv_se s i) = None \<Longrightarrow> se_stream se = None"
    and cbs: "cbs = [] \<or> cbs = [CbServer] \<and> se_stream (sv_se s i) \<noteq> None \<and> se_stream se = None"
  shows "sess_inv (putSession i cbs se s)"
proof (rule sess_inv_one [OF inv, where i = i])
  note o = sess_invD(4) [OF inv, of i, unfolded se_ok_stored [OF st]]
  have del: "sv_deleted (putSession i cbs se s) = sv_deleted s @ (if cbs = [] then [] else [i])"
    "sm_total (sv_mgr (putSession i cbs se s)) = sm_total (sv_mgr s)"
    "sm_num (sv_mgr (putSession i cbs se s)) = sm_num (sv_mgr s) - (if cbs = [] then 0 else 1)"
    using cbs by (auto simp: putSession_def onSessionClose_def DeleteSession_def Let_def)
  have new: "cbs \<noteq> [] \<Longrightarrow> i \<notin> set (sv_deleted s)" using cbs o by auto
  show "num_ok (putSession i cbs se s)"
    using sess_invD(1) [OF inv] new unfolding num_ok_def del putSession_sel by (cases "cbs = []") simp_all
  show "life i (sv_at (putSession i cbs se s) i) (events_of i (putSession i cbs se s))" using sess_invD(3) [OF inv, of i] by simp
  show "se_ok (sv_at (putSession i cbs se s) i) (sv_se (putSession i cbs se s) i) (i \<in> set (sv_deleted (putSession i cbs se s)))"
    unfolding putSession_sel fun_upd_same se_ok_stored [OF st] del(1) using o stream cb cbs by (cases "cbs = []") auto
  show "\<not> sv_post (putSession i cbs se s) \<Longrightarrow> sv_ev (putSession i cbs se s) = []" using sess_invD(2) [OF inv] by simp
  show "sv_at (putSession i cbs se s) j = sv_at s j \<and> events_of j (putSession i cbs se s) = events_of j s \<and>
      sv_se (putSession i cbs se s) j = sv_se s j \<and> (j \<in> set (sv_deleted (putSession i cbs se s)) \<longleftrightarrow> j \<in> set (sv_deleted s))" if "j \<noteq> i" for j
    using that by (simp add: del)
qed

lemma closeSession_inv:
  assumes inv: "sess_inv s" and st: "stored s i"
  shows "\<exists>s'. closeSession i s = Some s' \<and> sess_inv s' \<and> sv_at s' = sv_at s \<and> se_stream (sv_se s' i) = None"
proof -
  note o = sess_invD(4) [OF inv, of i]
  obtain c se' where c: "Session_Close (sv_se s i) = Some (c, if se_stream (sv_se s i) = None \<or> sv_at s i = AtStored then [] else [CbServer], se')"
    "se_stream se' = None" "se_sigClosed se'" "se_closeCallbacks se' = se_closeCallbacks (sv_se s i)"
    using Session_Close_ok [OF o st] by blast
  have "sess_inv (putSession i (if se_stream (sv_se s i) = None \<or> sv_at s i = AtStored then [] else [CbServer]) se' s)"
    by (rule putSession_inv [OF inv st]) (use c in auto)
  then show ?thesis using c(1,2) by (simp add: closeSession_def)
qed

lemma sender_inv:
  assumes inv: "sess_inv s" and st: "stored s i" and step: "sender_step answer (pc, sv_se s i) = Some (cbs, pc', se)"
  shows "sess_inv (putSession i cbs se s)"
proof (cases "cbs = [] \<and> (se = sv_se s i \<or> (\<exists>ch. se = (sv_se s i)\<lparr>se_sendChan := ch\<rparr>) \<or> se = (sv_se s i)\<lparr>se_sendSig := False\<rparr>)")
  case True
  then show ?thesis
    using sess_invD(4) [OF inv, of i, unfolded se_ok_stored [OF st]] by (intro putSession_inv [OF inv st]) auto
next
  case False
  obtain c se' where c: "Session_Close (sv_se s i) = Some (c, if se_stream (sv_se s i) = None \<or> sv_at s i = AtStored then [] else [CbServer], se')"
    "se_stream se' = None" "se_sigClosed se'" "se_closeCallbacks se' = se_closeCallbacks (sv_se s i)"
    using Session_Close_ok [OF sess_invD(4) [OF inv, of i] st] by blast
  have "se = se' \<and> cbs = (if se_stream (sv_se s i) = None \<or> sv_at s i = AtStored then [] else [CbServer])"
    using False step c(1) by (auto simp: sender_step_def split: senderAt.splits option.splits if_splits)
  then show ?thesis using c by (intro putSession_inv [OF inv st]) auto
qed

lemma sendRaw_inv:
  assumes inv: "sess_inv s" and st: "stored s i" and step: "SyncSendRaw answer (sv_se s i) = Some (err, cbs, se)"
  shows "sess_inv (putSession i cbs se s)"
proof (cases "cbs = [] \<and> se = sv_se s i")
  case True
  then show ?thesis
    using sess_invD(4) [OF inv, of i, unfolded se_ok_stored [OF st]] by (intro putSession_inv [OF inv st]) auto
next
  case False
  obtain c se' where c: "Session_Close (sv_se s i) = Some (c, if se_stream (sv_se s i) = None \<or> sv_at s i = AtStored then [] else [CbServer], se')"
    "se_stream se' = None" "se_sigClosed se'" "se_closeCallbacks se' = se_closeCallbacks (sv_se s i)"
    using Session_Close_ok [OF sess_invD(4) [OF inv, of i] st] by blast
  have "se = se' \<and> cbs = (if se_stream (sv_se s i) = None \<or> sv_at s i = AtStored then [] else [CbServer])"
    using False step c(1) by (auto simp: SyncSendRaw_def split: option.splits)
  then show ?thesis using c by (intro putSession_inv [OF inv st]) auto
qed

lemma processLoop_sel:
  "sv_at (snd (processLoop n s)) = sv_at s \<and> sv_se (snd (processLoop n s)) = sv_se s \<and> sv_mgr (snd (processLoop n s)) = sv_mgr s \<and>
   sv_deleted (snd (processLoop n s)) = sv_deleted s \<and> sv_post (snd (processLoop n s)) = sv_post s \<and>
   sv_calls (snd (processLoop n s)) @ sv_ev (snd (processLoop n s)) = sv_calls s @ sv_ev s \<and>
   (sv_ev s = [] \<longrightarrow> sv_ev (snd (processLoop n s)) = [])"
  by (induction n s rule: processLoop.induct) (auto split: list.split)

lemma ProcessEvent_inv: "sess_inv s \<Longrightarrow> sess_inv (snd (ProcessEvent s))"
  using processLoop_sel [of 1024 s] by (auto simp: ProcessEvent_def sess_inv_def num_ok_def events_of_def)

text \<open>The goroutine of a connection never panics and keeps the invariant.\<close>

lemma counted_insert:
  assumes "num_ok s" "\<not> counted (sv_at s i)" "counted a"
  shows "num_ok (setAt i a (s\<lparr>sv_mgr := mgrCount (sv_mgr s)\<rparr>))"
proof -
  have "{j. counted (((sv_at s)(i := a)) j)} = insert i {j. counted (sv_at s j)}" using assms(3) by auto
  then show ?thesis using assms(1,2) by (simp add: num_ok_def mgrCount_def algebra_simps)
qed

lemma sess_inv_rest:
  assumes "sess_inv s" "num_ok s'" "life i (sv_at s' i) (events_of i s')" "se_ok (sv_at s' i) (sv_se s' i) (i \<in> set (sv_deleted s'))"
    "\<And>j. j \<noteq> i \<Longrightarrow> sv_at s' j = sv_at s j \<and> events_of j s' = events_of j s \<and> sv_se s' j = sv_se s j" "sv_deleted s' = sv_deleted s"
    "\<not> sv_post s' \<Longrightarrow> sv_ev s' = []"
  shows "sess_inv s'"
  using assms(2-) by (intro sess_inv_one [OF assms(1), where i = i]) auto

lemma serve_start_inv:
  assumes inv: "sess_inv s" and at: "sv_at s i \<in> {AtAccept, AtChecked, AtCounted, AtStored}"
  shows "\<exists>s'. serve_step inp i s = Some s' \<and> sess_inv s'"
proof -
  note N = sess_invD(1) [OF inv] and L = sess_invD(3) [OF inv, of i] and O = sess_invD(4) [OF inv, of i] and E = sess_invD(2) [OF inv]
  show ?thesis
  proof (cases "sv_at s i")
    case AtAccept
    let ?a = "if mgrFull (sv_mgr s) then AtRefused else AtChecked"
    have "sess_inv (setAt i ?a s)"
      by (rule sess_inv_rest [OF inv, where i = i]) (use N L O E AtAccept in \<open>auto simp: life_def se_ok_def counted_def elim!: num_ok_cong [where a = ?a and i = i]\<close>)
    then show ?thesis using AtAccept by (simp add: serve_step_def)
  next
    case AtChecked
    have "sess_inv (setAt i AtCounted (s\<lparr>sv_mgr := mgrCount (sv_mgr s)\<rparr>))"
      by (rule sess_inv_rest [OF inv, where i = i]) (use counted_insert [OF N, of i AtCounted] L O E AtChecked in \<open>auto simp: life_def se_ok_def counted_def events_of_def\<close>)
    then show ?thesis using AtChecked by (simp add: serve_step_def)
  next
    case AtCounted
    let ?s = "s\<lparr>sv_alloc := sv_alloc s + 1, sv_se := (sv_se s)(i := newSession (sv_alloc s + 1) (Some i) (sv_post s)),
      sv_mgr := mgrStore (sv_alloc s + 1) i (sv_mgr s)\<rparr>"
    have "num_ok (setAt i AtStored ?s)"
      by (rule num_ok_cong [OF N, where a = AtStored and i = i]) (simp_all add: AtCounted counted_def mgrStore_def)
    then have "sess_inv (setAt i AtStored ?s)"
      by (rule sess_inv_rest [OF inv, where i = i]) (use L O E AtCounted in \<open>auto simp: life_def se_ok_def events_of_def newSession_def\<close>)
    then show ?thesis using AtCounted by (simp add: serve_step_def Let_def)
  next
    case AtStored
    let ?s = "s\<lparr>sv_se := (sv_se s)(i := AddCloseCallback CbServer (sv_se s i))\<rparr>"
    have "num_ok (setAt i AtRegistered ?s)"
      by (rule num_ok_cong [OF N, where a = AtRegistered and i = i]) (simp_all add: AtStored counted_def)
    then have "sess_inv (setAt i AtRegistered ?s)"
      by (rule sess_inv_rest [OF inv, where i = i]) (use L O E AtStored in \<open>auto simp: life_def se_ok_def events_of_def AddCloseCallback_def\<close>)
    then show ?thesis using AtStored by (simp add: serve_step_def)
  qed (use at in simp_all)
qed

lemma serve_step_inv:
  assumes inv: "sess_inv s"
  shows "\<exists>s'. serve_step inp i s = Some s' \<and> sess_inv s'"
proof -
  note N = sess_invD(1) [OF inv] and L = sess_invD(3) [OF inv, of i] and O = sess_invD(4) [OF inv, of i]
  show ?thesis
  proof (cases "sv_at s i")
    case AtRegistered
    have "num_ok (setAt i AtServing (postEvent (SessOpen i) s))"
      by (rule num_ok_cong [OF N, where a = AtServing and i = i]) (simp_all add: AtRegistered counted_def)
    then have "sess_inv (setAt i AtServing (postEvent (SessOpen i) s))"
      by (rule sess_inv_rest [OF inv, where i = i]) (use L O postEvent_events [OF inv] AtRegistered in \<open>auto simp: life_def se_ok_def\<close>)
    then show ?thesis using AtRegistered by (simp add: serve_step_def post_defs)
  next
    case AtServing
    show ?thesis
    proof (cases "Session_Recv inp (sv_se s i)")
      case (Inr r)
      show ?thesis
      proof (cases r)
        case None
        then show ?thesis using AtServing Inr inv by (simp add: serve_step_def)
      next
        case (Some m)
        have "num_ok (postEvent (SessData i m) s)"
          by (rule num_ok_cong [OF N, where a = AtServing and i = i]) (simp_all add: AtServing fun_upd_idem)
        then have "sess_inv (postEvent (SessData i m) s)"
          by (rule sess_inv_rest [OF inv, where i = i]) (use L O postEvent_events [OF inv] AtServing in \<open>auto simp: life_def intro: exI [of _ "ms @ [m]" for ms]\<close>)
        then show ?thesis using AtServing Inr Some by (simp add: serve_step_def post_defs)
      qed
    next
      case (Inl err)
      have st: "stored s i" using AtServing by (simp add: stored_def)
      obtain s' where s': "closeSession i s = Some s'" "sess_inv s'" "sv_at s' = sv_at s" "se_stream (sv_se s' i) = None"
        using closeSession_inv [OF inv st] by blast
      have "num_ok (setAt i AtEnding s')"
        by (rule num_ok_cong [OF sess_invD(1) [OF s'(2)], where a = AtEnding and i = i]) (simp_all add: s'(3) AtServing counted_def)
      then have "sess_inv (setAt i AtEnding s')"
        by (rule sess_inv_one [OF s'(2)])
          (use sess_invD(3,4) [OF s'(2), of i] sess_invD(2) [OF s'(2)] s'(3,4) AtServing in \<open>auto simp: life_def se_ok_def\<close>)
      then show ?thesis using AtServing Inl s'(1) by (simp add: serve_step_def)
    qed
  next
    case AtEnding
    have "num_ok (setAt i AtOver (postEvent (SessClose i) s))"
      by (rule num_ok_cong [OF N, where a = AtOver and i = i]) (simp_all add: AtEnding counted_def)
    then have "sess_inv (setAt i AtOver (postEvent (SessClose i) s))"
      by (rule sess_inv_rest [OF inv, where i = i]) (use L O postEvent_events [OF inv] AtEnding in \<open>auto simp: life_def se_ok_def\<close>)
    then show ?thesis using AtEnding by (simp add: serve_step_def post_defs)
  next
    case AtRefused
    then show ?thesis using inv by (simp add: serve_step_def)
  next
    case AtOver
    then show ?thesis using inv by (simp add: serve_step_def)
  qed (simp_all add: serve_start_inv [OF inv])
qed

lemma session_run_inv: "session_run s \<Longrightarrow> sess_inv s"
proof (induction rule: session_run.induct)
  case (sr_new post bufLen maxNum)
  show ?case by (simp add: sess_inv_def NewTcpServer_def num_ok_def counted_def life_def se_ok_def events_of_def)
next
  case (sr_serve s i inp s')
  then show ?case using serve_step_inv [of s inp i] by auto
next
  case (sr_close s i s')
  then show ?case using closeSession_inv [of s i] by auto
next
  case (sr_sender s i answer pc cbs pc' se)
  then show ?case by (intro sender_inv)
next
  case (sr_sendRaw s i answer err cbs se)
  then show ?case by (intro sendRaw_inv)
next
  case (sr_send s i msg err se)
  then show ?case using sess_invD(4) [of s i, unfolded se_ok_stored [OF sr_send.hyps(2)]]
    by (intro putSession_inv) (auto simp: AsyncSend_def split: if_splits)
next
  case (sr_process s)
  then show ?case by (intro ProcessEvent_inv)
qed


definition demo_step :: "nat \<Rightarrow> nat server \<Rightarrow> nat server" where
  "demo_step i s = (case serve_step (Inl ErrConn) i s of Some s' \<Rightarrow> s' | None \<Rightarrow> s)"

fun demo_steps :: "nat list \<Rightarrow> nat server \<Rightarrow> nat server" where
  "demo_steps [] s = s"
| "demo_steps (i # is) s = (if evRoom s then demo_steps is (demo_step i s) else s)"

lemma demo_steps_run: "session_run s \<Longrightarrow> session_run (demo_steps is s)"
proof (induction "is" arbitrary: s)
  case (Cons i "is")
  obtain s' where "serve_step (Inl ErrConn) i s = Some s'" using serve_step_inv [OF session_run_inv [OF Cons.prems]] by blast
  then show ?case using Cons.IH [OF sr_serve [OF Cons.prems]] Cons.prems by (simp add: demo_step_def)
qed simp




text \<open>The limit is tested before the session is counted: two connections may pass together.\<close>

lemma session_limit_race:
  "session_run (demo_steps [1, 2, 1, 2] (NewTcpServer True 0 1))"
  "sm_max (sv_mgr (demo_steps [1, 2, 1, 2] (NewTcpServer True 0 1))) = 1"
  "sm_num (sv_mgr (demo_steps [1, 2, 1, 2] (NewTcpServer True 0 1))) = 2"
  by (intro demo_steps_run sr_new, code_simp, code_simp)

text \<open>A client session that is closed, bound again and closed again closes its signal channel twice.\<close>

lemma session_rebind_panics:
  assumes "se_stream s = Some c" "\<not> se_sigClosed s" "\<not> se_async s"
  shows "\<exists>cbs s' s''. Session_Close s = Some (Some c, cbs, s') \<and> Session_ReBind d s' = (None, s'') \<and> Session_Close s'' = None"
  using assms by (simp add: Session_Close_def Session_destroy_def Session_ReBind_def Let_def)

text \<open>A session closed between being stored and having its callback registered is never deleted.\<close>

lemma session_leak:
  assumes "se_stream (sv_se s i) = Some c" "\<not> se_sigClosed (sv_se s i)" "se_closeCallbacks (sv_se s i) = []"
  shows "\<exists>s'. closeSession i s = Some s' \<and> sv_mgr s' = sv_mgr s \<and> se_stream (sv_se s' i) = None"
  using assms by (simp add: closeSession_def Session_Close_def Session_destroy_def putSession_def Let_def)

end
