(* ===== verification/Client.thy ===== *)
theory Client
  imports Session
begin

text \<open>
  The client side of a session (\<open>xnet/client.go\<close>, \<open>udpclient.go\<close>), used by test robots: dialling until it works,
  binding the stream to the session, serving it. What dialling and the TLS handshake give, and
  whether the client was destroyed meanwhile, are parameters of a round. \<open>None\<close> is a panic.
\<close>

datatype TransmitProto = ProtocolTCP | ProtocolKCP | ProtocolRDP | ProtocolOther

datatype clientAt = CConnecting | COpening | CServing | CEnding | CDone

record 'm Client =
  cl_session :: "'m Session"
  cl_post :: bool
  cl_secure :: bool
  cl_ev :: "'m sessionEvent list"
  cl_calls :: "'m sessionEvent list"
  cl_reopen :: bool
  cl_destroyed :: bool
  cl_at :: clientAt
  cl_dialer :: TransmitProto

definition checkClientConfig :: "bool \<Rightarrow> nat \<Rightarrow> int \<Rightarrow> nat \<times> int" where
  "checkClientConfig post queueBufLen timeout =
     (if post \<and> queueBufLen = 0 then 1024 else queueBufLen, if timeout \<le> 0 then 15000000000 else timeout)"

definition client_post :: "'m sessionEvent \<Rightarrow> 'm Client \<Rightarrow> 'm Client" where
  "client_post e c = (if cl_post c then c\<lparr>cl_ev := cl_ev c @ [e]\<rparr> else c\<lparr>cl_calls := cl_calls c @ [e]\<rparr>)"

definition client_postOpenEvent :: "nat \<Rightarrow> 'm Client \<Rightarrow> 'm Client" where "client_postOpenEvent i = client_post (SessOpen i)"
definition client_postReopenEvent :: "nat \<Rightarrow> 'm Client \<Rightarrow> 'm Client" where "client_postReopenEvent i = client_post (SessReopen i)"
definition client_postCloseEvent :: "nat \<Rightarrow> 'm Client \<Rightarrow> 'm Client" where "client_postCloseEvent i = client_post (SessClose i)"

text \<open>Without an event channel a message is dropped: the call of the handler is commented out.\<close>

definition client_postMsgEvent :: "nat \<Rightarrow> 'm \<Rightarrow> 'm Client \<Rightarrow> 'm Client" where
  "client_postMsgEvent i m c = (if cl_post c then c\<lparr>cl_ev := cl_ev c @ [SessData i m]\<rparr> else c)"

fun client_processLoop :: "nat \<Rightarrow> 'm Client \<Rightarrow> bool \<times> 'm Client" where
  "client_processLoop 0 c = (False, c)"
| "client_processLoop (Suc n) c =
     (case cl_ev c of [] \<Rightarrow> (True, c) | e # es \<Rightarrow> client_processLoop n (c\<lparr>cl_ev := es, cl_calls := cl_calls c @ [e]\<rparr>))"

definition client_ProcessEvent :: "'m Client \<Rightarrow> bool \<times> 'm Client" where
  "client_ProcessEvent c = client_processLoop 1024 c"

definition Client_Close :: "'m Client \<Rightarrow> 'm Client option" where
  "Client_Close c =
     (if cl_destroyed c then Some c
      else do { (_, _, s) \<leftarrow> Session_Close (cl_session c); Some (c\<lparr>cl_session := s, cl_destroyed := True\<rparr>) })"

text \<open>\<open>tcpDialer.connect\<close>: \<open>dial\<close> is the connection or an error, \<open>tls\<close> whether the handshake works,
  \<open>gone1\<close> and \<open>gone2\<close> what the flag \<open>destroyed\<close> is after the dial and after the handshake.\<close>

definition client_bind :: "nat \<Rightarrow> 'm Client \<Rightarrow> bool \<times> 'm Client" where
  "client_bind conn c =
     (case Session_ReBind conn (cl_session c) of
        (Some err, s) \<Rightarrow> (False, c\<lparr>cl_session := s\<rparr>)
      | (None, s) \<Rightarrow> (True, c\<lparr>cl_session := s\<rparr>))"

definition tcp_connect :: "nat option \<Rightarrow> bool \<Rightarrow> bool \<Rightarrow> bool \<Rightarrow> 'm Client \<Rightarrow> bool \<times> 'm Client" where
  "tcp_connect dial tls gone1 gone2 c =
     (if cl_destroyed c then (True, c)
      else case dial of
          None \<Rightarrow> (False, c)
        | Some conn \<Rightarrow>
            let c = c\<lparr>cl_destroyed := gone1\<rparr> in
            if gone1 then (True, c)
            else if cl_secure c \<and> \<not> tls then (False, c)
            else let c = c\<lparr>cl_destroyed := cl_secure c \<and> gone2\<rparr> in
              if cl_destroyed c then (True, c)
              else client_bind conn c)"

text \<open>The dialers of KCP and RDP (\<open>udpclient.go\<close>). That of KCP looks at \<open>destroyed\<close> after the dial only
  when it has made a TLS handshake.\<close>

definition kcp_connect :: "nat option \<Rightarrow> bool \<Rightarrow> bool \<Rightarrow> bool \<Rightarrow> 'm Client \<Rightarrow> bool \<times> 'm Client" where
  "kcp_connect dial tls gone1 gone2 c =
     (if cl_destroyed c then (True, c)
      else case dial of
          None \<Rightarrow> (False, c)
        | Some conn \<Rightarrow>
            let c = c\<lparr>cl_destroyed := gone1\<rparr> in
            if cl_secure c \<and> \<not> tls then (False, c)
            else let c = c\<lparr>cl_destroyed := gone1 \<or> cl_secure c \<and> gone2\<rparr> in
              if cl_secure c \<and> cl_destroyed c then (True, c)
              else client_bind conn c)"

definition rdp_connect :: "nat option \<Rightarrow> bool \<Rightarrow> 'm Client \<Rightarrow> bool \<times> 'm Client" where
  "rdp_connect dial gone1 c =
     (if cl_destroyed c then (True, c)
      else case dial of
          None \<Rightarrow> (False, c)
        | Some conn \<Rightarrow>
            let c = c\<lparr>cl_destroyed := gone1\<rparr> in
            if cl_destroyed c then (True, c) else client_bind conn c)"

definition client_connect :: "nat option \<Rightarrow> bool \<Rightarrow> bool \<Rightarrow> bool \<Rightarrow> 'm Client \<Rightarrow> bool \<times> 'm Client" where
  "client_connect dial tls gone1 gone2 c =
     (case cl_dialer c of
        ProtocolKCP \<Rightarrow> kcp_connect dial tls gone1 gone2 c
      | ProtocolRDP \<Rightarrow> rdp_connect dial gone1 c
      | _ \<Rightarrow> tcp_connect dial tls gone1 gone2 c)"

text \<open>The goroutine \<open>keepConnect\<close> with \<open>serveClient\<close>, one round at a time; the connection is number \<open>i\<close>.\<close>

definition keepConnect_step :: "nat option \<Rightarrow> bool \<Rightarrow> bool \<Rightarrow> bool \<Rightarrow> streamErr + 'm option \<Rightarrow> nat \<Rightarrow> 'm Client \<Rightarrow> 'm Client option" where
  "keepConnect_step dial tls gone1 gone2 inp i c =
     (case cl_at c of
        CConnecting \<Rightarrow>
          let (ok, c) = client_connect dial tls gone1 gone2 c in
          Some (if \<not> ok then c else if cl_destroyed c then c\<lparr>cl_at := CDone\<rparr> else c\<lparr>cl_at := COpening\<rparr>)
      | COpening \<Rightarrow>
          Some (if cl_reopen c then (client_postReopenEvent i c)\<lparr>cl_at := CServing\<rparr>
                else (client_postOpenEvent i c)\<lparr>cl_reopen := True, cl_at := CServing\<rparr>)
      | CServing \<Rightarrow>
          (case Session_Recv inp (cl_session c) of
             Inr None \<Rightarrow> Some c
           | Inr (Some m) \<Rightarrow> Some (client_postMsgEvent i m c)
           | Inl err \<Rightarrow> do { (_, _, s) \<leftarrow> Session_Close (cl_session c); Some (c\<lparr>cl_session := s, cl_at := CEnding\<rparr>) })
      | CEnding \<Rightarrow> Some ((client_postCloseEvent i c)\<lparr>cl_at := CDone\<rparr>)
      | CDone \<Rightarrow> Some c)"

text \<open>\<open>PostDial\<close>: an unknown protocol panics.\<close>

definition Client_PostDial :: "TransmitProto \<Rightarrow> u32 \<Rightarrow> bool \<Rightarrow> bool \<Rightarrow> nat \<Rightarrow> 'm Client option" where
  "Client_PostDial protocol sid post secure userData =
     (if protocol = ProtocolOther then None
      else Some \<lparr>cl_session = (newClientSession sid post)\<lparr>se_userData := userData\<rparr>, cl_post = post, cl_secure = secure, cl_ev = [],
        cl_calls = [], cl_reopen = False, cl_destroyed = False, cl_at = CConnecting,
        cl_dialer = protocol\<rparr>)"

section \<open>Runs of a client\<close>

inductive client_run :: "'m Client \<Rightarrow> bool" where
  cr_new: "Client_PostDial protocol sid post secure userData = Some c \<Longrightarrow> client_run c"
| cr_step: "client_run c \<Longrightarrow> keepConnect_step dial tls gone1 gone2 inp i c = Some c' \<Longrightarrow> client_run c'"
| cr_close: "client_run c \<Longrightarrow> Client_Close c = Some c' \<Longrightarrow> client_run c'"
| cr_process: "client_run c \<Longrightarrow> client_run (snd (client_ProcessEvent c))"

text \<open>The session of a client is bound at most once: before that its signal channel is open, after it
  the stream is gone exactly when the channel is closed.\<close>

definition client_inv :: "'m Client \<Rightarrow> bool" where
  "client_inv c \<longleftrightarrow>
     (if cl_at c = CConnecting \<or> cl_at c = CDone \<and> se_stream (cl_session c) = None \<and> \<not> se_sigClosed (cl_session c)
      then se_stream (cl_session c) = None \<and> \<not> se_sigClosed (cl_session c)
      else se_stream (cl_session c) = None \<longleftrightarrow> se_sigClosed (cl_session c))"

lemma client_Close_session:
  assumes "client_inv c"
  shows "\<exists>x y s. Session_Close (cl_session c) = Some (x, y, s) \<and> se_stream s = None \<and> se_sigClosed s = (se_sigClosed (cl_session c) \<or> se_stream (cl_session c) \<noteq> None)"
  using assms by (cases "se_stream (cl_session c)")
    (auto simp: client_inv_def Session_Close_def Session_destroy_def Let_def split: if_splits)

lemmas connect_defs = client_connect_def tcp_connect_def kcp_connect_def rdp_connect_def client_bind_def Session_ReBind_def

lemma client_connect_inv:
  assumes "cl_at c = CConnecting" "client_inv c" "client_connect dial tls gone1 gone2 c = (ok, c')"
  shows "client_inv (if \<not> ok then c' else if cl_destroyed c' then c'\<lparr>cl_at := CDone\<rparr> else c'\<lparr>cl_at := COpening\<rparr>)"
  using assms by (cases "cl_dialer c")
    (auto simp: connect_defs client_inv_def Let_def split: option.splits if_splits)

lemma keepConnect_inv:
  assumes inv: "client_inv c"
  shows "\<exists>c'. keepConnect_step dial tls gone1 gone2 inp i c = Some c' \<and> client_inv c'"
proof (cases "cl_at c")
  case CConnecting
  then show ?thesis using client_connect_inv [OF CConnecting inv]
    by (auto simp: keepConnect_step_def Let_def split: prod.splits)
next
  case CServing
  obtain x y s where "Session_Close (cl_session c) = Some (x, y, s)" "se_stream s = None"
      "se_sigClosed s = (se_sigClosed (cl_session c) \<or> se_stream (cl_session c) \<noteq> None)"
    using client_Close_session [OF inv] by blast
  then show ?thesis using inv CServing
    by (auto simp: keepConnect_step_def client_inv_def client_postMsgEvent_def split: sum.splits option.splits)
qed (use inv in \<open>auto simp: keepConnect_step_def client_inv_def client_postOpenEvent_def client_postReopenEvent_def
    client_postCloseEvent_def client_post_def\<close>)

lemma Client_Close_inv:
  assumes inv: "client_inv c"
  shows "\<exists>c'. Client_Close c = Some c' \<and> client_inv c' \<and> cl_destroyed c' \<and> (se_stream (cl_session c) \<noteq> None \<longrightarrow> \<not> cl_destroyed c \<longrightarrow> se_stream (cl_session c') = None)"
proof -
  obtain x y s where "Session_Close (cl_session c) = Some (x, y, s)" "se_stream s = None"
      "se_sigClosed s = (se_sigClosed (cl_session c) \<or> se_stream (cl_session c) \<noteq> None)"
    using client_Close_session [OF inv] by blast
  then show ?thesis using inv by (auto simp: Client_Close_def client_inv_def split: if_splits)
qed

lemma client_processLoop_sel: "cl_session (snd (client_processLoop n c)) = cl_session c \<and> cl_at (snd (client_processLoop n c)) = cl_at c"
  by (induction n c rule: client_processLoop.induct) (auto split: list.split)

text \<open>Neither the goroutine of a client nor \<open>Close\<close> ever panics, and \<open>Close\<close> can be called twice.\<close>

lemma client_never_panics:
  assumes "client_run c"
  shows "\<exists>c'. keepConnect_step dial tls gone1 gone2 inp i c = Some c'"
    "\<exists>c'. Client_Close c = Some c' \<and> Client_Close c' = Some c'"
proof -
  have inv: "client_inv c" using assms
  proof (induction rule: client_run.induct)
    case (cr_new protocol sid post secure userData c)
    then show ?case by (auto simp: Client_PostDial_def client_inv_def newClientSession_def newSession_def split: if_splits)
  next
    case (cr_step c dial tls gone1 gone2 inp i c')
    then show ?case using keepConnect_inv [of c dial tls gone1 gone2 inp i] by auto
  next
    case (cr_close c c')
    then show ?case using Client_Close_inv [of c] by auto
  next
    case (cr_process c)
    then show ?case using client_processLoop_sel [of 1024 c] by (auto simp: client_ProcessEvent_def client_inv_def split: if_splits)
  qed
  show "\<exists>c'. keepConnect_step dial tls gone1 gone2 inp i c = Some c'" using keepConnect_inv [OF inv] by blast
  show "\<exists>c'. Client_Close c = Some c' \<and> Client_Close c' = Some c'" using Client_Close_inv [OF inv] by (auto simp: Client_Close_def)
qed

text \<open>A client without an event channel loses every message.\<close>

lemma client_drops_messages:
  assumes "cl_at c = CServing" "se_stream (cl_session c) \<noteq> None" "\<not> cl_post c"
  shows "keepConnect_step dial tls gone1 gone2 (Inr (Some m)) i c = Some c"
  using assms by (auto simp: keepConnect_step_def Session_Recv_def client_postMsgEvent_def)

text \<open>A client on KCP without TLS that is closed while it dials is left with an open connection that
  nobody serves or closes.\<close>

lemma kcp_binds_destroyed:
  assumes "cl_at c = CConnecting" "cl_dialer c = ProtocolKCP" "\<not> cl_secure c" "\<not> cl_destroyed c"
    "se_stream (cl_session c) = None" "\<not> se_sigClosed (cl_session c)"
  shows "\<exists>c'. keepConnect_step (Some conn) tls True gone2 inp i c = Some c' \<and> cl_at c' = CDone \<and>
    cl_destroyed c' \<and> se_stream (cl_session c') = Some conn \<and> Client_Close c' = Some c'"
  using assms by (simp add: keepConnect_step_def connect_defs Let_def Client_Close_def)

end
