(* ===== verification/Servers.thy ===== *)
theory Servers
  imports Session Complex_Main
begin

text \<open>
  The servers around the sessions (\<open>xnet/tcpserver.go\<close>, \<open>udpserver.go\<close>, \<open>rdpserver.go\<close>): setting up, the
  accept loops of the three transports, the goroutine of a connection, and the figures reported about the send channels. An
  accept loop takes the list of what \<open>Accept\<close> returns, with the state of \<open>closeSig\<close> at that time; it
  gives what it does and whether it has returned when the list is used up.
\<close>

section \<open>Setting up\<close>

text \<open>\<open>listening\<close>: whether the listener of the transport could be opened.\<close>

definition newServer :: "bool \<Rightarrow> bool \<Rightarrow> nat \<Rightarrow> u32 \<Rightarrow> 'm server option" where
  "newServer listening post queueBufLen maxSessionNum =
     (if listening then Some (NewTcpServer post queueBufLen maxSessionNum) else None)"

definition NewUDPServer :: "bool \<Rightarrow> bool \<Rightarrow> nat \<Rightarrow> u32 \<Rightarrow> 'm server option" where
  "NewUDPServer listening post queueBufLen maxSessionNum = newServer listening post queueBufLen maxSessionNum"

text \<open>The RDP server also sets the time-out of the listener, which it has just made.\<close>

definition NewRDPServer :: "bool \<Rightarrow> bool \<Rightarrow> nat \<Rightarrow> u32 \<Rightarrow> int \<Rightarrow> (int \<times> 'm server) option" where
  "NewRDPServer listening post queueBufLen maxSessionNum timeout =
     map_option (Pair timeout) (newServer listening post queueBufLen maxSessionNum)"

section \<open>Accept loops\<close>

datatype acceptErr = TempErr | OtherErr
datatype acceptAct = StartHandshake nat | Sleep int

type_synonym acceptInput = "(bool \<times> acceptErr) + nat"

fun serve :: "acceptInput list \<Rightarrow> acceptAct list \<times> bool" where
  "serve [] = ([], False)"
| "serve (Inr conn # inp) = (let (acts, ret) = serve inp in (StartHandshake conn # acts, ret))"
| "serve (Inl (shut, err) # inp) = (if shut then ([], True) else if err = TempErr then serve inp else ([], True))"

definition nextDelay :: "acceptErr \<Rightarrow> int \<Rightarrow> int" where
  "nextDelay err tempDelay =
     (if err = TempErr
      then let tempDelay = if tempDelay = 0 then 5 * 1000000000 else tempDelay * 2 in
        if tempDelay > 1000000000 then 1000000000 else tempDelay
      else tempDelay)"

fun serveUDP :: "int \<Rightarrow> acceptInput list \<Rightarrow> acceptAct list \<times> bool" where
  "serveUDP tempDelay [] = ([], False)"
| "serveUDP tempDelay (Inr conn # inp) = (let (acts, ret) = serveUDP tempDelay inp in (StartHandshake conn # acts, ret))"
| "serveUDP tempDelay (Inl (shut, err) # inp) =
     (if shut then ([], True)
      else let tempDelay = nextDelay err tempDelay; (acts, ret) = serveUDP tempDelay inp in (Sleep tempDelay # acts, ret))"

fun serveRDP :: "acceptInput list \<Rightarrow> acceptAct list \<times> bool" where
  "serveRDP [] = ([], False)"
| "serveRDP (Inr conn # inp) = (let (acts, ret) = serveRDP inp in (StartHandshake conn # acts, ret))"
| "serveRDP (Inl _ # inp) = ([], True)"

text \<open>After the settings of the transport the goroutine of a connection is that of a TCP connection.\<close>

definition handshakeUDP_step :: "streamErr + 'm option \<Rightarrow> nat \<Rightarrow> 'm server \<Rightarrow> 'm server option" where
  "handshakeUDP_step inp i s = serve_step inp i s"

definition handshakeRDP_step :: "streamErr + 'm option \<Rightarrow> nat \<Rightarrow> 'm server \<Rightarrow> 'm server option" where
  "handshakeRDP_step inp i s = serve_step inp i s"

definition conns :: "acceptInput list \<Rightarrow> nat list" where
  "conns inp = List.map_filter (\<lambda>x. case x of Inr c \<Rightarrow> Some c | Inl _ \<Rightarrow> None) inp"

definition handshakes :: "acceptAct list \<Rightarrow> nat list" where
  "handshakes acts = List.map_filter (\<lambda>x. case x of StartHandshake c \<Rightarrow> Some c | Sleep _ \<Rightarrow> None) acts"

lemma conns_simps [simp]: "conns [] = []" "conns (Inr c # inp) = c # conns inp" "conns (Inl e # inp) = conns inp"
  by (simp_all add: conns_def map_filter_simps)

lemma handshakes_simps [simp]: "handshakes [] = []" "handshakes (StartHandshake c # as) = c # handshakes as" "handshakes (Sleep t # as) = handshakes as"
  by (simp_all add: handshakes_def map_filter_simps)

section \<open>What the loops do\<close>

text \<open>Each loop starts a handshake for every connection, in order, up to the error that ends it: for TCP
  the first that is not temporary or comes after the closing, for RDP any error, for UDP only an error
  after the closing.\<close>

lemma serve_handshakes:
  "handshakes (fst (serve inp)) = conns (takeWhile (\<lambda>x. case x of Inr _ \<Rightarrow> True | Inl (shut, err) \<Rightarrow> \<not> shut \<and> err = TempErr) inp) \<and>
   (snd (serve inp) \<longleftrightarrow> (\<exists>shut err. Inl (shut, err) \<in> set inp \<and> (shut \<or> err \<noteq> TempErr)))"
  by (induction inp rule: serve.induct) (auto split: prod.splits)

lemma serveRDP_handshakes:
  "handshakes (fst (serveRDP inp)) = conns (takeWhile (\<lambda>x. case x of Inr _ \<Rightarrow> True | Inl _ \<Rightarrow> False) inp) \<and>
   (snd (serveRDP inp) \<longleftrightarrow> (\<exists>e. Inl e \<in> set inp))"
  by (induction inp rule: serveRDP.induct) (auto split: prod.splits)

lemma serveUDP_handshakes:
  "handshakes (fst (serveUDP t inp)) = conns (takeWhile (\<lambda>x. case x of Inr _ \<Rightarrow> True | Inl (shut, _) \<Rightarrow> \<not> shut) inp) \<and>
   (snd (serveUDP t inp) \<longleftrightarrow> (\<exists>err. Inl (True, err) \<in> set inp))"
  by (induction t inp rule: serveUDP.induct) (auto simp: Let_def split: prod.splits)

text \<open>The delay after a temporary error is a whole second from the first one on; the doubling from a
  small value never takes place.\<close>

lemma serveUDP_delays:
  "t \<in> {0, 1000000000} \<Longrightarrow> Sleep z \<in> set (fst (serveUDP t inp)) \<Longrightarrow> z \<in> {0, 1000000000}"
proof (induction t inp rule: serveUDP.induct)
  case (3 t shut err inp)
  have "nextDelay err t \<in> {0, 1000000000}" using 3(2) by (auto simp: nextDelay_def Let_def)
  with 3 show ?case by (cases shut) (auto simp: Let_def split: prod.splits)
qed (auto split: prod.splits)

text \<open>An error that is not temporary does not end the UDP loop, and it does not even slow it down.\<close>

lemma serveUDP_spins: "serveUDP 0 (replicate n (Inl (False, OtherErr))) = (replicate n (Sleep 0), False)"
  by (induction n) (simp_all add: nextDelay_def)

section \<open>Figures about the send channels\<close>

text \<open>\<open>SessionMetric.Pull\<close>: the lengths of the send channels in the order of the visit, \<open>None\<close> for a
  session without one. Numbers are exact.\<close>

record SessionMetric =
  mt_max :: real
  mt_min :: real
  mt_avg :: real

definition pullOne :: "nat option \<Rightarrow> SessionMetric \<Rightarrow> SessionMetric" where
  "pullOne len m =
     (case len of None \<Rightarrow> m
      | Some n \<Rightarrow>
          let m = if mt_max m < real n then m\<lparr>mt_max := real n\<rparr> else m;
              m = if mt_min m = 0 \<or> mt_min m > real n then m\<lparr>mt_min := real n\<rparr> else m in
          m\<lparr>mt_avg := mt_avg m + real n\<rparr>)"

definition SessionMetric_Pull :: "nat \<Rightarrow> nat option list \<Rightarrow> SessionMetric" where
  "SessionMetric_Pull sessionNum lens =
     (let m = fold pullOne lens \<lparr>mt_max = 0, mt_min = 0, mt_avg = 0\<rparr> in
      if 0 < sessionNum then m\<lparr>mt_avg := mt_avg m / real sessionNum\<rparr> else m)"

lemma pull_max:
  "mt_max (fold pullOne lens m) = fold max (map real (List.map_filter id lens)) (mt_max m)"
  by (induction lens arbitrary: m) (auto simp: pullOne_def Let_def map_filter_simps max_def split: option.splits)

lemma pull_sum: "mt_avg (fold pullOne lens m) = mt_avg m + (\<Sum>n\<leftarrow>List.map_filter id lens. real n)"
  by (induction lens arbitrary: m) (auto simp: pullOne_def Let_def map_filter_simps split: option.splits)

text \<open>The average over the sessions and the maximum are right.\<close>

lemma Pull_max_avg:
  assumes "0 < length lens"
  shows "mt_max (SessionMetric_Pull (length lens) (map Some lens)) = real (Max (set lens)) \<and>
    mt_avg (SessionMetric_Pull (length lens) (map Some lens)) = real (sum_list lens) / real (length lens)"
proof -
  have m: "List.map_filter id (map Some lens) = lens" by (induction lens) (simp_all add: map_filter_simps)
  have f: "fold max (map real xs) (real a) = real (fold max xs a)" for xs a
    by (induction xs arbitrary: a) (simp_all add: max_def)
  have "fold max lens 0 = Max (set (0 # lens))" by (simp add: Max.set_eq_fold del: list.set)
  also have "\<dots> = Max (set lens)" using assms by (cases "lens = []") auto
  finally have "fold max lens 0 = Max (set lens)" .
  then show ?thesis using assms f [of lens 0]
    by (simp add: SessionMetric_Pull_def Let_def pull_max pull_sum m sum_list_of_nat)
qed

text \<open>The minimum is not: an empty channel is forgotten when the next one is visited.\<close>

lemma Pull_min_wrong: "mt_min (SessionMetric_Pull 2 [Some 0, Some 5]) = 5"
  by (simp add: SessionMetric_Pull_def pullOne_def)

end
