(* ===== verification/Job.thy ===== *)
theory Job
  imports Channels "HOL-Library.Multiset"
begin

text \<open>
  The job controller (\<open>xcontainer/job/controller.go\<close>): the main thread posts jobs into an unbounded
  channel, worker goroutines do them and put the results into a bounded channel, from which the main
  thread calls them back. A worker is a state machine between its channel operations. What a job
  gives is a parameter, \<open>None\<close> for nil. \<open>None\<close> of a step is a panic.
\<close>

datatype ('j, 'd) worker = WIdle | WBusy 'j | WDone 'd | WEnded

record ('j, 'd) JobController =
  jc_jobChan :: "'j SliceChan"
  jc_doneChan :: "'d list"
  jc_bufLen :: nat
  jc_jobNum :: int
  jc_work :: "('j, 'd) worker list" \<comment> \<open>the goroutines\<close>
  jc_posted :: "'j list" \<comment> \<open>the jobs posted\<close>
  jc_returned :: "'d list" \<comment> \<open>the calls of \<open>DoReturn\<close>\<close>

definition NewController :: "nat \<Rightarrow> nat \<Rightarrow> ('j, 'd) JobController" where
  "NewController bufLen goNum = \<lparr>jc_jobChan = SliceChan_Init bufLen, jc_doneChan = [], jc_bufLen = bufLen, jc_jobNum = 0,
     jc_work = replicate goNum WIdle, jc_posted = [], jc_returned = []\<rparr>"

definition setWork :: "nat \<Rightarrow> ('j, 'd) worker \<Rightarrow> ('j, 'd) JobController \<Rightarrow> ('j, 'd) JobController" where
  "setWork i w c = c\<lparr>jc_work := (jc_work c)[i := w]\<rparr>"

text \<open>A round of worker \<open>i\<close>; a round that has to wait changes nothing.\<close>

definition doJob_step :: "('j \<Rightarrow> 'd option) \<Rightarrow> nat \<Rightarrow> ('j, 'd) JobController \<Rightarrow> ('j, 'd) JobController option" where
  "doJob_step DoJob i c =
     (case jc_work c ! i of
        WIdle \<Rightarrow> do {
          r \<leftarrow> SliceChan_Read (jc_jobChan c);
          (case r of
             None \<Rightarrow> Some c
           | Some (None, ch) \<Rightarrow> Some (setWork i WEnded (c\<lparr>jc_jobChan := ch\<rparr>))
           | Some (Some None, ch) \<Rightarrow> None
           | Some (Some (Some job), ch) \<Rightarrow> Some (setWork i (WBusy job) (c\<lparr>jc_jobChan := ch\<rparr>))) }
      | WBusy job \<Rightarrow> Some (setWork i (case DoJob job of None \<Rightarrow> WIdle | Some d \<Rightarrow> WDone d) c)
      | WDone d \<Rightarrow>
          if length (jc_doneChan c) < jc_bufLen c
          then Some (setWork i WIdle (c\<lparr>jc_doneChan := jc_doneChan c @ [d]\<rparr>))
          else Some c
      | WEnded \<Rightarrow> Some c)"

definition Stop :: "('j, 'd) JobController \<Rightarrow> ('j, 'd) JobController" where
  "Stop c = c\<lparr>jc_jobChan := SliceChan_Close (jc_jobChan c)\<rparr>"

definition PostJob :: "'j \<Rightarrow> ('j, 'd) JobController \<Rightarrow> ('j, 'd) JobController option" where
  "PostJob job c = do {
     ch \<leftarrow> SliceChan_Write (jc_jobChan c) (Some job);
     Some (c\<lparr>jc_jobChan := ch, jc_jobNum := jc_jobNum c + 1, jc_posted := jc_posted c @ [job]\<rparr>) }"

definition takeDone :: "'d \<Rightarrow> 'd list \<Rightarrow> ('j, 'd) JobController \<Rightarrow> ('j, 'd) JobController" where
  "takeDone d ds c = c\<lparr>jc_doneChan := ds, jc_jobNum := jc_jobNum c - 1, jc_returned := jc_returned c @ [d]\<rparr>"

fun returnLoop :: "nat \<Rightarrow> ('j, 'd) JobController \<Rightarrow> ('j, 'd) JobController" where
  "returnLoop 0 c = c"
| "returnLoop (Suc n) c = (case jc_doneChan c of [] \<Rightarrow> c | d # ds \<Rightarrow> returnLoop n (takeDone d ds c))"

definition ProcessReturn :: "('j, 'd) JobController \<Rightarrow> ('j, 'd) JobController" where
  "ProcessReturn c = returnLoop 25 c"

text \<open>A round of \<open>ProcessWaitReturn\<close>: it is over, it waits, or it takes a result.\<close>

definition waitReturn_step :: "('j, 'd) JobController \<Rightarrow> bool \<times> ('j, 'd) JobController" where
  "waitReturn_step c =
     (if jc_jobNum c > 0 then (case jc_doneChan c of [] \<Rightarrow> (False, c) | d # ds \<Rightarrow> (False, takeDone d ds c)) else (True, c))"

definition GetJobNum :: "('j, 'd) JobController \<Rightarrow> int" where
  "GetJobNum c = jc_jobNum c"

section \<open>Runs\<close>

inductive job_run :: "('j \<Rightarrow> 'd option) \<Rightarrow> ('j, 'd) JobController \<Rightarrow> bool" for DoJob where
  jr_new: "0 < bufLen \<Longrightarrow> job_run DoJob (NewController bufLen goNum)"
| jr_post: "job_run DoJob c \<Longrightarrow> PostJob job c = Some c' \<Longrightarrow> job_run DoJob c'"
| jr_work: "job_run DoJob c \<Longrightarrow> i < length (jc_work c) \<Longrightarrow> doJob_step DoJob i c = Some c' \<Longrightarrow> job_run DoJob c'"
| jr_return: "job_run DoJob c \<Longrightarrow> job_run DoJob (ProcessReturn c)"
| jr_wait: "job_run DoJob c \<Longrightarrow> job_run DoJob (snd (waitReturn_step c))"
| jr_stop: "job_run DoJob c \<Longrightarrow> job_run DoJob (Stop c)"

text \<open>The results of a list of jobs, and what a worker still owes.\<close>

definition results :: "('j \<Rightarrow> 'd option) \<Rightarrow> 'j list \<Rightarrow> 'd multiset" where
  "results DoJob js = mset (List.map_filter DoJob js)"

definition owes :: "('j \<Rightarrow> 'd option) \<Rightarrow> ('j, 'd) worker \<Rightarrow> 'd multiset" where
  "owes DoJob w = (case w of WBusy j \<Rightarrow> results DoJob [j] | WDone d \<Rightarrow> {#d#} | _ \<Rightarrow> {#})"

definition queued :: "('j, 'd) JobController \<Rightarrow> 'j list" where
  "queued c = map the (SliceChan_list (jc_jobChan c))"

definition job_inv :: "('j \<Rightarrow> 'd option) \<Rightarrow> ('j, 'd) JobController \<Rightarrow> bool" where
  "job_inv DoJob c \<longleftrightarrow> SliceChan_inv (jc_jobChan c) \<and> None \<notin> set (SliceChan_list (jc_jobChan c)) \<and>
     jc_jobNum c = int (length (jc_posted c)) - int (length (jc_returned c)) \<and>
     results DoJob (jc_posted c) =
       results DoJob (queued c) + sum_list (map (owes DoJob) (jc_work c)) + mset (jc_doneChan c) + mset (jc_returned c)"

lemma results_simps [simp]: "results f [] = {#}" "results f (js @ ks) = results f js + results f ks"
  "results f (j # js) = (case f j of None \<Rightarrow> {#} | Some d \<Rightarrow> {#d#}) + results f js"
  by (simp_all add: results_def map_filter_def split: option.split)

lemma sum_owes_update:
  assumes "i < length ws"
  shows "sum_list (map (owes f) (ws[i := w])) + owes f (ws ! i) = sum_list (map (owes f) ws) + owes f w"
  using assms by (induction ws arbitrary: i) (auto simp: nth_Cons ac_simps split: nat.splits)

lemma job_invD:
  assumes "job_inv f c"
  shows "SliceChan_inv (jc_jobChan c)" "None \<notin> set (SliceChan_list (jc_jobChan c))"
    "jc_jobNum c = int (length (jc_posted c)) - int (length (jc_returned c))"
    "results f (jc_posted c) = results f (queued c) + sum_list (map (owes f) (jc_work c)) + mset (jc_doneChan c) + mset (jc_returned c)"
  using assms by (simp_all add: job_inv_def)

lemma job_inv_worker:
  assumes inv: "job_inv f c" and i: "i < length (jc_work c)" and ch: "SliceChan_inv ch" "None \<notin> set (SliceChan_list ch)"
    and bal: "results f (map the (SliceChan_list ch)) + owes f w + mset ds = results f (queued c) + owes f (jc_work c ! i) + mset (jc_doneChan c)"
  shows "job_inv f (setWork i w (c\<lparr>jc_jobChan := ch, jc_doneChan := ds\<rparr>))"
proof -
  let ?W = "sum_list (map (owes f) (jc_work c))" and ?W' = "sum_list (map (owes f) ((jc_work c)[i := w]))"
  have "results f (queued c) + ?W + mset (jc_doneChan c) + owes f w = results f (queued c) + mset (jc_doneChan c) + (?W + owes f w)"
    by (simp only: ac_simps)
  also have "\<dots> = (results f (queued c) + owes f (jc_work c ! i) + mset (jc_doneChan c)) + ?W'"
    unfolding sum_owes_update [OF i, symmetric] by (simp only: ac_simps)
  also have "\<dots> = results f (map the (SliceChan_list ch)) + ?W' + mset ds + owes f w" unfolding bal [symmetric] by (simp only: ac_simps)
  finally have "results f (queued c) + ?W + mset (jc_doneChan c) = results f (map the (SliceChan_list ch)) + ?W' + mset ds" by simp
  then show ?thesis using job_invD(3,4) [OF inv] ch by (simp add: job_inv_def setWork_def queued_def)
qed

lemma doJob_step_inv:
  assumes inv: "job_inv f c" and i: "i < length (jc_work c)"
  shows "\<exists>c'. doJob_step f i c = Some c' \<and> job_inv f c'"
proof (cases "jc_work c ! i")
  case WIdle
  let ?l = "SliceChan_list (jc_jobChan c)"
  note I = job_invD [OF inv]
  show ?thesis
  proof (cases "sl_closed (jc_jobChan c)")
    case True
    have "job_inv f (setWork i WEnded (c\<lparr>jc_jobChan := jc_jobChan c, jc_doneChan := jc_doneChan c\<rparr>))"
      by (rule job_inv_worker [OF inv i]) (use I WIdle in \<open>simp_all add: owes_def queued_def\<close>)
    then show ?thesis using WIdle True by (simp add: doJob_step_def SliceChan_Read_def)
  next
    case False
    obtain ch where ch: "SliceChan_TryRead (jc_jobChan c) = Some (if ?l = [] then None else Some (hd ?l), ch)" "SliceChan_inv ch"
      "SliceChan_list ch = tl ?l" using slicechan.try_open [OF I(1) False] by blast
    show ?thesis
    proof (cases ?l)
      case Nil
      then show ?thesis using WIdle False inv by (simp add: doJob_step_def SliceChan_Read_TryRead)
    next
      case (Cons e es)
      then obtain j where e: "e = Some j" using I(2) by (cases e) auto
      have "job_inv f (setWork i (WBusy j) (c\<lparr>jc_jobChan := ch, jc_doneChan := jc_doneChan c\<rparr>))"
        by (rule job_inv_worker [OF inv i ch(2)]) (use I(2) ch(3) Cons e WIdle in \<open>auto simp: owes_def queued_def ac_simps\<close>)
      then show ?thesis using WIdle False Cons e ch(1) by (simp add: doJob_step_def SliceChan_Read_TryRead)
    qed
  qed
next
  case (WBusy j)
  have "job_inv f (setWork i (case f j of None \<Rightarrow> WIdle | Some d \<Rightarrow> WDone d) (c\<lparr>jc_jobChan := jc_jobChan c, jc_doneChan := jc_doneChan c\<rparr>))"
    by (rule job_inv_worker [OF inv i]) (use job_invD [OF inv] WBusy in \<open>simp_all add: owes_def queued_def split: option.split\<close>)
  then show ?thesis using WBusy by (simp add: doJob_step_def)
next
  case (WDone d)
  have "job_inv f (setWork i WIdle (c\<lparr>jc_jobChan := jc_jobChan c, jc_doneChan := jc_doneChan c @ [d]\<rparr>))"
    by (rule job_inv_worker [OF inv i]) (use job_invD [OF inv] WDone in \<open>simp_all add: owes_def queued_def ac_simps\<close>)
  then show ?thesis using WDone inv by (simp add: doJob_step_def)
next
  case WEnded
  then show ?thesis using inv by (simp add: doJob_step_def)
qed

lemma takeDone_inv: "job_inv f c \<Longrightarrow> jc_doneChan c = d # ds \<Longrightarrow> job_inv f (takeDone d ds c)"
  by (simp add: job_inv_def takeDone_def queued_def)

lemma returnLoop_inv: "job_inv f c \<Longrightarrow> job_inv f (returnLoop n c)"
  by (induction n c rule: returnLoop.induct) (auto split: list.split intro: takeDone_inv)

lemma PostJob_inv:
  assumes inv: "job_inv f c" and s: "PostJob j c = Some c'"
  shows "job_inv f c'"
proof -
  have open': "\<not> sl_closed (jc_jobChan c)" using s by (auto simp: PostJob_def SliceChan_Write_def)
  obtain ch where "SliceChan_Write (jc_jobChan c) (Some j) = Some ch" "SliceChan_inv ch" "SliceChan_list ch = SliceChan_list (jc_jobChan c) @ [Some j]"
    using slicechan.write_open [OF job_invD(1) [OF inv] open'] by blast
  then show ?thesis using s job_invD [OF inv] by (auto simp: PostJob_def job_inv_def queued_def ac_simps)
qed

lemma job_run_inv: "job_run f c \<Longrightarrow> job_inv f c"
proof (induction rule: job_run.induct)
  case (jr_new bufLen goNum)
  have "sum_list (map (owes f) (replicate goNum WIdle)) = {#}" by (induction goNum) (simp_all add: owes_def)
  then show ?case using jr_new
    by (simp add: Queue_inv_NewWithSize job_inv_def NewController_def SliceChan_inv_def SliceChan_list_def SliceChan_Init_def queued_def)
next
  case (jr_wait c)
  then show ?case by (auto simp: waitReturn_step_def split: list.split intro: takeDone_inv)
next
  case (jr_stop c)
  then show ?case by (simp add: job_inv_def Stop_def SliceChan_Close_def SliceChan_inv_def SliceChan_list_def queued_def)
qed (auto simp: ProcessReturn_def intro: returnLoop_inv PostJob_inv dest: doJob_step_inv)

lemma size_results: "size (results f js) + length (filter (\<lambda>j. f j = None) js) = length js"
  by (induction js) (auto split: option.split)

lemma results_total: "(\<And>j. f j \<noteq> None) \<Longrightarrow> results f js = image_mset (\<lambda>j. the (f j)) (mset js)"
  by (induction js) (auto split: option.split)

text \<open>C40: the results of the jobs posted are, as a multiset, those of the jobs still queued, those the
  workers hold, those waiting for the main thread and those returned: no result is lost or returned
  twice, however the workers and the main thread interleave, and no worker panics. The job number
  counts the jobs posted and not returned; when every job has a result and it is zero, exactly the
  results of all jobs have been returned.\<close>

theorem job_exactly_once:
  assumes "job_run DoJob c"
  shows "results DoJob (jc_posted c) =
      results DoJob (queued c) + sum_list (map (owes DoJob) (jc_work c)) + mset (jc_doneChan c) + mset (jc_returned c) \<and>
    GetJobNum c = int (length (jc_posted c)) - int (length (jc_returned c)) \<and>
    (\<forall>i < length (jc_work c). \<exists>c'. doJob_step DoJob i c = Some c') \<and>
    ((\<forall>j. DoJob j \<noteq> None) \<and> GetJobNum c = 0 \<longrightarrow> mset (jc_returned c) = image_mset (\<lambda>j. the (DoJob j)) (mset (jc_posted c)))"
proof -
  note I = job_invD [OF job_run_inv [OF assms]]
  have "mset (jc_returned c) = image_mset (\<lambda>j. the (DoJob j)) (mset (jc_posted c))" if t: "\<And>j. DoJob j \<noteq> None" and z: "jc_jobNum c = 0"
  proof -
    have "mset (jc_returned c) \<subseteq># results DoJob (jc_posted c)" unfolding I(4) by simp
    moreover have "size (results DoJob (jc_posted c)) = size (mset (jc_returned c))"
      using size_results [of DoJob "jc_posted c"] t I(3) z by simp
    ultimately have "mset (jc_returned c) = results DoJob (jc_posted c)" by (metis mset_subset_size nless_le subset_mset.le_imp_less_or_eq)
    then show ?thesis using results_total [OF t] by simp
  qed
  then show ?thesis using I(3,4) doJob_step_inv [OF job_run_inv [OF assms]] unfolding GetJobNum_def by blast
qed

definition demo_jobs :: "(nat, nat) JobController" where
  "demo_jobs = (case PostJob 4 (NewController 8 1) of None \<Rightarrow> NewController 8 1
     | Some c \<Rightarrow> (case doJob_step Some 0 c of None \<Rightarrow> c
     | Some c \<Rightarrow> (case doJob_step Some 0 c of None \<Rightarrow> c
     | Some c \<Rightarrow> (case doJob_step Some 0 c of None \<Rightarrow> c | Some c \<Rightarrow> ProcessReturn c))))"

lemma demo_jobs_eq: "jc_posted demo_jobs = [4]" "jc_jobNum demo_jobs = 0"
  by code_simp+

lemma demo_jobs_run: "job_run Some demo_jobs"
proof -
  have n: "job_run Some (NewController 8 1 :: (nat, nat) JobController)" by (rule jr_new) simp
  obtain c1 where c1: "PostJob 4 (NewController 8 1 :: (nat, nat) JobController) = Some c1"
    using slicechan.write_open [of "SliceChan_Init 8 :: nat SliceChan" "Some 4"]
    by (auto simp: Queue_inv_NewWithSize(1) PostJob_def NewController_def SliceChan_inv_def SliceChan_Init_def)
  have len: "length (jc_work c') = length (jc_work c)" if "doJob_step Some i c = Some c'" for i and c c' :: "(nat, nat) JobController"
    using that by (auto simp: doJob_step_def setWork_def split: worker.splits option.splits if_splits bind_splits)
  have step: "\<exists>c'. doJob_step Some 0 c = Some c' \<and> job_run Some c' \<and> length (jc_work c') = 1"
    if "job_run Some c" "length (jc_work c) = 1" for c :: "(nat, nat) JobController"
    using doJob_step_inv [OF job_run_inv [OF that(1)], of 0] jr_work [OF that(1), of 0] len that(2) by auto
  have 1: "job_run Some c1" "length (jc_work c1) = 1" using jr_post [OF n c1] c1 by (auto simp: PostJob_def NewController_def split: bind_splits)
  obtain c2 where c2: "doJob_step Some 0 c1 = Some c2" "job_run Some c2" "length (jc_work c2) = 1" using step [OF 1] by blast
  obtain c3 where c3: "doJob_step Some 0 c2 = Some c3" "job_run Some c3" "length (jc_work c3) = 1" using step [OF c2(2,3)] by blast
  obtain c4 where c4: "doJob_step Some 0 c3 = Some c4" "job_run Some c4" using step [OF c3(2,3)] by blast
  have "demo_jobs = ProcessReturn c4" using c1 c2(1) c3(1) c4(1) by (simp add: demo_jobs_def)
  then show ?thesis using jr_return [OF c4(2)] by simp
qed

theorem job_exactly_once_witness: "mset (jc_returned demo_jobs) = {#4#}"
  using job_exactly_once [OF demo_jobs_run, THEN conjunct2, THEN conjunct2, THEN conjunct2]
  by (simp add: demo_jobs_eq GetJobNum_def)

text \<open>A job without a result is never counted down: waiting for the returns does not end.\<close>

lemma job_nil_leaks:
  assumes "job_run DoJob c" "j \<in> set (jc_posted c)" "DoJob j = None"
  shows "GetJobNum c > 0"
proof -
  note I = job_invD [OF job_run_inv [OF assms(1)]]
  have "filter (\<lambda>j. DoJob j = None) (jc_posted c) \<noteq> []" using assms(2,3) by (auto simp: filter_empty_conv)
  then have "size (results DoJob (jc_posted c)) < length (jc_posted c)" using size_results [of DoJob "jc_posted c"] by (cases "filter (\<lambda>j. DoJob j = None) (jc_posted c)") auto
  moreover have "length (jc_returned c) \<le> size (results DoJob (jc_posted c))" unfolding I(4) by simp
  ultimately show ?thesis using I(3) by (simp add: GetJobNum_def)
qed

end
