(* ===== verification/App.thy ===== *)
theory App
  imports Prelude
begin

text \<open>
  The frame of a server process: the module tables (\<open>xmodule/dynamic.go\<close>, \<open>static.go\<close>) and the main
  loop with its frame rate, its clock and the commands that arrive over HTTP
  (\<open>xutil/application.go\<close>). A module is known by its address; the calls of its methods are recorded,
  and what \<open>Init\<close> and \<open>Load\<close> answer is a parameter. Times are integers in nanoseconds. \<open>None\<close> is a panic.
\<close>

section \<open>Dynamic modules\<close>

record implDmodule =
  im_module :: "nat option"
  im_tickUseTime :: int
  im_tickTimeTotal :: int
  im_moduleName :: string

type_synonym DModuleMgr = "implDmodule list"

datatype modCall = CallInit nat int | CallRun nat int | CallDestroy nat | CallLoad nat | CallReload nat

definition NewDModuleMgr :: "nat \<Rightarrow> DModuleMgr" where
  "NewDModuleMgr num = replicate num \<lparr>im_module = None, im_tickUseTime = 0, im_tickTimeTotal = 0, im_moduleName = []\<rparr>"

definition inRange :: "int \<Rightarrow> 'a list \<Rightarrow> bool" where
  "inRange i xs \<longleftrightarrow> 0 \<le> i \<and> i < int (length xs)"

definition DModule_Get :: "DModuleMgr \<Rightarrow> int \<Rightarrow> nat option option" where
  "DModule_Get mgr i = (if inRange i mgr then Some (im_module (mgr ! nat i)) else None)"

definition moduleName :: "string \<Rightarrow> string" where
  "moduleName t = ''module'' @ map (\<lambda>c. if c = CHR ''*'' \<or> c = CHR ''.'' then CHR ''_'' else c) t"

definition DModule_Register :: "int \<Rightarrow> nat \<Rightarrow> string \<Rightarrow> DModuleMgr \<Rightarrow> DModuleMgr option" where
  "DModule_Register i m typeName mgr =
     (if inRange i mgr
      then Some (mgr[nat i := (mgr ! nat i)\<lparr>im_module := Some m, im_moduleName := moduleName typeName\<rparr>])
      else None)"

text \<open>The calls a manager makes, with its answer; \<open>ok\<close> is what \<open>Init\<close> of a module returns.\<close>

definition DModule_Init :: "(nat \<Rightarrow> bool) \<Rightarrow> int \<Rightarrow> DModuleMgr \<Rightarrow> (bool \<times> modCall list) option" where
  "DModule_Init ok i mgr =
     (if \<not> inRange i mgr then Some (False, [])
      else case im_module (mgr ! nat i) of None \<Rightarrow> None | Some m \<Rightarrow> Some (ok m, [CallInit m i]))"

fun initAllFrom :: "(nat \<Rightarrow> bool) \<Rightarrow> int \<Rightarrow> DModuleMgr \<Rightarrow> bool \<times> modCall list" where
  "initAllFrom ok n [] = (True, [])"
| "initAllFrom ok n (d # ds) =
     (case im_module d of
        None \<Rightarrow> initAllFrom ok (n + 1) ds
      | Some m \<Rightarrow> if \<not> ok m then (False, [CallInit m n])
                  else let (r, cs) = initAllFrom ok (n + 1) ds in (r, CallInit m n # cs))"

definition DModule_InitAll :: "(nat \<Rightarrow> bool) \<Rightarrow> DModuleMgr \<Rightarrow> bool \<times> modCall list" where
  "DModule_InitAll ok mgr = initAllFrom ok 0 mgr"

definition DModule_Destroy :: "int \<Rightarrow> DModuleMgr \<Rightarrow> modCall list option" where
  "DModule_Destroy i mgr =
     (if \<not> inRange i mgr then Some []
      else case im_module (mgr ! nat i) of None \<Rightarrow> None | Some m \<Rightarrow> Some [CallDestroy m])"

definition DModule_DestroyAll :: "DModuleMgr \<Rightarrow> modCall list" where
  "DModule_DestroyAll mgr = map CallDestroy (List.map_filter im_module mgr)"

text \<open>One run of a module; \<open>cost\<close> is the time its \<open>Run\<close> takes.\<close>

definition moduleRunOnce :: "(nat \<Rightarrow> int) \<Rightarrow> int \<Rightarrow> implDmodule \<Rightarrow> modCall list \<times> implDmodule" where
  "moduleRunOnce cost delta m =
     (case im_module m of
        None \<Rightarrow> ([], m)
      | Some a \<Rightarrow> ([CallRun a delta], m\<lparr>im_tickUseTime := cost a, im_tickTimeTotal := im_tickTimeTotal m + cost a\<rparr>))"

definition DModule_Run :: "(nat \<Rightarrow> int) \<Rightarrow> int \<Rightarrow> int \<Rightarrow> DModuleMgr \<Rightarrow> modCall list \<times> DModuleMgr" where
  "DModule_Run cost i delta mgr =
     (if \<not> inRange i mgr then ([], mgr)
      else let (cs, m) = moduleRunOnce cost delta (mgr ! nat i) in (cs, mgr[nat i := m]))"

fun DModule_RunAll :: "(nat \<Rightarrow> int) \<Rightarrow> int \<Rightarrow> DModuleMgr \<Rightarrow> modCall list \<times> DModuleMgr" where
  "DModule_RunAll cost delta [] = ([], [])"
| "DModule_RunAll cost delta (m # ms) =
     (let (cs, m') = moduleRunOnce cost delta m; (cs', ms') = DModule_RunAll cost delta ms in (cs @ cs', m' # ms'))"

definition ForEachModuleMetric :: "DModuleMgr \<Rightarrow> (string \<times> int \<times> int) list" where
  "ForEachModuleMetric mgr =
     map (\<lambda>m. (im_moduleName m, im_tickUseTime m, im_tickTimeTotal m)) (filter (\<lambda>m. im_module m \<noteq> None) mgr)"

section \<open>Static modules\<close>

type_synonym SModuleMgr = "nat option list"

definition NewSModuleMgr :: "nat \<Rightarrow> SModuleMgr" where
  "NewSModuleMgr num = replicate num None"

definition SModule_Register :: "int \<Rightarrow> nat \<Rightarrow> SModuleMgr \<Rightarrow> SModuleMgr option" where
  "SModule_Register i m mgr = (if inRange i mgr then Some (mgr[nat i := Some m]) else None)"

definition SModule_Get :: "SModuleMgr \<Rightarrow> int \<Rightarrow> nat option option" where
  "SModule_Get mgr i = (if inRange i mgr then Some (mgr ! nat i) else None)"

fun SModule_Load :: "(nat \<Rightarrow> bool) \<Rightarrow> SModuleMgr \<Rightarrow> bool \<times> modCall list" where
  "SModule_Load ok [] = (True, [])"
| "SModule_Load ok (None # ms) = SModule_Load ok ms"
| "SModule_Load ok (Some m # ms) =
     (if \<not> ok m then (False, [CallLoad m]) else let (r, cs) = SModule_Load ok ms in (r, CallLoad m # cs))"

text \<open>\<open>Destroy\<close> does not test for empty slots.\<close>

fun SModule_Destroy :: "SModuleMgr \<Rightarrow> modCall list option" where
  "SModule_Destroy [] = Some []"
| "SModule_Destroy (None # ms) = None"
| "SModule_Destroy (Some m # ms) = map_option ((#) (CallDestroy m)) (SModule_Destroy ms)"

definition SModule_Reload :: "int \<Rightarrow> SModuleMgr \<Rightarrow> (bool \<times> modCall list) option" where
  "SModule_Reload i mgr =
     (if \<not> inRange i mgr then None
      else Some (case mgr ! nat i of None \<Rightarrow> (False, []) | Some m \<Rightarrow> (True, [CallReload m])))"

section \<open>The main loop\<close>

record Application =
  ap_exit :: bool
  ap_fps :: int
  ap_FrameNum :: int
  ap_FrameTime :: int
  ap_FrameNowTime :: int
  ap_FrameOvertimeUse :: int
  ap_invokeFunc :: bool \<comment> \<open>whether one is set\<close>
  ap_invokeOnMain :: bool \<comment> \<open>a signal is in the channel of capacity one\<close>

definition newApplication :: Application where
  "newApplication = \<lparr>ap_exit = False, ap_fps = 0, ap_FrameNum = 0, ap_FrameTime = 0, ap_FrameNowTime = 0,
     ap_FrameOvertimeUse = 0, ap_invokeFunc = False, ap_invokeOnMain = False\<rparr>"

definition SetFPS :: "int \<Rightarrow> Application \<Rightarrow> Application" where
  "SetFPS needFps a = a\<lparr>ap_fps := (if needFps \<le> 0 \<or> needFps > 1000 then 1000 else needFps)\<rparr>"

definition SetEvenDriverMode :: "Application \<Rightarrow> Application option" where
  "SetEvenDriverMode a = (if ap_FrameNum a > 0 then None else Some (a\<lparr>ap_invokeFunc := True\<rparr>))"

definition IsEvenDriverMode :: "Application \<Rightarrow> bool" where
  "IsEvenDriverMode a = ap_invokeFunc a"

definition InvokeFuncOnMain :: "Application \<Rightarrow> Application option" where
  "InvokeFuncOnMain a = (if \<not> IsEvenDriverMode a then None else Some (a\<lparr>ap_invokeOnMain := True\<rparr>))"

definition App_Exit :: "Application \<Rightarrow> Application" where
  "App_Exit a = a\<lparr>ap_exit := True\<rparr>"

definition TickTotal :: "Application \<Rightarrow> int" where
  "TickTotal a = ap_FrameNum a"

text \<open>The length of a frame: a frame rate of zero divides by zero, a length that is not positive makes
  \<open>time.NewTicker\<close> panic.\<close>

definition frameLength :: "Application \<Rightarrow> int option" where
  "frameLength a =
     (if ap_fps a = 0 then None
      else let t = 1000000 * 1000 div ap_fps a; t = t div 1000000 * 1000000 in
        if t \<le> 0 then None else Some t)"

text \<open>What the \<open>select\<close> of the loop sees: a tick with the times before and after the frame, functions
  from HTTP, or the signal to invoke. What the loop calls is recorded.\<close>

datatype mainEv = EvTick int int | EvHttp nat | EvInvoke

datatype mainCall = MainFrame int | MainHttp nat | MainInvoke

fun mainLoop :: "int \<Rightarrow> int \<Rightarrow> mainEv list \<Rightarrow> Application \<Rightarrow> mainCall list \<times> int \<times> Application" where
  "mainLoop t lastTime [] a = ([], lastTime, a)"
| "mainLoop t lastTime (EvTick now end' # evs) a =
     (if ap_exit a then ([], lastTime, a)
      else let ft = end' - now;
               a = a\<lparr>ap_FrameNum := ap_FrameNum a + 1, ap_FrameNowTime := ft, ap_FrameTime := ap_FrameTime a + ft,
                     ap_FrameOvertimeUse := (if ft > t then ap_FrameOvertimeUse a + 1 else ap_FrameOvertimeUse a)\<rparr>;
               (cs, r) = mainLoop t now evs a in
        (MainFrame (now - lastTime) # cs, r))"
| "mainLoop t lastTime (EvHttp n # evs) a = (let (cs, r) = mainLoop t lastTime evs a in (MainHttp n # cs, r))"
| "mainLoop t lastTime (EvInvoke # evs) a =
     (let a = a\<lparr>ap_invokeOnMain := False\<rparr>; (cs, r) = mainLoop t lastTime evs a in
      ((if ap_invokeFunc a then [MainInvoke] else []) @ cs, r))"

definition App_Run :: "int \<Rightarrow> mainEv list \<Rightarrow> Application \<Rightarrow> (mainCall list \<times> int \<times> Application) option" where
  "App_Run start evs a = do { t \<leftarrow> frameLength a; Some (mainLoop t start evs a) }"

section \<open>Commands over HTTP\<close>

text \<open>The handlers of \<open>HandleHttpCmd\<close>: a request puts its function into \<open>http2main\<close> (or gives up
  after two seconds when that is full), the main loop calls it and puts the answer into \<open>main2http\<close>,
  and any waiting request takes it from there.\<close>

record httpCmds =
  hc_http2main :: "nat list"
  hc_main2http :: "nat list" \<comment> \<open>the answer, by the number of the request it is for\<close>
  hc_waiting :: "nat list"
  hc_answered :: "(nat \<times> nat) list" \<comment> \<open>request, answer\<close>

inductive http_step :: "httpCmds \<Rightarrow> httpCmds \<Rightarrow> bool" where
  hs_submit: "length (hc_http2main h) < 1024 \<Longrightarrow>
    http_step h (h\<lparr>hc_http2main := hc_http2main h @ [r], hc_waiting := hc_waiting h @ [r]\<rparr>)"
| hs_main: "hc_http2main h = r # rs \<Longrightarrow> hc_main2http h = [] \<Longrightarrow>
    http_step h (h\<lparr>hc_http2main := rs, hc_main2http := [r]\<rparr>)"
| hs_answer: "hc_main2http h = [x] \<Longrightarrow> r \<in> set (hc_waiting h) \<Longrightarrow>
    http_step h (h\<lparr>hc_main2http := [], hc_waiting := removeAll r (hc_waiting h), hc_answered := hc_answered h @ [(r, x)]\<rparr>)"

section \<open>What holds\<close>

text \<open>A frame has between one millisecond and one second, whatever rate is asked for.\<close>

lemma frame_bounds: "\<exists>t. frameLength (SetFPS n a) = Some t \<and> 1000000 \<le> t \<and> t \<le> 1000000000 \<and> t mod 1000000 = 0"
proof -
  define k where "k = (if n \<le> 0 \<or> n > 1000 then 1000 else n)"
  have k: "0 < k" "k \<le> 1000" by (auto simp: k_def)
  define t where "t = 1000000000 div k"
  have "1000000000 div 1000 \<le> t" "t \<le> 1000000000 div 1"
    using zdiv_mono2 [of 1000000000 k 1000] zdiv_mono2 [of 1000000000 1 k] k by (simp_all add: t_def)
  then have t: "1000000 \<le> t" "t \<le> 1000000000" by simp_all
  have "1 \<le> t div 1000000" using zdiv_mono1 [OF t(1), of 1000000] by simp
  moreover have "t div 1000000 * 1000000 \<le> t" using mult_div_mod_eq [of 1000000 t] pos_mod_sign [of 1000000 t] by linarith
  ultimately have "1000000 \<le> t div 1000000 * 1000000" "t div 1000000 * 1000000 \<le> 1000000000" using t(2) by linarith+
  moreover have "frameLength (SetFPS n a) = Some (t div 1000000 * 1000000)"
    using k calculation(1) by (simp add: frameLength_def SetFPS_def k_def [symmetric] t_def Let_def)
  ultimately show ?thesis by simp
qed

lemma frame_zero_panics: "App_Run start evs newApplication = None"
  by (simp add: App_Run_def frameLength_def newApplication_def)

text \<open>The frames get all the time that passes, and every frame is counted.\<close>

definition frameTimes :: "mainCall list \<Rightarrow> int list" where
  "frameTimes cs = List.map_filter (\<lambda>c. case c of MainFrame dt \<Rightarrow> Some dt | _ \<Rightarrow> None) cs"

lemma frameTimes_simps [simp]: "frameTimes [] = []" "frameTimes (MainFrame dt # cs) = dt # frameTimes cs"
  "frameTimes (MainHttp n # cs) = frameTimes cs" "frameTimes (MainInvoke # cs) = frameTimes cs"
  by (simp_all add: frameTimes_def map_filter_def)

lemma mainLoop_time:
  "mainLoop t start evs a = (cs, last', a') \<Longrightarrow>
   sum_list (frameTimes cs) = last' - start \<and> TickTotal a' = TickTotal a + int (length (frameTimes cs))"
  by (induction t start evs a arbitrary: cs rule: mainLoop.induct)
    (auto simp: TickTotal_def Let_def split: prod.splits if_splits)

text \<open>\<open>RunAll\<close> runs the registered modules once each, in the order of their numbers.\<close>

lemma RunAll_calls:
  "fst (DModule_RunAll cost delta mgr) = map (\<lambda>m. CallRun m delta) (List.map_filter im_module mgr) \<and>
   map im_module (snd (DModule_RunAll cost delta mgr)) = map im_module mgr"
  by (induction mgr) (auto simp: moduleRunOnce_def map_filter_def split: prod.splits option.splits)

lemma InitAll_ok: "fst (DModule_InitAll ok mgr) \<longleftrightarrow> (\<forall>m \<in> set mgr. \<forall>a. im_module m = Some a \<longrightarrow> ok a)"
proof -
  have "fst (initAllFrom ok n mgr) \<longleftrightarrow> (\<forall>m \<in> set mgr. \<forall>a. im_module m = Some a \<longrightarrow> ok a)" for n
  proof (induction mgr arbitrary: n)
    case (Cons d ds)
    then show ?case using Cons.IH [of "n + 1"] by (cases "initAllFrom ok (n + 1) ds") (auto split: option.splits)
  qed simp
  then show ?thesis by (simp add: DModule_InitAll_def)
qed

lemma SModule_Destroy_panics: "SModule_Destroy mgr = None \<longleftrightarrow> None \<in> set mgr"
  by (induction mgr rule: SModule_Destroy.induct) auto

text \<open>Two requests at once may get each other's answers.\<close>

lemma http_answers_swapped:
  "\<exists>h. http_step\<^sup>*\<^sup>* \<lparr>hc_http2main = [], hc_main2http = [], hc_waiting = [], hc_answered = []\<rparr> h \<and> hc_answered h = [(2, 1), (1, 2)]"
proof -
  let ?h = "\<lambda>q out w ans. \<lparr>hc_http2main = q, hc_main2http = out, hc_waiting = w, hc_answered = ans\<rparr>"
  have "http_step (?h [] [] [] []) (?h [1] [] [1] [])" using hs_submit [of "?h [] [] [] []" 1] by simp
  moreover have "http_step (?h [1] [] [1] []) (?h [1, 2] [] [1, 2] [])" using hs_submit [of "?h [1] [] [1] []" 2] by simp
  moreover have "http_step (?h [1, 2] [] [1, 2] []) (?h [2] [1] [1, 2] [])" using hs_main [of "?h [1, 2] [] [1, 2] []" 1 "[2]"] by simp
  moreover have "http_step (?h [2] [1] [1, 2] []) (?h [2] [] [1] [(2, 1)])" using hs_answer [of "?h [2] [1] [1, 2] []" 1 2] by simp
  moreover have "http_step (?h [2] [] [1] [(2, 1)]) (?h [] [2] [1] [(2, 1)])" using hs_main [of "?h [2] [] [1] [(2, 1)]" 2 "[]"] by simp
  moreover have "http_step (?h [] [2] [1] [(2, 1)]) (?h [] [] [] [(2, 1), (1, 2)])" using hs_answer [of "?h [] [2] [1] [(2, 1)]" 2 1] by simp
  ultimately have "http_step\<^sup>*\<^sup>* (?h [] [] [] []) (?h [] [] [] [(2, 1), (1, 2)])" by (meson converse_rtranclp_into_rtranclp rtranclp.rtrancl_refl)
  then show ?thesis by (intro exI [of _ "?h [] [] [] [(2, 1), (1, 2)]"]) simp
qed

end
