(* ===== verification/App_Start.thy ===== *)
theory App_Start
  imports App
begin

text \<open>
  How a server process starts (\<open>xutil/application.go\<close>): the address for HTTP, the choice of a free
  port, and \<open>Init\<close> with the order of what it does. The interfaces of the machine, which ports are
  free, and what the lock file and the caller's own initialisation answer are parameters.
\<close>

section \<open>Addresses\<close>

text \<open>\<open>strings.Split\<close> at one character, and \<open>strconv.Atoi\<close>.\<close>

fun splitOn :: "char \<Rightarrow> string \<Rightarrow> string list" where
  "splitOn c [] = [[]]"
| "splitOn c (x # s) = (if x = c then [] # splitOn c s else (case splitOn c s of w # ws \<Rightarrow> (x # w) # ws | [] \<Rightarrow> [[x]]))"

fun digitsOf :: "nat \<Rightarrow> string \<Rightarrow> nat option" where
  "digitsOf acc [] = Some acc"
| "digitsOf acc (c # s) =
     (let d = of_char c in if 48 \<le> d \<and> d \<le> (57::nat) then digitsOf (acc * 10 + (d - 48)) s else None)"

definition Atoi :: "string \<Rightarrow> int option" where
  "Atoi s =
     (let (neg, ds) = (case s of c # r \<Rightarrow> if c = CHR ''-'' then (True, r) else if c = CHR ''+'' then (False, r) else (False, s) | [] \<Rightarrow> (False, [])) in
      if ds = [] then None
      else case digitsOf 0 ds of
          None \<Rightarrow> None
        | Some n \<Rightarrow> let z = if neg then - int n else int n in
            if - (2 ^ 63) \<le> z \<and> z < 2 ^ 63 then Some z else None)"

definition splitAddr :: "string \<Rightarrow> string \<times> int" where
  "splitAddr addr =
     (case splitOn CHR '':'' addr of
        [ip, p] \<Rightarrow> (case Atoi p of Some port \<Rightarrow> (ip, port) | None \<Rightarrow> ([], 0))
      | _ \<Rightarrow> ([], 0))"

record ipnet =
  in_loopback :: bool
  in_v4 :: bool
  in_text :: string

definition unKnown :: string where "unKnown = ''unknown''"

text \<open>\<open>None\<close>: the interfaces cannot be listed. Addresses that are no \<open>IPNet\<close> are skipped by both loops and
  are not in the list.\<close>

definition getLocalAddr :: "ipnet list option \<Rightarrow> string" where
  "getLocalAddr addrs =
     (case addrs of
        None \<Rightarrow> unKnown
      | Some ns \<Rightarrow>
          (case find (\<lambda>n. \<not> in_loopback n \<and> in_v4 n) ns of
             Some n \<Rightarrow> in_text n
           | None \<Rightarrow>
               (case find (\<lambda>n. in_loopback n \<and> in_v4 n) ns of Some n \<Rightarrow> in_text n | None \<Rightarrow> unKnown)))"

section \<open>Listening for HTTP\<close>

definition maxPortRange :: nat where "maxPortRange = 64"

fun findPort :: "(string \<Rightarrow> int \<Rightarrow> bool) \<Rightarrow> string \<Rightarrow> int \<Rightarrow> nat \<Rightarrow> int option" where
  "findPort listen ip i 0 = None"
| "findPort listen ip i (Suc n) = (if listen ip i then Some i else findPort listen ip (i + 1) n)"

text \<open>The address and the port listened on, or failure.\<close>

definition serveHTTP :: "(string \<Rightarrow> int \<Rightarrow> bool) \<Rightarrow> ipnet list option \<Rightarrow> string \<Rightarrow> (string \<times> int) option" where
  "serveHTTP listen addrs httpListenAddr =
     (let (ip, port) = splitAddr httpListenAddr in
      if ip = [] then None
      else let ip = if ip = ''0.0.0.0'' \<or> ip = [] then getLocalAddr addrs else ip in
        case findPort listen ip port maxPortRange of None \<Rightarrow> None | Some p \<Rightarrow> Some (ip, p))"

section \<open>Init\<close>

datatype initAct = PrintVersion | ExitProcess | StartProfile | TakeLock | ListenHTTP string int | WatchSignals | CallInit |
  StopProfile | SyncLogs | RegisterCmds

text \<open>\<open>f\<close>: the answer of the function given, if one is. The result is \<open>None\<close> when the process has exited.\<close>

definition App_Init :: "bool \<Rightarrow> bool \<Rightarrow> (string \<times> int) option \<Rightarrow> bool option \<Rightarrow> initAct list \<times> bool option" where
  "App_Init versionFlag lockOk http f =
     (if versionFlag then ([PrintVersion, ExitProcess], None)
      else if \<not> lockOk then ([StartProfile], Some False)
      else case f of
          None \<Rightarrow> ([StartProfile, TakeLock], Some True)
        | Some ret \<Rightarrow>
            (case http of
               None \<Rightarrow> ([StartProfile, TakeLock], Some False)
             | Some (ip, port) \<Rightarrow>
                 ([StartProfile, TakeLock, ListenHTTP ip port, WatchSignals, CallInit] @
                  (if ret then [] else [StopProfile, SyncLogs]) @ [RegisterCmds], Some ret)))"

section \<open>What holds\<close>

lemma free_from_next:
  fixes i p :: int
  assumes "\<not> L i"
  shows "(\<forall>q. i \<le> q \<and> q < p \<longrightarrow> \<not> L q) \<longleftrightarrow> (\<forall>q. i + 1 \<le> q \<and> q < p \<longrightarrow> \<not> L q)"
proof
  assume a: "\<forall>q. i + 1 \<le> q \<and> q < p \<longrightarrow> \<not> L q"
  show "\<forall>q. i \<le> q \<and> q < p \<longrightarrow> \<not> L q"
  proof (intro allI impI)
    fix q assume "i \<le> q \<and> q < p"
    with a assms show "\<not> L q" by (cases "q = i") auto
  qed
qed auto

lemma findPort_Some:
  "findPort listen ip i n = Some p \<longleftrightarrow> i \<le> p \<and> p < i + int n \<and> listen ip p \<and> (\<forall>q. i \<le> q \<and> q < p \<longrightarrow> \<not> listen ip q)"
proof (induction n arbitrary: i)
  case (Suc n)
  show ?case
  proof (cases "listen ip i")
    case True
    then show ?thesis by (auto; metis order_le_less)
  next
    case False
    then have "i \<le> p \<and> listen ip p \<longleftrightarrow> i + 1 \<le> p \<and> listen ip p" by (cases "i = p") auto
    then show ?thesis using False Suc.IH [of "i + 1"] free_from_next [of "listen ip" i p, OF False] by auto
  qed
qed auto

lemma findPort_None: "findPort listen ip i n = None \<longleftrightarrow> (\<forall>q. i \<le> q \<and> q < i + int n \<longrightarrow> \<not> listen ip q)"
proof (induction n arbitrary: i)
  case (Suc n)
  show ?case
  proof (cases "listen ip i")
    case True
    then show ?thesis by force
  next
    case False
    then show ?thesis using Suc.IH [of "i + 1"] free_from_next [of "listen ip" i "i + int (Suc n)", OF False] by (simp add: algebra_simps)
  qed
qed auto

text \<open>The first free port of the 64 from the configured one on, or failure when all are taken.\<close>

lemma serveHTTP_port:
  fixes addrs :: "ipnet list option"
  assumes "splitAddr a = (ip, port)" "ip \<noteq> []"
  defines "host \<equiv> if ip = ''0.0.0.0'' then getLocalAddr addrs else ip"
  shows "serveHTTP listen addrs a = Some (h, p) \<longleftrightarrow>
      h = host \<and> port \<le> p \<and> p < port + 64 \<and> listen host p \<and> (\<forall>q. port \<le> q \<and> q < p \<longrightarrow> \<not> listen host q)"
    "serveHTTP listen addrs a = None \<longleftrightarrow> (\<forall>q. port \<le> q \<and> q < port + 64 \<longrightarrow> \<not> listen host q)"
  using assms(1,2) findPort_Some [of listen host port 64 p] findPort_None [of listen host port 64]
  by (auto simp: serveHTTP_def host_def maxPortRange_def Let_def split: option.splits)

text \<open>An address with the host left out is refused, although the next test means to admit it.\<close>

lemma serveHTTP_no_host: "serveHTTP listen addrs '':13000'' = None"
proof -
  have "splitAddr '':13000'' = ([], 13000)" by code_simp
  then show ?thesis by (simp add: serveHTTP_def)
qed

text \<open>The caller's initialisation runs only with the lock held and HTTP served; its failure is the
  result, after which the commands are registered all the same.\<close>

lemma App_Init_calls:
  "CallInit \<in> set (fst (App_Init v lock http f)) \<longleftrightarrow> \<not> v \<and> lock \<and> f \<noteq> None \<and> http \<noteq> None"
  "snd (App_Init v lock http f) = Some True \<longleftrightarrow> \<not> v \<and> lock \<and> (f = None \<or> f = Some True \<and> http \<noteq> None)"
  by (auto simp: App_Init_def split: option.splits)

lemma Init_failed_registers: "RegisterCmds \<in> set (fst (App_Init False True (Some h) (Some False)))"
  by (cases h) (simp add: App_Init_def)

end
