(* ===== verification/Lumberjack.thy ===== *)
theory Lumberjack
  imports Prelude "HOL-Library.AList" "HOL-Library.Sublist"
begin

text \<open>
  The rotating log file (\<open>xlog/lumberjack-2.0/lumberjack.go\<close>, \<open>chown_linux.go\<close>). The directory of the
  log file is an association list from names to contents; subdirectories, which \<open>oldLogFiles\<close> skips,
  are not in it, and no other process writes there. Each system call may fail, as the environment of
  the call says. Names are those inside the directory, so \<open>filepath.Dir\<close>, \<open>Base\<close> and \<open>Join\<close> do not
  appear. The files that \<open>cleanup\<close> hands to the goroutine \<open>deleteAll\<close> are pending until a step of it
  removes them. Of the standard library, \<open>time.Format\<close> and \<open>time.Parse\<close> are written out for the one
  layout the package uses.
\<close>

section \<open>Times\<close>

record civil =
  c_year :: nat
  c_month :: nat
  c_day :: nat
  c_hour :: nat
  c_min :: nat
  c_sec :: nat
  c_nano :: nat

definition leapYear :: "nat \<Rightarrow> bool" where
  "leapYear y \<longleftrightarrow> y mod 4 = 0 \<and> (y mod 100 \<noteq> 0 \<or> y mod 400 = 0)"

definition daysIn :: "nat \<Rightarrow> nat \<Rightarrow> nat" where
  "daysIn m y = (if m = 2 then (if leapYear y then 29 else 28) else if m \<in> {4, 6, 9, 11} then 30 else 31)"

definition civil_ok :: "civil \<Rightarrow> bool" where
  "civil_ok t \<longleftrightarrow> c_year t < 10000 \<and> 0 < c_month t \<and> c_month t \<le> 12 \<and> 0 < c_day t \<and> c_day t \<le> daysIn (c_month t) (c_year t) \<and>
     c_hour t < 24 \<and> c_min t < 60 \<and> c_sec t < 60 \<and> c_nano t < 1000000000"

text \<open>The order of times, as one number.\<close>

definition stamp :: "civil \<Rightarrow> nat" where
  "stamp t = (((((c_year t * 16 + c_month t) * 32 + c_day t) * 32 + c_hour t) * 64 + c_min t) * 64 + c_sec t) * 1073741824 + c_nano t"

definition truncMilli :: "civil \<Rightarrow> civil" where
  "truncMilli t = t\<lparr>c_nano := c_nano t div 1000000 * 1000000\<rparr>"

definition prevDay :: "civil \<Rightarrow> civil" where
  "prevDay t =
     (if 1 < c_day t then t\<lparr>c_day := c_day t - 1\<rparr>
      else if 1 < c_month t then t\<lparr>c_month := c_month t - 1, c_day := daysIn (c_month t - 1) (c_year t)\<rparr>
      else t\<lparr>c_year := c_year t - 1, c_month := 12, c_day := 31\<rparr>)"

definition digitChar :: "nat \<Rightarrow> char" where
  "digitChar d = char_of (48 + d mod 10)"

definition digitVal :: "char \<Rightarrow> nat" where
  "digitVal c = of_char c - 48"

definition isDigit :: "char \<Rightarrow> bool" where
  "isDigit c \<longleftrightarrow> 48 \<le> (of_char c :: nat) \<and> (of_char c :: nat) \<le> 57"

definition pad2 :: "nat \<Rightarrow> string" where
  "pad2 n = [digitChar (n div 10), digitChar n]"

text \<open>The layout \<open>2006-01-02T15-04-05.000\<close>.\<close>

definition timeFormat :: "civil \<Rightarrow> string" where
  "timeFormat t = pad2 (c_year t div 100) @ pad2 (c_year t) @ ''-'' @ pad2 (c_month t) @ ''-'' @ pad2 (c_day t) @ ''T'' @
     pad2 (c_hour t) @ ''-'' @ pad2 (c_min t) @ ''-'' @ pad2 (c_sec t) @ ''.'' @
     digitChar (c_nano t div 100000000) # pad2 (c_nano t div 1000000)"

fun digits2 :: "string \<Rightarrow> (nat \<times> string) option" where
  "digits2 (a # b # s) = (if isDigit a \<and> isDigit b then Some (digitVal a * 10 + digitVal b, s) else None)"
| "digits2 _ = None"

text \<open>\<open>getnum\<close> without \<open>fixed\<close>, which reads the hour: one digit will do.\<close>

fun digits12 :: "string \<Rightarrow> (nat \<times> string) option" where
  "digits12 [] = None"
| "digits12 (a # s) =
     (if \<not> isDigit a then None
      else case s of
          b # s' \<Rightarrow> if isDigit b then Some (digitVal a * 10 + digitVal b, s') else Some (digitVal a, s)
        | [] \<Rightarrow> Some (digitVal a, s))"

fun skipChar :: "char \<Rightarrow> string \<Rightarrow> string option" where
  "skipChar c (a # s) = (if a = c then Some s else None)"
| "skipChar c [] = None"

text \<open>Exactly three digits after a period or a comma, to the end of the value.\<close>

fun fraction3 :: "string \<Rightarrow> nat option" where
  "fraction3 [p, a, b, c] =
     (if (p = CHR ''.'' \<or> p = CHR '','') \<and> isDigit a \<and> isDigit b \<and> isDigit c
      then Some (digitVal a * 100 + digitVal b * 10 + digitVal c) else None)"
| "fraction3 _ = None"

definition timeParse :: "string \<Rightarrow> civil option" where
  "timeParse s = do {
     (y1, s) \<leftarrow> digits2 s; (y2, s) \<leftarrow> digits2 s; s \<leftarrow> skipChar CHR ''-'' s;
     (mo, s) \<leftarrow> digits2 s; s \<leftarrow> skipChar CHR ''-'' s;
     (d, s) \<leftarrow> digits2 s; s \<leftarrow> skipChar CHR ''T'' s;
     (h, s) \<leftarrow> digits12 s; s \<leftarrow> skipChar CHR ''-'' s;
     (mi, s) \<leftarrow> digits2 s; s \<leftarrow> skipChar CHR ''-'' s;
     (sec, s) \<leftarrow> digits2 s; ms \<leftarrow> fraction3 s;
     let t = \<lparr>c_year = y1 * 100 + y2, c_month = mo, c_day = d, c_hour = h, c_min = mi, c_sec = sec, c_nano = ms * 1000000\<rparr>;
     if civil_ok t then Some t else None }"

lemma digit_roundtrip [simp]: "isDigit (digitChar d)" "digitVal (digitChar d) = d mod 10"
  by (auto simp: isDigit_def digitVal_def digitChar_def)

lemma pad2_digits2 [simp]: "n < 100 \<Longrightarrow> digits2 (pad2 n @ s) = Some (n, s)"
  by (simp add: pad2_def mod_less)

lemma pad2_digits12 [simp]: "n < 100 \<Longrightarrow> digits12 (pad2 n @ s) = Some (n, s)"
  by (simp add: pad2_def mod_less)

lemma mod_100: "n div 10 mod 10 * 10 + n mod 10 = n mod 100" for n :: nat
  using mod_mult2_eq [of n 10 10] by simp

lemma year_digits2 [simp]: "digits2 (pad2 n @ s) = Some (n mod 100, s)"
  by (simp add: pad2_def mod_100)

lemma year_digits: "n < 10000 \<Longrightarrow> n div 100 mod 100 * 100 + n mod 100 = n" for n :: nat
  using mod_mult2_eq [of n 100 100] by simp

lemma milli_digits:
  fixes n :: nat
  assumes "n < 1000000000"
  shows "n div 100000000 mod 10 * 100 + n div 1000000 div 10 mod 10 * 10 + n div 1000000 mod 10 = n div 1000000"
proof -
  have eq: "n div 100000000 = n div 1000000 div 100" by (simp flip: div_mult2_eq)
  have "n div 1000000 < 1000" using assms by (simp add: less_mult_imp_div_less)
  then have "n div 1000000 div 100 mod 10 * 100 + n div 1000000 mod 100 = n div 1000000"
    using mod_mult2_eq [of "n div 1000000" 100 10] by simp
  then show ?thesis by (simp only: eq add.assoc mod_100)
qed

text \<open>Parsing a printed time gives it back, cut to milliseconds.\<close>

lemma timeParse_timeFormat:
  assumes "civil_ok t" shows "timeParse (timeFormat t) = Some (truncMilli t)"
proof -
  have "civil_ok (truncMilli t)" using assms by (auto simp: civil_ok_def truncMilli_def)
  moreover have "c_day t < 100" using assms by (auto simp: civil_ok_def daysIn_def split: if_splits)
  ultimately show ?thesis
    using assms milli_digits [of "c_nano t"] year_digits [of "c_year t"]
    by (simp add: timeParse_def timeFormat_def civil_ok_def truncMilli_def) (simp add: pad2_def)
qed

section \<open>The logger\<close>

type_synonym disk = "(string \<times> bytes) list"

datatype syscall = SysMkdir | SysStatOpen | SysStatNew | SysRename | SysChownOpen | SysChown | SysCreate | SysAppend |
  SysWrite | SysClose | SysReadDir | SysRemove string

text \<open>What happens around one call: the two times it may read, the time zone, the system calls that
  fail, and how much a failing write has written.\<close>

record sysEnv =
  ev_now :: civil
  ev_later :: civil
  ev_zone :: "civil \<Rightarrow> civil"
  ev_fail :: "syscall \<Rightarrow> bool"
  ev_part :: nat

datatype lumberErr = ErrTooLong | ErrMkdir | ErrStat | ErrRename | ErrChown | ErrCreate | ErrWrite | ErrClose | ErrReadDir

text \<open>\<open>lj_open\<close>: the file is open, under the name \<open>lj_filename\<close>. \<open>lj_exe\<close> is the base name of \<open>os.Args[0]\<close>.\<close>

record lumber =
  lj_exe :: string
  lj_Filename :: string
  lj_MaxSize :: int
  lj_MaxAge :: int
  lj_MaxBackups :: int
  lj_LocalTime :: bool
  lj_size :: int
  lj_open :: bool
  lj_pending :: "string list"

definition megabyte :: int where "megabyte = 1024 * 1024"

definition lj_max :: "lumber \<Rightarrow> int" where
  "lj_max l = (if lj_MaxSize l = 0 then 100 * megabyte else lj_MaxSize l * megabyte)"

definition lj_filename :: "lumber \<Rightarrow> string" where
  "lj_filename l = (if lj_Filename l \<noteq> [] then lj_Filename l else lj_exe l @ ''-lumberjack.log'')"

text \<open>\<open>filepath.Ext\<close>: from the last period on, or nothing.\<close>

definition Ext :: "string \<Rightarrow> string" where
  "Ext name = (let suf = takeWhile (\<lambda>c. c \<noteq> CHR ''.'') (rev name) in
     if length suf < length name then CHR ''.'' # rev suf else [])"

definition prefixAndExt :: "lumber \<Rightarrow> string \<times> string" where
  "prefixAndExt l = (let filename = lj_filename l; ext = Ext filename in
     (take (length filename - length ext) filename @ ''-'', ext))"

definition backupName :: "sysEnv \<Rightarrow> string \<Rightarrow> bool \<Rightarrow> string" where
  "backupName e filename local =
     (let ext = Ext filename; prefix = take (length filename - length ext) filename;
          t = if local then ev_zone e (ev_now e) else ev_now e in
      prefix @ ''-'' @ timeFormat t @ ext)"

definition timeFromName :: "string \<Rightarrow> string \<Rightarrow> string \<Rightarrow> string" where
  "timeFromName filename pre ext =
     (if \<not> prefix pre filename then []
      else let filename = drop (length pre) filename in
        if \<not> suffix ext filename then [] else take (length filename - length ext) filename)"

definition logInfoOf :: "lumber \<Rightarrow> string \<Rightarrow> (civil \<times> string) option" where
  "logInfoOf l name = (let (pre, ext) = prefixAndExt l; s = timeFromName name pre ext in
     if s = [] then None else map_option (\<lambda>t. (t, name)) (timeParse s))"

text \<open>Newest first. \<open>sort.Sort\<close> leaves the order of equal times open.\<close>

definition oldLogFiles :: "sysEnv \<Rightarrow> lumber \<Rightarrow> disk \<Rightarrow> (civil \<times> string) list option" where
  "oldLogFiles e l d =
     (if ev_fail e SysReadDir then None
      else Some (sort_key (\<lambda>f. - int (stamp (fst f))) (List.map_filter (logInfoOf l) (map fst d))))"

text \<open>\<open>MaxAge\<close> is taken to be below 106752 days, where the duration does not overflow.\<close>

definition cutoff :: "sysEnv \<Rightarrow> lumber \<Rightarrow> civil" where
  "cutoff e l = (prevDay ^^ nat (lj_MaxAge l)) (ev_later e)"

definition expiredLogs :: "sysEnv \<Rightarrow> lumber \<Rightarrow> (civil \<times> string) list \<Rightarrow> (civil \<times> string) list" where
  "expiredLogs e l files =
     (let n = nat (lj_MaxBackups l);
          (deletes, files) = if 0 < lj_MaxBackups l \<and> lj_MaxBackups l < int (length files) then (drop n files, take n files) else ([], files) in
      if 0 < lj_MaxAge l then deletes @ filter (\<lambda>f. stamp (fst f) < stamp (cutoff e l)) files else deletes)"

definition cleanup :: "sysEnv \<Rightarrow> lumber \<Rightarrow> disk \<Rightarrow> lumberErr option \<times> lumber" where
  "cleanup e l d =
     (if lj_MaxBackups l = 0 \<and> lj_MaxAge l = 0 then (None, l)
      else case oldLogFiles e l d of
          None \<Rightarrow> (Some ErrReadDir, l)
        | Some files \<Rightarrow> (None, l\<lparr>lj_pending := lj_pending l @ map snd (expiredLogs e l files)\<rparr>))"

text \<open>One round of the goroutines that run \<open>deleteAll\<close>: any pending file may be next.\<close>

definition deleteAll_step :: "sysEnv \<Rightarrow> string \<Rightarrow> lumber \<times> disk \<Rightarrow> lumber \<times> disk" where
  "deleteAll_step e n = (\<lambda>(l, d).
     if n \<in> set (lj_pending l)
     then (l\<lparr>lj_pending := remove1 n (lj_pending l)\<rparr>, if ev_fail e (SysRemove n) then d else AList.delete n d)
     else (l, d))"

definition lj_close :: "sysEnv \<Rightarrow> lumber \<Rightarrow> lumberErr option \<times> lumber" where
  "lj_close e l =
     (if \<not> lj_open l then (None, l)
      else (if ev_fail e SysClose then Some ErrClose else None, l\<lparr>lj_open := False\<rparr>))"

definition lj_chown :: "sysEnv \<Rightarrow> string \<Rightarrow> disk \<Rightarrow> lumberErr option \<times> disk" where
  "lj_chown e name d =
     (if ev_fail e SysChownOpen then (Some ErrChown, d)
      else (if ev_fail e SysChown then Some ErrChown else None, AList.update name [] d))"

definition createLog :: "sysEnv \<Rightarrow> lumber \<Rightarrow> disk \<Rightarrow> lumberErr option \<times> lumber \<times> disk" where
  "createLog e l d =
     (if ev_fail e SysCreate then (Some ErrCreate, l, d)
      else (None, l\<lparr>lj_open := True, lj_size := 0\<rparr>, AList.update (lj_filename l) [] d))"

definition openNew :: "sysEnv \<Rightarrow> lumber \<Rightarrow> disk \<Rightarrow> lumberErr option \<times> lumber \<times> disk" where
  "openNew e l d =
     (let name = lj_filename l in
      if ev_fail e SysMkdir then (Some ErrMkdir, l, d)
      else case (if ev_fail e SysStatNew then None else map_of d name) of
          None \<Rightarrow> createLog e l d
        | Some c \<Rightarrow>
            if ev_fail e SysRename then (Some ErrRename, l, d)
            else let d = AList.update (backupName e name (lj_LocalTime l)) c (AList.delete name d) in
              case lj_chown e name d of
                (Some err, d) \<Rightarrow> (Some err, l, d)
              | (None, d) \<Rightarrow> createLog e l d)"

definition rotate_log :: "sysEnv \<Rightarrow> lumber \<Rightarrow> disk \<Rightarrow> lumberErr option \<times> lumber \<times> disk" where
  "rotate_log e l d =
     (case lj_close e l of
        (Some err, l) \<Rightarrow> (Some err, l, d)
      | (None, l) \<Rightarrow>
          (case openNew e l d of
             (Some err, l, d) \<Rightarrow> (Some err, l, d)
           | (None, l, d) \<Rightarrow> (case cleanup e l d of (err, l) \<Rightarrow> (err, l, d))))"

text \<open>\<open>Close\<close> and \<open>Rotate\<close> are these two under the mutex.\<close>

definition lj_Close :: "sysEnv \<Rightarrow> lumber \<Rightarrow> lumberErr option \<times> lumber" where
  "lj_Close e l = lj_close e l"

definition lj_Rotate :: "sysEnv \<Rightarrow> lumber \<Rightarrow> disk \<Rightarrow> lumberErr option \<times> lumber \<times> disk" where
  "lj_Rotate e l d = rotate_log e l d"

definition openExistingOrNew :: "sysEnv \<Rightarrow> int \<Rightarrow> lumber \<Rightarrow> disk \<Rightarrow> lumberErr option \<times> lumber \<times> disk" where
  "openExistingOrNew e writeLen l d =
     (if ev_fail e SysStatOpen then (Some ErrStat, l, d)
      else case map_of d (lj_filename l) of
          None \<Rightarrow> openNew e l d
        | Some c \<Rightarrow>
            if int (length c) + writeLen \<ge> lj_max l then rotate_log e l d
            else if ev_fail e SysAppend then openNew e l d
            else (None, l\<lparr>lj_open := True, lj_size := int (length c)\<rparr>, d))"

definition appendFile :: "sysEnv \<Rightarrow> bytes \<Rightarrow> lumber \<Rightarrow> disk \<Rightarrow> nat \<times> lumberErr option \<times> lumber \<times> disk" where
  "appendFile e p l d =
     (let n = if ev_fail e SysWrite then min (ev_part e) (length p) else length p;
          old = case map_of d (lj_filename l) of Some c \<Rightarrow> c | None \<Rightarrow> [] in
      (n, if ev_fail e SysWrite then Some ErrWrite else None, l\<lparr>lj_size := lj_size l + int n\<rparr>,
       AList.update (lj_filename l) (old @ take n p) d))"

definition lj_Write :: "sysEnv \<Rightarrow> bytes \<Rightarrow> lumber \<Rightarrow> disk \<Rightarrow> nat \<times> lumberErr option \<times> lumber \<times> disk" where
  "lj_Write e p l d =
     (let writeLen = int (length p) in
      if writeLen > lj_max l then (0, Some ErrTooLong, l, d)
      else case (if lj_open l then (None, l, d) else openExistingOrNew e writeLen l d) of
          (Some err, l, d) \<Rightarrow> (0, Some err, l, d)
        | (None, l, d) \<Rightarrow>
            (case (if lj_size l + writeLen > lj_max l then rotate_log e l d else (None, l, d)) of
               (Some err, l, d) \<Rightarrow> (0, Some err, l, d)
             | (None, l, d) \<Rightarrow> appendFile e p l d))"

section \<open>Names\<close>

lemma takeWhile_rev_split:
  assumes "length (takeWhile P (rev xs)) < length xs"
  shows "\<exists>q x. \<not> P x \<and> xs = q @ x # rev (takeWhile P (rev xs))"
proof (cases "dropWhile P (rev xs)")
  case Nil
  then have "takeWhile P (rev xs) = rev xs" using takeWhile_dropWhile_id [of P "rev xs"] by simp
  with assms show ?thesis by simp
next
  case (Cons a as)
  have "rev xs = takeWhile P (rev xs) @ a # as" using takeWhile_dropWhile_id [of P "rev xs"] Cons by simp
  then have "rev (rev xs) = rev (takeWhile P (rev xs) @ a # as)" by (rule arg_cong)
  then have "xs = rev as @ a # rev (takeWhile P (rev xs))" by simp
  moreover have "\<not> P a" using Cons by (simp add: dropWhile_eq_Cons_conv)
  ultimately show ?thesis by blast
qed

lemma Ext_split:
  obtains p where "name = p @ Ext name" "Ext name = [] \<or> (\<exists>x. Ext name = CHR ''.'' # x)"
proof (cases "length (takeWhile (\<lambda>c. c \<noteq> CHR ''.'') (rev name)) < length name")
  case True
  then show thesis
    using that takeWhile_rev_split [OF True] by (auto simp: Ext_def Let_def simp del: rev_swap)
next
  case False
  then show thesis using that by (simp add: Ext_def)
qed

lemma logInfoOf_filename: "logInfoOf l (lj_filename l) = None"
proof -
  obtain p where p: "lj_filename l = p @ Ext (lj_filename l)"
    "Ext (lj_filename l) = [] \<or> (\<exists>x. Ext (lj_filename l) = CHR ''.'' # x)" by (rule Ext_split)
  then have "take (length (lj_filename l) - length (Ext (lj_filename l))) (lj_filename l) = p"
    by (metis add_diff_cancel_right' append_eq_conv_conj length_append)
  moreover have "\<not> prefix (p @ ''-'') (lj_filename l)"
    by (subst p(1)) (use p(2) in auto)
  ultimately show ?thesis by (simp add: logInfoOf_def prefixAndExt_def timeFromName_def Let_def)
qed

lemma timeFormat_nonempty [simp]: "timeFormat t \<noteq> []" "timeFormat t = x \<Longrightarrow> length x = 23"
  by (auto simp: timeFormat_def pad2_def)

text \<open>The name of a backup is recognised, with its time.\<close>

lemma logInfoOf_backupName:
  assumes "t = (if loc then ev_zone e (ev_now e) else ev_now e)" "civil_ok t"
  shows "logInfoOf l (backupName e (lj_filename l) loc) = Some (truncMilli t, backupName e (lj_filename l) loc)"
  using assms timeParse_timeFormat [of t]
  by (simp add: logInfoOf_def prefixAndExt_def timeFromName_def backupName_def Let_def suffix_def drop_append)

lemma backupName_neq: "backupName e (lj_filename l) loc \<noteq> lj_filename l"
proof
  assume eq: "backupName e (lj_filename l) loc = lj_filename l"
  obtain p where "lj_filename l = p @ Ext (lj_filename l)" by (rule Ext_split)
  then have "length (Ext (lj_filename l)) \<le> length (lj_filename l)" by (metis le_add2 length_append)
  moreover have "length (backupName e (lj_filename l) loc) = length (lj_filename l)" by (simp add: eq)
  ultimately show False by (simp add: backupName_def Let_def)
qed

section \<open>Sizes\<close>

definition lj_cfg :: "lumber \<Rightarrow> string \<times> string \<times> int \<times> int \<times> int \<times> bool" where
  "lj_cfg l = (lj_exe l, lj_Filename l, lj_MaxSize l, lj_MaxAge l, lj_MaxBackups l, lj_LocalTime l)"

lemma lj_cfg_cong:
  assumes "lj_cfg l' = lj_cfg l"
  shows "lj_filename l' = lj_filename l" "lj_max l' = lj_max l" "lj_LocalTime l' = lj_LocalTime l"
    "lj_MaxAge l' = lj_MaxAge l" "lj_MaxBackups l' = lj_MaxBackups l"
  using assms by (simp_all add: lj_cfg_def lj_filename_def lj_max_def)

lemma lj_cfg_upd [simp]: "lj_cfg (l\<lparr>lj_open := b\<rparr>) = lj_cfg l" "lj_cfg (l\<lparr>lj_size := z\<rparr>) = lj_cfg l" "lj_cfg (l\<lparr>lj_pending := ns\<rparr>) = lj_cfg l"
  by (simp_all add: lj_cfg_def)

lemmas lj_upd_simps [simp] = lj_cfg_upd [THEN lj_cfg_cong(1)] lj_cfg_upd [THEN lj_cfg_cong(2)]

definition lj_ok :: "lumber \<Rightarrow> disk \<Rightarrow> bool" where
  "lj_ok l d \<longleftrightarrow> distinct (map fst d) \<and> (\<forall>n c. map_of d n = Some c \<longrightarrow> int (length c) \<le> max 0 (lj_max l)) \<and>
     lj_filename l \<notin> set (lj_pending l) \<and>
     (lj_open l \<longrightarrow> (\<exists>c. map_of d (lj_filename l) = Some c \<and> lj_size l = int (length c)))"

lemmas disk_simps = AList.update_conv' AList.delete_conv'

lemma disk_distinct [intro]:
  "distinct (map fst d) \<Longrightarrow> distinct (map fst (AList.update n c d))" "distinct (map fst d) \<Longrightarrow> distinct (map fst (AList.delete n d))"
  by (simp_all add: distinct_update distinct_delete)

lemma lj_ok_update:
  "lj_ok l d \<Longrightarrow> \<not> lj_open l \<Longrightarrow> int (length c) \<le> max 0 (lj_max l) \<Longrightarrow> lj_ok l (AList.update n c d)"
  by (auto simp: lj_ok_def disk_simps distinct_update)

lemma lj_ok_delete: "lj_ok l d \<Longrightarrow> \<not> lj_open l \<or> n \<noteq> lj_filename l \<Longrightarrow> lj_ok l (AList.delete n d)"
  by (auto simp: lj_ok_def disk_simps distinct_delete)

lemma lj_ok_length: "lj_ok l d \<Longrightarrow> map_of d n = Some c \<Longrightarrow> int (length c) \<le> max 0 (lj_max l)"
  by (auto simp: lj_ok_def)

lemma createLog_ok:
  "lj_ok l d \<Longrightarrow> createLog e l d = (err, l', d') \<Longrightarrow> lj_ok l' d' \<and> lj_cfg l' = lj_cfg l"
  by (auto simp: createLog_def lj_ok_def disk_simps distinct_update split: if_splits)

lemma openNew_ok:
  assumes ok: "lj_ok l d" "\<not> lj_open l" and step: "openNew e l d = (err, l', d')"
  shows "lj_ok l' d' \<and> lj_cfg l' = lj_cfg l"
proof -
  let ?d = "\<lambda>c. AList.update (backupName e (lj_filename l) (lj_LocalTime l)) c (AList.delete (lj_filename l) d)"
  have moved: "lj_ok l (?d c)" if "map_of d (lj_filename l) = Some c" for c
    using lj_ok_update [OF lj_ok_delete [OF ok(1)] ok(2) lj_ok_length [OF ok(1) that]] ok(2) by blast
  have chowned: "lj_ok l (AList.update (lj_filename l) [] (?d c))" if "map_of d (lj_filename l) = Some c" for c
    by (rule lj_ok_update [OF moved [OF that] ok(2)]) simp
  show ?thesis
    using step ok moved chowned
    by (auto simp: openNew_def Let_def lj_chown_def split: if_splits option.splits prod.splits dest: createLog_ok)
qed

lemma set_map_filter_Some: "set (List.map_filter f xs) = {y. \<exists>x \<in> set xs. f x = Some y}"
  by (induction xs) (auto simp: map_filter_simps split: option.splits)

lemma logInfoOf_snd: "logInfoOf l n = Some f \<Longrightarrow> snd f = n"
  by (auto simp: logInfoOf_def Let_def split: prod.splits if_splits)

lemma set_oldLogFiles: "oldLogFiles e l d = Some fs \<Longrightarrow> set fs = {f. \<exists>n \<in> fst ` set d. logInfoOf l n = Some f}"
  by (auto simp: oldLogFiles_def set_map_filter_Some split: if_splits) force

lemma expiredLogs_subset: "set (expiredLogs e l fs) \<subseteq> set fs"
  by (auto simp: expiredLogs_def Let_def split: if_splits dest: in_set_takeD in_set_dropD)

lemma cleanup_ok:
  assumes "lj_ok l d" and "cleanup e l d = (err, l')"
  shows "lj_ok l' d \<and> lj_cfg l' = lj_cfg l"
proof -
  have "lj_filename l \<notin> snd ` set (expiredLogs e l fs)" if "oldLogFiles e l d = Some fs" for fs
    using set_oldLogFiles [OF that] expiredLogs_subset [of e l fs] logInfoOf_filename [of l] logInfoOf_snd [of l] by fastforce
  then show ?thesis using assms
    by (auto simp: cleanup_def lj_ok_def split: if_splits option.splits)
qed

lemma lj_close_ok:
  "lj_ok l d \<Longrightarrow> lj_close e l = (err, l') \<Longrightarrow> lj_ok l' d \<and> lj_cfg l' = lj_cfg l \<and> \<not> lj_open l'"
  by (auto simp: lj_close_def lj_ok_def split: if_splits)

text \<open>The ways through \<open>rotate\<close>.\<close>

lemma rotate_cases:
  assumes "rotate_log e l d = (err, l', d')"
  obtains (close) x where "lj_close e l = (Some x, l')" "err = Some x" "d' = d"
    | (openNew) l1 x where "lj_close e l = (None, l1)" "openNew e l1 d = (Some x, l', d')" "err = Some x"
    | (ok) l1 l2 where "lj_close e l = (None, l1)" "openNew e l1 d = (None, l2, d')" "cleanup e l2 d' = (err, l')"
  using assms unfolding rotate_log_def by (auto split: prod.splits option.splits)

lemma rotate_ok:
  assumes "lj_ok l d" and "rotate_log e l d = (err, l', d')"
  shows "lj_ok l' d' \<and> lj_cfg l' = lj_cfg l"
  using assms(2)
proof (cases rule: rotate_cases)
  case close
  with lj_close_ok [OF assms(1) close(1)] show ?thesis by simp
next
  case (openNew l1 x)
  with lj_close_ok [OF assms(1) openNew(1)] openNew_ok [OF _ _ openNew(2)] show ?thesis by simp
next
  case (ok l1 l2)
  note c = lj_close_ok [OF assms(1) ok(1)]
  then have "lj_ok l2 d' \<and> lj_cfg l2 = lj_cfg l1" using openNew_ok [OF _ _ ok(2)] by simp
  with c cleanup_ok [OF _ ok(3)] show ?thesis by simp
qed

lemma openExistingOrNew_ok:
  assumes "lj_ok l d" "\<not> lj_open l" and "openExistingOrNew e z l d = (err, l', d')"
  shows "lj_ok l' d' \<and> lj_cfg l' = lj_cfg l"
  using assms unfolding openExistingOrNew_def
  by (auto split: if_splits option.splits dest: rotate_ok openNew_ok) (auto simp: lj_ok_def)

lemma appendFile_ok:
  assumes "lj_ok l d" "lj_open l" "lj_size l + int (length p) \<le> lj_max l" and "appendFile e p l d = (n, err, l', d')"
  shows "lj_ok l' d' \<and> lj_cfg l' = lj_cfg l"
  using assms by (auto simp: lj_ok_def appendFile_def Let_def disk_simps distinct_update split: if_splits)

text \<open>After the file was opened for a write that fits a file at all, the write fits the file.\<close>

lemma openNew_size: "openNew e l d = (None, l', d') \<Longrightarrow> lj_open l' \<and> lj_size l' = 0"
  by (auto simp: openNew_def createLog_def Let_def split: if_splits option.splits prod.splits)

lemma cleanup_size: "cleanup e l d = (err, l') \<Longrightarrow> lj_open l' = lj_open l \<and> lj_size l' = lj_size l"
  by (auto simp: cleanup_def split: if_splits option.splits)

lemma rotate_size: "rotate_log e l d = (None, l', d') \<Longrightarrow> lj_open l' \<and> lj_size l' = 0"
  by (erule rotate_cases) (auto dest!: openNew_size cleanup_size)

lemma openExistingOrNew_size:
  assumes "openExistingOrNew e z l d = (None, l', d')" "z \<le> lj_max l"
  shows "lj_open l' \<and> lj_size l' + z \<le> lj_max l"
proof (cases "ev_fail e SysStatOpen")
  case False
  then show ?thesis using assms
    by (auto simp: openExistingOrNew_def split: option.splits if_splits dest: openNew_size rotate_size)
qed (use assms in \<open>simp add: openExistingOrNew_def\<close>)

lemma openNew_cfg: "openNew e l d = (err, l', d') \<Longrightarrow> lj_cfg l' = lj_cfg l"
  by (auto simp: openNew_def createLog_def Let_def split: if_splits option.splits prod.splits)

lemma rotate_cfg: "rotate_log e l d = (err, l', d') \<Longrightarrow> lj_cfg l' = lj_cfg l"
  by (erule rotate_cases) (auto simp: lj_close_def cleanup_def split: if_splits option.splits dest!: openNew_cfg)

lemma openExistingOrNew_cfg: "openExistingOrNew e z l d = (err, l', d') \<Longrightarrow> lj_cfg l' = lj_cfg l"
  by (auto simp: openExistingOrNew_def split: if_splits option.splits dest: openNew_cfg rotate_cfg)

text \<open>The ways through \<open>Write\<close>: the second rotation never follows an opening.\<close>

lemma lj_Write_cases:
  assumes "lj_Write e p l d = (n, err, l', d')"
  obtains (long) "int (length p) > lj_max l" "n = 0" "err = Some ErrTooLong" "l' = l" "d' = d"
    | (openErr) x where "\<not> lj_open l" "openExistingOrNew e (int (length p)) l d = (Some x, l', d')" "n = 0" "err = Some x"
    | (opened) l1 d1 where "int (length p) \<le> lj_max l" "\<not> lj_open l" "openExistingOrNew e (int (length p)) l d = (None, l1, d1)"
        "appendFile e p l1 d1 = (n, err, l', d')"
    | (rotErr) x where "lj_open l" "lj_size l + int (length p) > lj_max l" "rotate_log e l d = (Some x, l', d')" "n = 0" "err = Some x"
    | (rotated) l1 d1 where "int (length p) \<le> lj_max l" "lj_open l" "lj_size l + int (length p) > lj_max l" "rotate_log e l d = (None, l1, d1)"
        "appendFile e p l1 d1 = (n, err, l', d')"
    | (room) "lj_open l" "lj_size l + int (length p) \<le> lj_max l" "appendFile e p l d = (n, err, l', d')"
proof (cases "int (length p) > lj_max l \<or> lj_open l")
  case True
  then show thesis
    using assms long rotErr rotated room by (auto simp: lj_Write_def Let_def split: if_splits prod.splits option.splits)
next
  case False
  obtain x l1 d1 where o: "openExistingOrNew e (int (length p)) l d = (x, l1, d1)" by (metis prod_cases3)
  show thesis
  proof (cases x)
    case None
    have c: "int (length p) \<le> lj_max l" "\<not> lj_open l" using False by auto
    have "\<not> lj_size l1 + int (length p) > lj_max l" using openExistingOrNew_size [OF o [unfolded None] c(1)] by simp
    moreover have "lj_max l1 = lj_max l" by (rule lj_cfg_cong(2) [OF openExistingOrNew_cfg [OF o]])
    ultimately show thesis using assms opened [OF c o [unfolded None]] False o None
      by (simp add: lj_Write_def Let_def)
  next
    case (Some y)
    then show thesis using assms openErr False o by (simp add: lj_Write_def Let_def)
  qed
qed

lemma lj_Write_ok:
  assumes "lj_ok l d" and "lj_Write e p l d = (n, err, l', d')"
  shows "lj_ok l' d' \<and> lj_cfg l' = lj_cfg l"
  using assms(2)
proof (cases rule: lj_Write_cases)
  case long
  then show ?thesis using assms(1) by simp
next
  case (openErr x)
  then show ?thesis using openExistingOrNew_ok [OF assms(1)] by blast
next
  case (opened l1 d1)
  have "lj_ok l1 d1 \<and> lj_cfg l1 = lj_cfg l" by (rule openExistingOrNew_ok [OF assms(1) opened(2,3)])
  then show ?thesis
    using appendFile_ok [OF _ _ _ opened(4)] openExistingOrNew_size [OF opened(3,1)] lj_cfg_cong(2) [of l1 l] by simp
next
  case (rotErr x)
  then show ?thesis using rotate_ok [OF assms(1)] by blast
next
  case (rotated l1 d1)
  have "lj_ok l1 d1 \<and> lj_cfg l1 = lj_cfg l" by (rule rotate_ok [OF assms(1) rotated(4)])
  then show ?thesis
    using appendFile_ok [OF _ _ _ rotated(5)] rotate_size [OF rotated(4)] rotated(1) lj_cfg_cong(2) [of l1 l] by simp
next
  case room
  then show ?thesis using appendFile_ok [OF assms(1)] by blast
qed

text \<open>The calls on a logger and the rounds of its deleting goroutines, in any order, whatever fails.\<close>

inductive lumber_run :: "lumber \<Rightarrow> disk \<Rightarrow> lumber \<Rightarrow> disk \<Rightarrow> bool" where
  lr_new: "\<not> lj_open l \<Longrightarrow> lj_pending l = [] \<Longrightarrow> lumber_run l d l d"
| lr_Write: "lumber_run l0 d0 l d \<Longrightarrow> lj_Write e p l d = (n, err, l', d') \<Longrightarrow> lumber_run l0 d0 l' d'"
| lr_Rotate: "lumber_run l0 d0 l d \<Longrightarrow> rotate_log e l d = (err, l', d') \<Longrightarrow> lumber_run l0 d0 l' d'"
| lr_Close: "lumber_run l0 d0 l d \<Longrightarrow> lj_close e l = (err, l') \<Longrightarrow> lumber_run l0 d0 l' d"
| lr_delete: "lumber_run l0 d0 l d \<Longrightarrow> deleteAll_step e n (l, d) = (l', d') \<Longrightarrow> lumber_run l0 d0 l' d'"

lemma deleteAll_step_ok:
  assumes "lj_ok l d" and "deleteAll_step e n (l, d) = (l', d')"
  shows "lj_ok l' d' \<and> lj_cfg l' = lj_cfg l"
proof (cases "n \<in> set (lj_pending l)")
  case True
  have "lj_ok (l\<lparr>lj_pending := remove1 n (lj_pending l)\<rparr>) d" using assms(1) set_remove1_subset [of n "lj_pending l"] by (auto simp: lj_ok_def)
  moreover have "n \<noteq> lj_filename l" using True assms(1) by (auto simp: lj_ok_def)
  ultimately show ?thesis using assms(2) True lj_ok_delete [of "l\<lparr>lj_pending := remove1 n (lj_pending l)\<rparr>" d n]
    by (auto simp: deleteAll_step_def split: if_splits)
qed (use assms in \<open>simp add: deleteAll_step_def\<close>)

lemma lumber_run_ok:
  "lumber_run l0 d0 l d \<Longrightarrow> distinct (map fst d0) \<Longrightarrow> \<forall>(n, c) \<in> set d0. int (length c) \<le> max 0 (lj_max l0) \<Longrightarrow>
   lj_ok l d \<and> lj_cfg l = lj_cfg l0"
proof (induction rule: lumber_run.induct)
  case (lr_new l d)
  then show ?case by (auto simp: lj_ok_def dest: map_of_SomeD)
next
  case lr_Write
  then show ?case using lj_Write_ok [OF _ lr_Write.hyps(2)] by simp
next
  case lr_Rotate
  then show ?case using rotate_ok [OF _ lr_Rotate.hyps(2)] by simp
next
  case lr_Close
  then show ?case using lj_close_ok [OF _ lr_Close.hyps(2)] by auto
next
  case lr_delete
  then show ?case using deleteAll_step_ok [OF _ lr_delete.hyps(2)] by simp
qed

text \<open>No log file grows beyond the limit.\<close>

lemma lumber_bounded:
  assumes "lumber_run l0 d0 l d" "distinct (map fst d0)" "\<forall>(n, c) \<in> set d0. int (length c) \<le> max 0 (lj_max l0)"
  shows "\<forall>(n, c) \<in> set d. int (length c) \<le> max 0 (lj_max l0)"
proof -
  have ok: "lj_ok l d" "lj_cfg l = lj_cfg l0" using lumber_run_ok [OF assms] by simp_all
  then have "distinct (map fst d)" by (simp add: lj_ok_def)
  then show ?thesis using lj_ok_length [OF ok(1)] lj_cfg_cong(2) [OF ok(2)] by fastforce
qed

section \<open>Nothing is lost\<close>

definition quiet :: "sysEnv \<Rightarrow> bool" where
  "quiet e \<longleftrightarrow> (\<forall>c. \<not> ev_fail e c)"

definition contents :: "disk \<Rightarrow> string \<Rightarrow> bytes" where
  "contents d n = (case map_of d n of Some c \<Rightarrow> c | None \<Rightarrow> [])"

definition lj_backup :: "sysEnv \<Rightarrow> lumber \<Rightarrow> string" where
  "lj_backup e l = backupName e (lj_filename l) (lj_LocalTime l)"

lemma lj_backup_neq [simp]: "lj_backup e l \<noteq> lj_filename l" "lj_filename l \<noteq> lj_backup e l"
  using backupName_neq [of e l "lj_LocalTime l"] by (simp_all add: lj_backup_def)

lemma lj_backup_cfg:
  assumes "lj_cfg l' = lj_cfg l" shows "lj_backup e l' = lj_backup e l"
  unfolding lj_backup_def lj_cfg_cong(1) [OF assms] lj_cfg_cong(3) [OF assms] ..

text \<open>What a directory holds after the current file was put aside, or was not there.\<close>

definition put_aside :: "sysEnv \<Rightarrow> lumber \<Rightarrow> disk \<Rightarrow> string \<Rightarrow> bytes option" where
  "put_aside e l d = (case map_of d (lj_filename l) of
     None \<Rightarrow> (map_of d)(lj_filename l \<mapsto> []) | Some c \<Rightarrow> (map_of d)(lj_backup e l \<mapsto> c, lj_filename l \<mapsto> []))"

lemma put_aside_cfg:
  assumes "lj_cfg l' = lj_cfg l" shows "put_aside e l' d = put_aside e l d"
  unfolding put_aside_def lj_backup_cfg [OF assms] lj_cfg_cong(1) [OF assms] ..

lemma quietD: "quiet e \<Longrightarrow> ev_fail e c = False"
  by (simp add: quiet_def)

lemma openNew_quiet:
  assumes "quiet e"
  shows "\<exists>l' d'. openNew e l d = (None, l', d') \<and> map_of d' = put_aside e l d"
proof (cases "map_of d (lj_filename l)")
  case None
  then show ?thesis
    by (simp add: openNew_def createLog_def put_aside_def disk_simps quietD [OF assms])
next
  case (Some c)
  let ?b = "backupName e (lj_filename l) (lj_LocalTime l)"
  have "openNew e l d = createLog e l (AList.update (lj_filename l) [] (AList.update ?b c (AList.delete (lj_filename l) d)))"
    by (simp add: openNew_def Let_def Some lj_chown_def quietD [OF assms])
  moreover have "(map_of d)(lj_filename l := None, ?b \<mapsto> c, lj_filename l \<mapsto> []) = (map_of d)(?b \<mapsto> c, lj_filename l \<mapsto> [])"
    by (simp add: fun_eq_iff)
  ultimately show ?thesis
    by (simp add: createLog_def put_aside_def Some disk_simps quietD [OF assms] lj_backup_def)
qed

lemma rotate_quiet:
  assumes "quiet e"
  shows "\<exists>l' d'. rotate_log e l d = (None, l', d') \<and> map_of d' = put_aside e l d"
proof -
  obtain l1 where c: "lj_close e l = (None, l1)" "lj_cfg l1 = lj_cfg l"
    by (cases "lj_open l") (simp_all add: lj_close_def quietD [OF assms])
  obtain l2 d' where o: "openNew e l1 d = (None, l2, d')" "map_of d' = put_aside e l1 d"
    using openNew_quiet [OF assms] by blast
  obtain l3 where "cleanup e l2 d' = (None, l3)" using quietD [OF assms, of SysReadDir]
    by (cases "lj_MaxBackups l2 = 0 \<and> lj_MaxAge l2 = 0") (auto simp: cleanup_def oldLogFiles_def)
  with c(1) o show ?thesis by (simp add: rotate_log_def put_aside_cfg [OF c(2)])
qed

text \<open>Whether a write starts with a rotation of a file that exists.\<close>

definition rotates :: "nat \<Rightarrow> lumber \<Rightarrow> disk \<Rightarrow> bool" where
  "rotates len l d =
     (if lj_open l then lj_size l + int len > lj_max l
      else case map_of d (lj_filename l) of None \<Rightarrow> False | Some c \<Rightarrow> int (length c) + int len \<ge> lj_max l)"

text \<open>The directory after the file is open for the write: rotated, created, or as it was.\<close>

definition made_room :: "sysEnv \<Rightarrow> nat \<Rightarrow> lumber \<Rightarrow> disk \<Rightarrow> string \<Rightarrow> bytes option" where
  "made_room e len l d =
     (if rotates len l d \<or> map_of d (lj_filename l) = None then put_aside e l d else map_of d)"

lemma openExistingOrNew_quiet:
  assumes "quiet e" "\<not> lj_open l"
  shows "\<exists>l' d'. openExistingOrNew e (int len) l d = (None, l', d') \<and> map_of d' = made_room e len l d"
proof (cases "map_of d (lj_filename l)")
  case None
  then show ?thesis using openNew_quiet [OF assms(1), of l d]
    by (simp add: openExistingOrNew_def made_room_def quietD [OF assms(1)])
next
  case (Some c)
  then show ?thesis using rotate_quiet [OF assms(1), of l d] assms(2)
    by (cases "int (length c) + int len \<ge> lj_max l")
      (simp_all add: openExistingOrNew_def made_room_def rotates_def quietD [OF assms(1)])
qed

lemma appendFile_quiet:
  assumes "quiet e"
  shows "\<exists>l' d'. appendFile e p l d = (length p, None, l', d') \<and> map_of d' = (map_of d)(lj_filename l \<mapsto> contents d (lj_filename l) @ p)"
  using assms by (simp add: appendFile_def quiet_def Let_def disk_simps contents_def)

text \<open>Without failing calls a write that fits a file succeeds, and appends to the file that has room.\<close>

lemma lj_Write_quiet:
  assumes "quiet e" "int (length p) \<le> lj_max l" "lj_ok l d"
  shows "\<exists>l' d' d1. lj_Write e p l d = (length p, None, l', d') \<and> map_of d1 = made_room e (length p) l d \<and>
    map_of d' = (map_of d1)(lj_filename l \<mapsto> contents d1 (lj_filename l) @ p)"
proof -
  have "\<exists>l1 d1. lj_Write e p l d = appendFile e p l1 d1 \<and> lj_cfg l1 = lj_cfg l \<and> map_of d1 = made_room e (length p) l d"
  proof (cases "lj_open l")
    case True
    obtain l1 d1 where r: "rotate_log e l d = (None, l1, d1)" "map_of d1 = put_aside e l d"
      using rotate_quiet [OF assms(1)] by blast
    have "map_of d (lj_filename l) \<noteq> None" using assms(3) True by (auto simp: lj_ok_def)
    then show ?thesis using assms(2) True r rotate_cfg [OF r(1)]
      by (cases "lj_size l + int (length p) > lj_max l") (auto simp: lj_Write_def made_room_def rotates_def)
  next
    case False
    obtain l1 d1 where 1: "openExistingOrNew e (int (length p)) l d = (None, l1, d1)" "map_of d1 = made_room e (length p) l d"
      using openExistingOrNew_quiet [OF assms(1) False] by blast
    note c = openExistingOrNew_cfg [OF 1(1)]
    have "\<not> lj_size l1 + int (length p) > lj_max l1"
      using openExistingOrNew_size [OF 1(1) assms(2)] lj_cfg_cong(2) [OF c] by simp
    then have "lj_Write e p l d = appendFile e p l1 d1" using assms(2) False by (simp add: lj_Write_def 1(1))
    with c 1(2) show ?thesis by blast
  qed
  then obtain l1 d1 where 1: "lj_Write e p l d = appendFile e p l1 d1" "lj_cfg l1 = lj_cfg l" "map_of d1 = made_room e (length p) l d"
    by blast
  with appendFile_quiet [OF assms(1), of p l1 d1] show ?thesis unfolding lj_cfg_cong(1) [OF 1(2)] by metis
qed

text \<open>The log as one text: the backups in their order, then the current file.\<close>

definition journal :: "lumber \<Rightarrow> string list \<Rightarrow> disk \<Rightarrow> bytes" where
  "journal l bs d = concat (map (contents d) (bs @ [lj_filename l]))"

lemma journal_split: "journal l bs d = concat (map (contents d) bs) @ contents d (lj_filename l)"
  by (simp add: journal_def)

text \<open>The backup a write makes.\<close>

definition newBackup :: "sysEnv \<Rightarrow> bytes \<Rightarrow> lumber \<Rightarrow> disk \<Rightarrow> string list" where
  "newBackup e p l d = (if rotates (length p) l d then [lj_backup e l] else [])"

lemma rotates_exists: "lj_ok l d \<Longrightarrow> rotates len l d \<Longrightarrow> \<exists>c. map_of d (lj_filename l) = Some c"
  by (auto simp: rotates_def lj_ok_def split: if_splits option.splits)

lemma journal_made_room:
  assumes "map_of d1 = made_room e (length p) l d" "lj_filename l \<notin> set bs" "set (newBackup e p l d) \<inter> set bs = {}" "lj_ok l d"
  shows "journal l (bs @ newBackup e p l d) d1 = journal l bs d"
proof -
  have "contents d1 b = contents d b" if "b \<in> set bs" for b
    using that assms rotates_exists [OF assms(4)]
    by (auto simp: contents_def made_room_def put_aside_def newBackup_def split: option.splits if_splits)
  then have mem: "map (contents d1) bs = map (contents d) bs" by simp
  show ?thesis
  proof (cases "rotates (length p) l d")
    case True
    with rotates_exists [OF assms(4)] obtain c where "map_of d (lj_filename l) = Some c" by blast
    then show ?thesis using True
      by (simp add: journal_def mem newBackup_def) (simp add: contents_def assms(1) made_room_def put_aside_def)
  next
    case False
    then show ?thesis
      by (cases "map_of d (lj_filename l)")
        (simp_all add: journal_def mem newBackup_def, simp_all add: contents_def assms(1) made_room_def put_aside_def)
  qed
qed

lemma journal_Write:
  assumes "quiet e" "int (length p) \<le> lj_max l" "lj_ok l d" "lj_filename l \<notin> set bs" "set (newBackup e p l d) \<inter> set bs = {}"
  shows "\<exists>l' d'. lj_Write e p l d = (length p, None, l', d') \<and> journal l (bs @ newBackup e p l d) d' = journal l bs d @ p"
proof -
  let ?bs = "bs @ newBackup e p l d"
  obtain l' d' d1 where w: "lj_Write e p l d = (length p, None, l', d')" "map_of d1 = made_room e (length p) l d"
      "map_of d' = (map_of d1)(lj_filename l \<mapsto> contents d1 (lj_filename l) @ p)"
    using lj_Write_quiet [OF assms(1-3)] by blast
  have "concat (map (contents d') ?bs) = concat (map (contents d1) ?bs)"
    by (rule arg_cong [where f = concat], rule map_cong) (use assms(4) w(3) in \<open>auto simp: contents_def newBackup_def split: if_splits\<close>)
  moreover have "contents d' (lj_filename l) = contents d1 (lj_filename l) @ p" by (simp add: contents_def w(3))
  ultimately have "journal l ?bs d' = journal l ?bs d1 @ p"
    by (simp only: journal_split append_assoc)
  with w(1) journal_made_room [OF w(2) assms(4,5,3)] show ?thesis by simp
qed

text \<open>Backups made at different milliseconds have different names.\<close>

lemma lj_backup_inj:
  assumes "lj_backup e1 l = lj_backup e2 l" "\<not> lj_LocalTime l" "civil_ok (ev_now e1)" "civil_ok (ev_now e2)"
  shows "truncMilli (ev_now e1) = truncMilli (ev_now e2)"
  using logInfoOf_backupName [of "ev_now e1" False e1 l] logInfoOf_backupName [of "ev_now e2" False e2 l] assms
  by (simp add: lj_backup_def)

text \<open>A sequence of writes, each in its environment.\<close>

fun lj_Writes :: "(sysEnv \<times> bytes) list \<Rightarrow> lumber \<Rightarrow> disk \<Rightarrow> lumber \<times> disk" where
  "lj_Writes [] l d = (l, d)"
| "lj_Writes ((e, p) # ws) l d = (case lj_Write e p l d of (_, _, l, d) \<Rightarrow> lj_Writes ws l d)"

lemma lj_Write_cfg:
  assumes "lj_Write e p l d = (n, err, l', d')" shows "lj_cfg l' = lj_cfg l"
  using assms
  by (cases rule: lj_Write_cases) (auto simp: appendFile_def Let_def dest: openExistingOrNew_cfg rotate_cfg)

lemma journal_cfg:
  assumes "lj_cfg l' = lj_cfg l" shows "journal l' bs d = journal l bs d"
  unfolding journal_def lj_cfg_cong(1) [OF assms] ..

text \<open>The backups that a sequence of writes makes.\<close>

fun newBackups :: "(sysEnv \<times> bytes) list \<Rightarrow> lumber \<Rightarrow> disk \<Rightarrow> string list" where
  "newBackups [] l d = []"
| "newBackups ((e, p) # ws) l d = newBackup e p l d @ (case lj_Write e p l d of (_, _, l, d) \<Rightarrow> newBackups ws l d)"

text \<open>Without failures, and with rotations in different milliseconds, the backups in the order of their
  making and the current file together are what was there and what was written.\<close>

lemma journal_Writes:
  assumes "\<forall>(e, p) \<in> set ws. quiet e \<and> int (length p) \<le> lj_max l" "lj_ok l d"
    "lj_filename l \<notin> set bs" "distinct (newBackups ws l d)" "set (newBackups ws l d) \<inter> set bs = {}"
  shows "journal l (bs @ newBackups ws l d) (snd (lj_Writes ws l d)) = journal l bs d @ concat (map snd ws)"
  using assms
proof (induction ws arbitrary: l d bs)
  case Nil
  then show ?case by simp
next
  case (Cons w ws)
  obtain e p where w: "w = (e, p)" by fastforce
  obtain l' d' where 1: "lj_Write e p l d = (length p, None, l', d')"
      "journal l (bs @ newBackup e p l d) d' = journal l bs d @ p"
    using journal_Write [of e p l d bs] Cons.prems w by auto
  have ok: "lj_ok l' d'" and cfg: "lj_cfg l' = lj_cfg l" using lj_Write_ok [OF Cons.prems(2) 1(1)] by simp_all
  note same = lj_cfg_cong(1,2) [OF cfg] journal_cfg [OF cfg]
  have "journal l' ((bs @ newBackup e p l d) @ newBackups ws l' d') (snd (lj_Writes ws l' d')) =
      journal l' (bs @ newBackup e p l d) d' @ concat (map snd ws)"
    by (rule Cons.IH) (use Cons.prems ok w 1(1) in \<open>auto simp: same newBackup_def\<close>)
  then show ?case using 1 w unfolding same by simp
qed

section \<open>Which backups are deleted\<close>

lemma in_set_drop_desc:
  fixes key :: "'a \<Rightarrow> nat"
  assumes "sorted_wrt (\<lambda>a b. key b < key a) xs"
  shows "x \<in> set (drop n xs) \<longleftrightarrow> x \<in> set xs \<and> n \<le> card {y \<in> set xs. key x < key y}"
  using assms
proof (induction xs arbitrary: n)
  case (Cons a xs)
  have top: "key y < key a" if "y \<in> set xs" for y using Cons.prems that by simp
  have none: "{y \<in> set (a # xs). key a < key y} = {}" using top by fastforce
  have eq: "{y \<in> set (a # xs). key x < key y} = insert a {y \<in> set xs. key x < key y}" if "x \<in> set xs" using top [OF that] by auto
  have card: "card {y \<in> set (a # xs). key x < key y} = Suc (card {y \<in> set xs. key x < key y})" if "x \<in> set xs"
    unfolding eq [OF that] by (subst card_insert_disjoint) (use top in auto)
  show ?case
  proof (cases n)
    case (Suc m)
    show ?thesis
    proof (cases "x \<in> set xs")
      case True
      then show ?thesis using Cons.IH [of m] Cons.prems card [OF True] Suc by simp
    next
      case False
      have "x \<notin> set (drop n (a # xs))" using False Suc by (auto dest: in_set_dropD)
      moreover have "x \<notin> set (a # xs) \<or> card {y \<in> set (a # xs). key x < key y} = 0"
      proof (cases "x = a")
        case True
        show ?thesis unfolding True none by simp
      qed (use False in simp)
      ultimately show ?thesis using Suc by (metis Suc_le_eq not_less_zero)
    qed
  qed simp
qed simp

lemma set_expiredLogs:
  "set (expiredLogs e l fs) = {f \<in> set fs. (0 < lj_MaxBackups l \<and> f \<in> set (drop (nat (lj_MaxBackups l)) fs)) \<or>
     (0 < lj_MaxAge l \<and> stamp (fst f) < stamp (cutoff e l))}"
proof (cases "0 < lj_MaxBackups l \<and> lj_MaxBackups l < int (length fs)")
  case True
  have "set fs = set (take (nat (lj_MaxBackups l)) fs) \<union> set (drop (nat (lj_MaxBackups l)) fs)"
    by (metis append_take_drop_id set_append)
  then show ?thesis using True by (auto simp: expiredLogs_def Let_def)
next
  case False
  then show ?thesis by (auto simp: expiredLogs_def Let_def)
qed

lemma sorted_desc:
  assumes "sorted (map (\<lambda>f. - int (key f)) xs)" "inj_on key (set xs)" "distinct xs"
  shows "sorted_wrt (\<lambda>a b. key b < key a) xs"
  using assms
proof (induction xs)
  case (Cons a xs)
  have "key b < key a" if b: "b \<in> set xs" for b
  proof -
    have "key b \<le> key a" using Cons.prems(1) b by auto
    moreover have "key b \<noteq> key a" using Cons.prems(2,3) b by (metis distinct.simps(2) inj_onD list.set_intros)
    ultimately show ?thesis by simp
  qed
  with Cons show ?case by simp
qed simp

lemma distinct_map_filter:
  "distinct xs \<Longrightarrow> (\<And>x y. f x = Some y \<Longrightarrow> g y = x) \<Longrightarrow> distinct (List.map_filter f xs)"
  by (induction xs) (auto simp: map_filter_simps set_map_filter_Some split: option.splits)

text \<open>\<open>cleanup\<close> gives up exactly the backups that are older than \<open>MaxAge\<close> days or have \<open>MaxBackups\<close>
  newer ones, where a limit of zero is none.\<close>

lemma cleanup_exact:
  assumes ok: "distinct (map fst d)" "\<not> ev_fail e SysReadDir"
    and inj: "inj_on (\<lambda>f. stamp (fst f)) {f. \<exists>n \<in> fst ` set d. logInfoOf l n = Some f}"
    and cl: "cleanup e l d = (err, l')"
  shows "err = None \<and> (\<exists>dels. lj_pending l' = lj_pending l @ dels \<and>
    (\<forall>n. n \<in> set dels \<longleftrightarrow> n \<in> fst ` set d \<and> (\<exists>t. logInfoOf l n = Some (t, n) \<and>
      (0 < lj_MaxAge l \<and> stamp t < stamp (cutoff e l) \<or>
       0 < lj_MaxBackups l \<and> lj_MaxBackups l \<le> int (card {f. \<exists>m \<in> fst ` set d. logInfoOf l m = Some f \<and> stamp t < stamp (fst f)})))))"
proof (cases "lj_MaxBackups l = 0 \<and> lj_MaxAge l = 0")
  case True
  then show ?thesis using cl by (auto simp: cleanup_def)
next
  case False
  obtain fs where fs: "oldLogFiles e l d = Some fs" using ok by (simp add: oldLogFiles_def)
  have sorted: "sorted (map (\<lambda>f. - int (stamp (fst f))) fs)" using fs by (auto simp: oldLogFiles_def split: if_splits)
  have dist: "distinct fs" using fs distinct_map_filter [OF ok(1), of "logInfoOf l" snd] logInfoOf_snd [of l]
    by (auto simp: oldLogFiles_def split: if_splits)
  have set: "set fs = {f. \<exists>n \<in> fst ` set d. logInfoOf l n = Some f}" by (rule set_oldLogFiles [OF fs])
  have desc: "sorted_wrt (\<lambda>a b. stamp (fst b) < stamp (fst a)) fs"
    using sorted_desc [OF sorted] inj dist unfolding set by blast
  have newer: "{y \<in> set fs. stamp t < stamp (fst y)} = {f. \<exists>m \<in> fst ` set d. logInfoOf l m = Some f \<and> stamp t < stamp (fst f)}" for t
    unfolding set by auto
  have mem: "n \<in> snd ` set (expiredLogs e l fs) \<longleftrightarrow> (\<exists>t. (t, n) \<in> set (expiredLogs e l fs))" for n by force
  have info: "(t, n) \<in> set fs \<longleftrightarrow> n \<in> fst ` set d \<and> logInfoOf l n = Some (t, n)" for t n
  proof -
    have "logInfoOf l m = Some (t, n) \<Longrightarrow> m = n" for m using logInfoOf_snd [of l m "(t, n)"] by simp
    then show ?thesis unfolding set by blast
  qed
  have one: "(t, n) \<in> set (expiredLogs e l fs) \<longleftrightarrow> (n \<in> fst ` set d \<and> logInfoOf l n = Some (t, n)) \<and>
      (0 < lj_MaxAge l \<and> stamp t < stamp (cutoff e l) \<or>
       0 < lj_MaxBackups l \<and> lj_MaxBackups l \<le> int (card {f. \<exists>m \<in> fst ` set d. logInfoOf l m = Some f \<and> stamp t < stamp (fst f)}))" for t n
    unfolding set_expiredLogs mem_Collect_eq fst_conv in_set_drop_desc [OF desc] newer info nat_le_iff by blast
  have "n \<in> snd ` set (expiredLogs e l fs) \<longleftrightarrow> n \<in> fst ` set d \<and> (\<exists>t. logInfoOf l n = Some (t, n) \<and>
      (0 < lj_MaxAge l \<and> stamp t < stamp (cutoff e l) \<or>
       0 < lj_MaxBackups l \<and> lj_MaxBackups l \<le> int (card {f. \<exists>m \<in> fst ` set d. logInfoOf l m = Some f \<and> stamp t < stamp (fst f)})))" for n
    unfolding mem one by blast
  then show ?thesis using cl False fs by (auto simp: cleanup_def)
qed

end
