(* ===== verification/Log.thy ===== *)
theory Log
  imports Lumberjack
begin

text \<open>
  Logging (\<open>xlog/logger.go\<close>, \<open>stdlog.go\<close>): the levels, and the logger that hands lines through a
  channel to one goroutine, which writes them to the rotating file of \<open>Lumberjack\<close>. A round of that
  goroutine's loop is one step; the case its \<open>select\<close> takes is an argument, and a case that is not
  ready leaves the state as it is.
\<close>

section \<open>The asynchronous logger\<close>

datatype writerAt = Running | Draining | Ended

record logger =
  lg_input :: "bytes list"
  lg_qsize :: nat
  lg_closed :: bool
  lg_at :: writerAt
  lg_lj :: lumber
  lg_disk :: disk
  lg_blockCount :: u64
  lg_logCount :: u64
  lg_logBytes :: u64

definition NewLogger :: "string \<Rightarrow> string \<Rightarrow> int \<Rightarrow> int \<Rightarrow> int \<Rightarrow> nat \<Rightarrow> disk \<Rightarrow> logger" where
  "NewLogger exe fname msize mage mbackups qsize d =
     \<lparr>lg_input = [], lg_qsize = qsize, lg_closed = False, lg_at = Running,
      lg_lj = \<lparr>lj_exe = exe, lj_Filename = fname, lj_MaxSize = msize, lj_MaxAge = mage, lj_MaxBackups = mbackups,
               lj_LocalTime = False, lj_size = 0, lj_open = False, lj_pending = []\<rparr>,
      lg_disk = d, lg_blockCount = 0, lg_logCount = 0, lg_logBytes = 0\<rparr>"



definition realWrite :: "sysEnv \<Rightarrow> bytes \<Rightarrow> logger \<Rightarrow> logger" where
  "realWrite e p s = (case lj_Write e p (lg_lj s) (lg_disk s) of (_, _, l, d) \<Rightarrow> s\<lparr>lg_lj := l, lg_disk := d\<rparr>)"


definition BlockCount :: "logger \<Rightarrow> u64" where "BlockCount s = lg_blockCount s"
definition LogCount :: "logger \<Rightarrow> u64" where "LogCount s = lg_logCount s"
definition LogBytes :: "logger \<Rightarrow> u64" where "LogBytes s = lg_logBytes s"

section \<open>Levels\<close>

definition offLog :: int where "offLog = 0"
definition debugLog :: int where "debugLog = 1"
definition infoLog :: int where "infoLog = 2"
definition warnLog :: int where "warnLog = 3"
definition errorLog :: int where "errorLog = 4"
definition fatalLog :: int where "fatalLog = 5"

definition logName :: "int \<Rightarrow> string" where
  "logName lvl = (if lvl = debugLog then ''[DEBUG] '' else if lvl = infoLog then ''[INFO] '' else if lvl = warnLog then ''[WARN] ''
     else if lvl = errorLog then ''[ERROR] '' else if lvl = fatalLog then ''[FATAL] '' else [])"

record logConfig =
  LogLevel :: int
  logToConsole :: bool
  logToFile :: bool \<comment> \<open>\<open>std\<close> is not nil\<close>

text \<open>What \<open>output\<close> hands to the file logger and to the console: prefix, depth of the caller and text.
  The time and the formatted text are arguments.\<close>

datatype sink = ToFile | ToConsole

definition log_output :: "logConfig \<Rightarrow> string \<Rightarrow> int \<Rightarrow> int \<Rightarrow> string \<Rightarrow> (sink \<times> string \<times> int \<times> string) list" where
  "log_output cfg now lvl skip str =
     (let preFix = logName lvl @ now in
      (if logToFile cfg then [(ToFile, preFix, skip + 3, str)] else []) @
      (if logToConsole cfg then [(ToConsole, preFix, skip + 3, str)] else []))"

definition Log_Debug :: "logConfig \<Rightarrow> string \<Rightarrow> string \<Rightarrow> (sink \<times> string \<times> int \<times> string) list" where
  "Log_Debug cfg now str = (if LogLevel cfg > debugLog then [] else log_output cfg now debugLog 0 str)"
definition Log_Info :: "logConfig \<Rightarrow> string \<Rightarrow> string \<Rightarrow> (sink \<times> string \<times> int \<times> string) list" where
  "Log_Info cfg now str = (if LogLevel cfg > infoLog then [] else log_output cfg now infoLog 0 str)"
definition Log_Warn :: "logConfig \<Rightarrow> string \<Rightarrow> string \<Rightarrow> (sink \<times> string \<times> int \<times> string) list" where
  "Log_Warn cfg now str = (if LogLevel cfg > warnLog then [] else log_output cfg now warnLog 0 str)"
definition Log_Error :: "logConfig \<Rightarrow> string \<Rightarrow> string \<Rightarrow> (sink \<times> string \<times> int \<times> string) list" where
  "Log_Error cfg now str = (if LogLevel cfg > errorLog then [] else log_output cfg now errorLog 0 str)"
definition Log_Fatal :: "logConfig \<Rightarrow> string \<Rightarrow> string \<Rightarrow> (sink \<times> string \<times> int \<times> string) list" where
  "Log_Fatal cfg now str = (if LogLevel cfg > fatalLog then [] else log_output cfg now fatalLog 0 str)"
definition ErrorfSkip :: "logConfig \<Rightarrow> string \<Rightarrow> int \<Rightarrow> string \<Rightarrow> (sink \<times> string \<times> int \<times> string) list" where
  "ErrorfSkip cfg now skip str = (if LogLevel cfg > errorLog then [] else log_output cfg now errorLog skip str)"
definition DebugfSkip :: "logConfig \<Rightarrow> string \<Rightarrow> int \<Rightarrow> string \<Rightarrow> (sink \<times> string \<times> int \<times> string) list" where
  "DebugfSkip cfg now skip str = (if LogLevel cfg > errorLog then [] else log_output cfg now debugLog skip str)"
definition InfofSkip :: "logConfig \<Rightarrow> string \<Rightarrow> int \<Rightarrow> string \<Rightarrow> (sink \<times> string \<times> int \<times> string) list" where
  "InfofSkip cfg now skip str = (if LogLevel cfg > errorLog then [] else log_output cfg now infoLog skip str)"

text \<open>\<open>preParseArg\<close>: the first argument that contains the flag, cut at its equality signs.\<close>

fun fieldsEq :: "string \<Rightarrow> string \<Rightarrow> string list" where
  "fieldsEq acc [] = (if acc = [] then [] else [rev acc])"
| "fieldsEq acc (c # s) =
     (if c = CHR ''='' then (if acc = [] then [] else [rev acc]) @ fieldsEq [] s else fieldsEq (c # acc) s)"

fun preParseArg :: "string list \<Rightarrow> string \<Rightarrow> string" where
  "preParseArg [] name = []"
| "preParseArg (s # args) name =
     (if sublist (CHR ''-'' # name) s
      then (case fieldsEq [] s of _ # v # _ \<Rightarrow> v | _ \<Rightarrow> [])
      else preParseArg args name)"

text \<open>The start of the package: directory and name of the log file, from the arguments or by default, and the logger for
  them. \<open>existErr\<close> is nil, so no directory is made.\<close>

definition log_init :: "string list \<Rightarrow> string \<Rightarrow> disk \<Rightarrow> string \<times> logger" where
  "log_init args base d =
     (let exeName = preParseArg args ''log.name'';
          exeName = (if exeName = [] then base else exeName) @ ''.log'';
          dir = preParseArg args ''log.dir'';
          dir = if dir = [] then ''./logs'' else dir in
      (dir, NewLogger base (dir @ ''/'' @ exeName) 100 30 200 1024 d))"

lemma log_init_file:
  "lj_Filename (lg_lj (snd (log_init [] base d))) = ''./logs/'' @ base @ ''.log''"
  "lj_Filename (lg_lj (snd (log_init [''-log.dir=/var/log'', ''-log.name=gate''] base d))) = ''/var/log/gate.log''"
  by (simp_all add: log_init_def NewLogger_def Let_def sublist_code)

section \<open>Runs\<close>








text \<open>After \<open>Close\<close> the goroutine comes to its end in as many rounds as lines wait, and two more.\<close>

lemma realWrite_sel [simp]: "lg_input (realWrite e p s) = lg_input s" "lg_at (realWrite e p s) = lg_at s" "lg_closed (realWrite e p s) = lg_closed s"
  by (simp_all add: realWrite_def split: prod.splits)




section \<open>Properties\<close>


text \<open>Two lines, the second still in the channel when the logger is closed, and one line too late.\<close>

definition log_env :: sysEnv where
  "log_env = \<lparr>ev_now = \<lparr>c_year = 2024, c_month = 2, c_day = 29, c_hour = 12, c_min = 0, c_sec = 0, c_nano = 0\<rparr>,
     ev_later = \<lparr>c_year = 2024, c_month = 2, c_day = 29, c_hour = 12, c_min = 0, c_sec = 0, c_nano = 0\<rparr>,
     ev_zone = (\<lambda>t. t), ev_fail = (\<lambda>_. False), ev_part = 0\<rparr>"








lemma quiet_demo: "quiet log_env"
  by (simp add: quiet_def log_env_def)



section \<open>What the code does not do\<close>

text \<open>With the level at errors, \<open>Debugf\<close> is silent and \<open>DebugfSkip\<close> is not: its test is that of errors.\<close>

lemma DebugfSkip_ignores_level:
  assumes "LogLevel cfg = errorLog" "logToFile cfg"
  shows "Log_Debug cfg now str = []" "DebugfSkip cfg now skip str \<noteq> []" "InfofSkip cfg now skip str \<noteq> []"
  using assms by (simp_all add: Log_Debug_def DebugfSkip_def InfofSkip_def log_output_def errorLog_def debugLog_def Let_def)

text \<open>Two rotations in one millisecond: the second backup replaces the first.\<close>

lemma rotation_overwrites:
  "map_of (snd (snd (rotate_log log_env l (snd (snd (rotate_log log_env l [(lj_filename l, c)])))))) (lj_backup log_env l) = Some []"
proof -
  obtain l1 d1 where 1: "rotate_log log_env l [(lj_filename l, c)] = (None, l1, d1)" "map_of d1 = put_aside log_env l [(lj_filename l, c)]"
    using rotate_quiet [OF quiet_demo] by blast
  obtain l2 d2 where 2: "rotate_log log_env l d1 = (None, l2, d2)" "map_of d2 = put_aside log_env l d1"
    using rotate_quiet [OF quiet_demo] by blast
  show ?thesis by (simp add: 1(1) 2) (simp add: put_aside_def 1(2))
qed

text \<open>When \<open>os.Stat\<close> fails in \<open>openNew\<close> for another reason than a missing file, the log is truncated and
  no backup made.\<close>

lemma failing_stat_truncates:
  assumes "\<And>c. ev_fail e c \<longleftrightarrow> c = SysStatNew"
  shows "map_of (snd (snd (rotate_log e l d))) = (map_of d)(lj_filename l \<mapsto> [])"
proof -
  obtain l1 where 1: "lj_close e l = (None, l1)" "lj_cfg l1 = lj_cfg l" by (cases "lj_open l") (simp_all add: lj_close_def assms)
  have o: "openNew e l1 d = (None, l1\<lparr>lj_open := True, lj_size := 0\<rparr>, AList.update (lj_filename l) [] d)"
    by (simp add: openNew_def createLog_def assms lj_cfg_cong(1) [OF 1(2)])
  show ?thesis by (simp add: rotate_log_def 1(1) o disk_simps split: prod.splits)
qed

end
