(* ===== verification/Setup_Message.thy ===== *)
theory Setup_Message
  imports Safelink_Context Rpc_Format
begin

text \<open>
  The set-up message of a link as the generated code writes and reads it
  (\<open>xnet/baserpcpb/rpccheckmsg.pb.go\<close>): varints, \<open>Size\<close>, \<open>MarshalToSizedBuffer\<close>, which fills the buffer
  from its end, \<open>Unmarshal\<close>, which overwrites the fields it finds and leaves the others, and the
  skipping of unknown fields. A position in the input is what is left of it, so that slicing beyond the
  end cannot be expressed by accident; a write outside the buffer is \<open>None\<close>. Then the handshake of
  \<open>Safelink_Context\<close> over this encoding.
\<close>

section \<open>Varints\<close>

datatype pbErr = ErrIntOverflow | ErrUnexpectedEOF | ErrInvalidLength | ErrUnexpectedEndOfGroup | ErrWireType | ErrIllegalTag

text \<open>\<open>math/bits.Len64\<close>.\<close>

fun bitLen :: "nat \<Rightarrow> nat" where
  "bitLen n = (if n = 0 then 0 else Suc (bitLen (n div 2)))"

declare bitLen.simps [simp del]

definition sov :: "u64 \<Rightarrow> nat" where
  "sov x = (bitLen (unat (x OR 1)) + 6) div 7"

text \<open>The loop of \<open>encodeVarint\<close>.\<close>

function putVarint :: "bytes \<Rightarrow> nat \<Rightarrow> u64 \<Rightarrow> bytes option" where
  "putVarint buf offset v =
     (if offset \<ge> length buf then None
      else if v \<ge> 128 then putVarint (buf[offset := ucast (v AND 0x7F OR 0x80)]) (offset + 1) (drop_bit 7 v)
      else Some (buf[offset := ucast v]))"
  by pat_completeness auto
termination
  by (relation "measure (\<lambda>(buf, offset, v). length buf - offset)") auto

declare putVarint.simps [simp del]

definition encodeVarint :: "bytes \<Rightarrow> nat \<Rightarrow> u64 \<Rightarrow> (nat \<times> bytes) option" where
  "encodeVarint buf offset v =
     (if offset < sov v then None
      else do { buf \<leftarrow> putVarint buf (offset - sov v) v; Some (offset - sov v, buf) })"

text \<open>The decoding loop, which occurs once per field, at the width of the variable it fills. On an error
  the variable keeps the bits read so far.\<close>

fun decodeVarint :: "nat \<Rightarrow> 'a::len word \<Rightarrow> bytes \<Rightarrow> pbErr option \<times> 'a word \<times> bytes" where
  "decodeVarint shift acc [] = (Some (if shift \<ge> 64 then ErrIntOverflow else ErrUnexpectedEOF), acc, [])"
| "decodeVarint shift acc (b # bs) =
     (if shift \<ge> 64 then (Some ErrIntOverflow, acc, b # bs)
      else let acc = acc OR push_bit shift (ucast (b AND 0x7F)) in
        if b < 0x80 then (None, acc, bs) else decodeVarint (shift + 7) acc bs)"

lemma decodeVarint_shorter: "decodeVarint s acc bs = (None, v, rest) \<Longrightarrow> length rest < length bs"
  by (induction s acc bs rule: decodeVarint.induct) (fastforce simp: Let_def split: if_splits)+

text \<open>The reference encoding: groups of seven bits, least significant first.\<close>

fun varint :: "nat \<Rightarrow> bytes" where
  "varint n = (if n < 128 then [of_nat n] else of_nat (n mod 128 + 128) # varint (n div 128))"

declare varint.simps [simp del]

lemma varint_nonempty [simp]: "varint n \<noteq> []"
  by (subst varint.simps) simp

lemma bitLen_128: "128 \<le> n \<Longrightarrow> bitLen n = 7 + bitLen (n div 128)"
proof -
  assume n: "128 \<le> n"
  have step: "0 < m \<Longrightarrow> bitLen m = Suc (bitLen (m div 2))" for m by (subst bitLen.simps) simp
  have eq: "n div 2 div 2 = n div 4" "n div 4 div 2 = n div 8" "n div 8 div 2 = n div 16" "n div 16 div 2 = n div 32"
    "n div 32 div 2 = n div 64" "n div 64 div 2 = n div 128" by (simp_all flip: div_mult2_eq)
  show ?thesis using n step [of n] step [of "n div 2"] step [of "n div 4"] step [of "n div 8"] step [of "n div 16"]
      step [of "n div 32"] step [of "n div 64"] by (simp add: eq div_greater_zero_iff)
qed

lemma bitLen_pos: "0 < n \<Longrightarrow> 0 < bitLen n"
  by (subst bitLen.simps) simp

lemma bitLen_small: "0 < n \<Longrightarrow> n < 128 \<Longrightarrow> bitLen n \<le> 7"
proof -
  have le: "n < 2 ^ k \<Longrightarrow> bitLen n \<le> k" for n k
  proof (induction k arbitrary: n)
    case (Suc k)
    then show ?case by (subst bitLen.simps) (auto simp: less_mult_imp_div_less)
  qed (simp add: bitLen.simps)
  show "n < 128 \<Longrightarrow> bitLen n \<le> 7" using le [of n 7] by simp
qed

lemma length_varint: "0 < n \<Longrightarrow> length (varint n) = (bitLen n + 6) div 7"
proof (induction n rule: varint.induct)
  case (1 n)
  show ?case
  proof (cases "n < 128")
    case True
    then have "bitLen n \<le> 7" "0 < bitLen n" using bitLen_small bitLen_pos 1(2) by auto
    then have "(bitLen n + 6) div 7 = 1" by presburger
    with True show ?thesis by (subst varint.simps) simp
  next
    case False
    then have "bitLen n = 7 + bitLen (n div 128)" using bitLen_128 by simp
    moreover have "(7 + k + 6) div 7 = Suc ((k + 6) div 7)" for k :: nat by presburger
    moreover have "0 < n div 128" using False by (simp add: div_greater_zero_iff)
    ultimately show ?thesis using 1(1) False by (subst varint.simps) simp
  qed
qed

lemma ucast_of_nat_unat: "(ucast v :: 'b::len word) = of_nat (unat v)" for v :: "'a::len word"
  by simp

lemma mask7: "(0x7F :: 'a::len word) = mask 7"
  by (simp add: mask_numeral)

lemma low7: "v AND 0x7F = take_bit 7 v" for v :: "'a::len word"
  by (simp only: mask7 take_bit_eq_mask)

lemma or_128: "n mod 128 OR 128 = n mod 128 + 128" for n :: nat
proof -
  have e: "n mod 128 = take_bit 7 n" "(128 :: nat) = push_bit 7 1" by (simp_all add: take_bit_eq_mod push_bit_eq_mult)
  have "take_bit 7 n + push_bit 7 1 = take_bit 7 n OR push_bit 7 1"
  proof (rule disjunctive_add_eq_or, rule bit_eqI)
    show "bit (take_bit 7 n AND push_bit 7 1) k = bit 0 k" for k
      by (cases "k < 7") (simp_all only: bit_and_iff bit_take_bit_iff bit_push_bit_iff, simp_all)
  qed
  then show ?thesis unfolding e(1) unfolding e(2) by (rule sym)
qed

lemma unat_low7: "unat (v AND 0x7F) = unat v mod 128" for v :: u64
  by (simp only: low7 unsigned_take_bit_eq) (simp add: take_bit_eq_mod)

lemma group_byte: "ucast (v AND 0x7F OR 0x80) = (of_nat (unat v mod 128 + 128) :: byte)" for v :: u64
proof -
  have "unat (v AND 0x7F OR 0x80) = unat v mod 128 + 128"
    by (simp add: unsigned_or_eq unat_low7 or_128)
  then show ?thesis by (metis ucast_of_nat_unat)
qed

lemma length_varint_sov: "length (varint (unat x)) = sov x"
proof -
  have or1: "n OR Suc 0 = 2 * (n div 2) + 1" for n :: nat
    by (cases "even n") (auto simp: or_Suc_0_eq elim!: evenE oddE)
  have b: "bitLen (Suc (2 * k)) = Suc (bitLen k)" for k by (subst bitLen.simps) simp
  have eq: "bitLen (unat (x OR 1)) = Suc (bitLen (unat x div 2))"
    by (simp add: unsigned_or_eq or1 b)
  show ?thesis
  proof (cases "unat x = 0")
    case True
    then have "sov x = 1" unfolding sov_def eq by (simp add: bitLen.simps)
    with True show ?thesis by (simp add: varint.simps)
  next
    case False
    then have "bitLen (unat x) = Suc (bitLen (unat x div 2))" by (subst bitLen.simps) simp
    with False show ?thesis by (simp only: sov_def eq length_varint)
  qed
qed

text \<open>\<open>encodeVarint\<close> puts the reference encoding before the offset.\<close>

lemma putVarint_spec:
  "offset + length (varint (unat v)) \<le> length buf \<Longrightarrow>
   putVarint buf offset v = Some (take offset buf @ varint (unat v) @ drop (offset + length (varint (unat v))) buf)"
proof (induction buf offset v rule: putVarint.induct)
  case (1 buf offset v)
  have off: "offset < length buf" using 1(2) varint_nonempty [of "unat v"] by (cases "varint (unat v)") auto
  show ?case
  proof (cases "v \<ge> 128")
    case True
    have n: "\<not> unat v < 128" using True by (simp add: word_le_nat_alt)
    have d: "unat (drop_bit 7 v) = unat v div 128" by (simp add: drop_bit_eq_div unat_div_distrib)
    have vi: "varint (unat v) = of_nat (unat v mod 128 + 128) # varint (unat v div 128)" using n by (subst varint.simps) simp
    let ?b = "of_nat (unat v mod 128 + 128) :: byte"
    have "putVarint buf offset v = putVarint (buf[offset := ?b]) (offset + 1) (drop_bit 7 v)"
      using True off by (subst putVarint.simps) (simp add: group_byte)
    also have "\<dots> = Some (take (offset + 1) (buf[offset := ?b]) @ varint (unat v div 128) @
        drop (offset + 1 + length (varint (unat v div 128))) (buf[offset := ?b]))"
      using 1(1) [OF _ True] 1(2) off unfolding group_byte d vi by simp
    also have "take (offset + 1) (buf[offset := ?b]) = take offset buf @ [?b]"
      using off by (simp add: take_Suc_conv_app_nth)
    finally show ?thesis unfolding vi by simp
  next
    case False
    then have n: "unat v < 128" by (simp add: word_le_nat_alt)
    have "putVarint buf offset v = Some (buf[offset := ucast v])" using False off by (subst putVarint.simps) simp
    also have "ucast v = (of_nat (unat v) :: byte)" by (metis ucast_of_nat_unat)
    finally have "putVarint buf offset v = Some (buf[offset := of_nat (unat v)])" .
    moreover have "varint (unat v) = [of_nat (unat v)]" using n by (subst varint.simps) simp
    ultimately show ?thesis using off by (simp add: upd_conv_take_nth_drop)
  qed
qed

lemma encodeVarint_spec:
  assumes "sov v \<le> offset" "offset \<le> length buf"
  shows "encodeVarint buf offset v = Some (offset - sov v, take (offset - sov v) buf @ varint (unat v) @ drop offset buf)"
  using assms putVarint_spec [of "offset - sov v" v buf] by (simp add: encodeVarint_def length_varint_sov)

text \<open>Decoding gives back what was encoded, at any width, as far as the bits go.\<close>

lemma or_groups:
  "push_bit s (of_nat n) = push_bit s (of_nat (n mod 128)) OR push_bit (s + 7) (of_nat (n div 128) :: 'a::len word)"
proof -
  have "n = take_bit 7 n OR push_bit 7 (drop_bit 7 n)" 
  proof (rule bit_eqI)
    show "bit n k = bit (take_bit 7 n OR push_bit 7 (drop_bit 7 n)) k" for k
      by (cases "k < 7") (simp_all only: bit_or_iff bit_take_bit_iff bit_push_bit_iff bit_drop_bit_eq o_def, auto)
  qed
  then have "(of_nat n :: 'a word) = of_nat (take_bit 7 n) OR push_bit 7 (of_nat (drop_bit 7 n))"
    by (metis of_nat_or_eq of_nat_push_bit)
  then have "push_bit s (of_nat n :: 'a word) = push_bit s (of_nat (take_bit 7 n)) OR push_bit s (push_bit 7 (of_nat (drop_bit 7 n)))"
    by (simp only: push_bit_or)
  then show ?thesis by (simp add: take_bit_eq_mod drop_bit_eq_div add.commute)
qed

lemma low7_byte: "n < 256 \<Longrightarrow> ucast ((of_nat n :: byte) AND 0x7F) = (of_nat (n mod 128) :: 'a::len word)"
proof -
  assume "n < 256"
  then have "unat ((of_nat n :: byte) AND 0x7F) = n mod 128"
    by (simp only: low7 unsigned_take_bit_eq) (simp add: take_bit_eq_mod unat_of_nat)
  then show ?thesis by (metis ucast_of_nat_unat)
qed

lemma decodeVarint_varint:
  "n < 2 ^ (64 - s) \<Longrightarrow> s < 64 \<Longrightarrow>
   decodeVarint s acc (varint n @ rest) = (None, acc OR push_bit s (of_nat n), rest)"
proof (induction n arbitrary: s acc rule: varint.induct)
  case (1 n)
  show ?case
  proof (cases "n < 128")
    case True
    then have "(of_nat n :: byte) < 0x80" by (simp add: word_less_nat_alt unat_of_nat)
    with True 1(3) show ?thesis by (subst varint.simps) (simp add: low7_byte Let_def)
  next
    case False
    let ?b = "of_nat (n mod 128 + 128) :: byte"
    have b: "\<not> ?b < 0x80" 
    proof -
      have "unat ?b = n mod 128 + 128" by (rule unat_of_nat_fits) (simp add: add_less_mono1 [of "n mod 128" 128 128, simplified])
      then show ?thesis by (simp add: word_less_nat_alt)
    qed
    have low: "ucast (?b AND 0x7F) = (of_nat (n mod 128) :: 'a word)" using low7_byte [of "n mod 128 + 128"] by simp
    have "7 < 64 - s"
    proof (rule ccontr)
      assume "\<not> 7 < 64 - s"
      then have "(2::nat) ^ (64 - s) \<le> 2 ^ 7" by (intro power_increasing) auto
      with 1(2) False show False by simp
    qed
    then have s: "s + 7 < 64" by simp
    have "2 ^ (64 - s) = 2 ^ (64 - (s + 7)) * (128::nat)"
      using s power_add [of "2::nat" "64 - (s + 7)" 7] by simp
    then have lt: "n div 128 < 2 ^ (64 - (s + 7))" using 1(2) by (simp add: less_mult_imp_div_less)
    have "decodeVarint s acc (varint n @ rest) = decodeVarint (s + 7) (acc OR push_bit s (of_nat (n mod 128))) (varint (n div 128) @ rest)"
      using False b low 1(3) by (subst varint.simps) (simp add: Let_def)
    also have "\<dots> = (None, (acc OR push_bit s (of_nat (n mod 128))) OR push_bit (s + 7) (of_nat (n div 128)), rest)"
      by (rule 1(1) [OF False lt s])
    finally show ?thesis by (simp only: or_groups [of s n] or.assoc)
  qed
qed

section \<open>Writing the message\<close>

definition MsgSetUp_Size :: "MsgSetUp \<Rightarrow> nat" where
  "MsgSetUp_Size m =
     (if Sign m \<noteq> 0 then 1 + sov (Sign m) else 0) +
     (if ID m \<noteq> 0 then 1 + sov (word_of_int (ID m)) else 0) +
     (let l = length (Name m) in if l > 0 then 1 + l + sov (of_nat l) else 0)"

definition putTag :: "byte \<Rightarrow> nat \<times> bytes \<Rightarrow> (nat \<times> bytes) option" where
  "putTag t = (\<lambda>(i, buf). if i = 0 \<or> length buf < i then None else Some (i - 1, buf[i - 1 := t]))"

definition MsgSetUp_MarshalToSizedBuffer :: "MsgSetUp \<Rightarrow> bytes \<Rightarrow> (nat \<times> bytes) option" where
  "MsgSetUp_MarshalToSizedBuffer m buf = do {
     (i, buf) \<leftarrow>
       (let i = length buf; l = length (Name m) in
        if l > 0
        then if i < l then None
          else do { (i, buf) \<leftarrow> encodeVarint (put_at (i - l) (str_bytes (Name m)) buf) (i - l) (of_nat l); putTag 0x1a (i, buf) }
        else Some (i, buf));
     (i, buf) \<leftarrow>
       (if ID m \<noteq> 0 then do { (i, buf) \<leftarrow> encodeVarint buf i (word_of_int (ID m)); putTag 0x10 (i, buf) } else Some (i, buf));
     if Sign m \<noteq> 0 then do { (i, buf) \<leftarrow> encodeVarint buf i (Sign m); putTag 0x8 (i, buf) } else Some (i, buf) }"

definition MsgSetUp_Marshal :: "MsgSetUp \<Rightarrow> bytes option" where
  "MsgSetUp_Marshal m = do {
     (i, buf) \<leftarrow> MsgSetUp_MarshalToSizedBuffer m (replicate (MsgSetUp_Size m) 0);
     Some (take (length buf - i) buf) }"

text \<open>The reference: the fields that are not zero, in the order of their numbers.\<close>

definition setup_bytes :: "MsgSetUp \<Rightarrow> bytes" where
  "setup_bytes m =
     (if Sign m \<noteq> 0 then 0x8 # varint (unat (Sign m)) else []) @
     (if ID m \<noteq> 0 then 0x10 # varint (unat (word_of_int (ID m) :: u64)) else []) @
     (if Name m \<noteq> [] then 0x1a # varint (unat (of_nat (length (Name m)) :: u64)) @ str_bytes (Name m) else [])"

lemma MsgSetUp_Size_bytes: "MsgSetUp_Size m = length (setup_bytes m)"
  by (simp add: MsgSetUp_Size_def setup_bytes_def length_varint_sov Let_def)

text \<open>A tag and a varint before position \<open>i\<close> of the buffer.\<close>

lemma putTag_encode:
  assumes "Suc (sov v) \<le> i" "i \<le> length buf"
  shows "(do { (i, buf) \<leftarrow> encodeVarint buf i v; putTag t (i, buf) }) =
    Some (i - Suc (sov v), take (i - Suc (sov v)) buf @ (t # varint (unat v)) @ drop i buf)"
proof -
  let ?j = "i - Suc (sov v)"
  have j: "i - sov v = Suc ?j" "?j < length buf" using assms by simp_all
  have "take (Suc ?j) buf = take ?j buf @ [buf ! ?j]" by (rule take_Suc_conv_app_nth [OF j(2)])
  then show ?thesis
    using assms by (simp add: encodeVarint_spec putTag_def j length_varint_sov list_update_append)
qed

text \<open>A field that is written when \<open>c\<close> holds, before what is written already.\<close>

lemma optional_field:
  assumes "f = (if c then t # varint (unat v) else [])" "n2 = n1 + length f" "n2 \<le> length buf"
  shows "(if c then do { (i, buf) \<leftarrow> encodeVarint (take n2 buf @ suf) n2 v; putTag t (i, buf) } else Some (n2, take n2 buf @ suf)) =
    Some (n1, take n1 buf @ f @ suf)"
proof (cases c)
  case True
  then have "n2 = n1 + Suc (sov v)" using assms by (simp add: length_varint_sov)
  then show ?thesis using True assms putTag_encode [of v n2 "take n2 buf @ suf" t] by (simp add: min_def)
qed (use assms in simp)

lemma MarshalToSizedBuffer_spec:
  assumes "length buf = length (setup_bytes m)"
  shows "MsgSetUp_MarshalToSizedBuffer m buf = Some (0, setup_bytes m)"
proof -
  let ?f1 = "if Sign m \<noteq> 0 then 0x8 # varint (unat (Sign m)) else []"
  let ?f2 = "if ID m \<noteq> 0 then 0x10 # varint (unat (word_of_int (ID m) :: u64)) else []"
  let ?f3 = "if Name m \<noteq> [] then 0x1a # varint (unat (of_nat (length (Name m)) :: u64)) @ str_bytes (Name m) else []"
  have len: "length buf = length ?f1 + length ?f2 + length ?f3" using assms by (simp add: setup_bytes_def)
  let ?n1 = "length ?f1" let ?n2 = "length ?f1 + length ?f2"
  have s3: "(let i = length buf; l = length (Name m) in
        if l > 0
        then if i < l then None
          else do { (i, buf) \<leftarrow> encodeVarint (put_at (i - l) (str_bytes (Name m)) buf) (i - l) (of_nat l); putTag 0x1a (i, buf) }
        else Some (i, buf)) = Some (?n2, take ?n2 buf @ ?f3)"
  proof (cases "Name m = []")
    case True
    then show ?thesis using len by simp
  next
    case False
    let ?i = "length buf - length (Name m)" and ?v = "of_nat (length (Name m)) :: u64"
    have i: "?i = Suc (sov ?v) + ?n2" "?i + length (Name m) = length buf" using False len by (simp_all add: length_varint_sov)
    let ?buf = "put_at ?i (str_bytes (Name m)) buf"
    have b: "length ?buf = length buf" "drop ?i ?buf = str_bytes (Name m)" "take ?n2 ?buf = take ?n2 buf"
      using i by (simp_all add: put_at_def)
    have "(do { (i, buf) \<leftarrow> encodeVarint ?buf ?i ?v; putTag 0x1a (i, buf) }) =
        Some (?i - Suc (sov ?v), take (?i - Suc (sov ?v)) ?buf @ (0x1a # varint (unat ?v)) @ drop ?i ?buf)"
      by (rule putTag_encode) (use i b in simp_all)
    also have "?i - Suc (sov ?v) = ?n2" using i by simp
    finally show ?thesis using False i b by simp
  qed
  have s2: "(if ID m \<noteq> 0 then do { (i, buf) \<leftarrow> encodeVarint (take ?n2 buf @ ?f3) ?n2 (word_of_int (ID m)); putTag 0x10 (i, buf) }
      else Some (?n2, take ?n2 buf @ ?f3)) = Some (?n1, take ?n1 buf @ ?f2 @ ?f3)"
    by (rule optional_field) (use len in simp_all)
  have s1: "(if Sign m \<noteq> 0 then do { (i, buf) \<leftarrow> encodeVarint (take ?n1 buf @ ?f2 @ ?f3) ?n1 (Sign m); putTag 0x8 (i, buf) }
      else Some (?n1, take ?n1 buf @ ?f2 @ ?f3)) = Some (0, ?f1 @ ?f2 @ ?f3)"
    using optional_field [of ?f1 "Sign m \<noteq> 0" "0x8" "Sign m" ?n1 0 buf "?f2 @ ?f3"] len by simp
  show ?thesis
    unfolding MsgSetUp_MarshalToSizedBuffer_def s3 by (simp only: bind.bind_lunit prod.case s2 s1 setup_bytes_def)
qed

lemma Marshal_spec: "MsgSetUp_Marshal m = Some (setup_bytes m)"
  by (simp add: MsgSetUp_Marshal_def MarshalToSizedBuffer_spec MsgSetUp_Size_bytes)

section \<open>Skipping a field\<close>

text \<open>After the tag: the new position, depth of groups and rest of the input. The position may lie
  beyond the end, where the rest is empty.\<close>

definition skipField :: "nat \<Rightarrow> nat \<Rightarrow> nat \<Rightarrow> bytes \<Rightarrow> pbErr + nat \<times> nat \<times> bytes" where
  "skipField wireType pos depth rest =
     (if wireType = 0 then
        (case decodeVarint 0 (0 :: u64) rest of
           (Some e, _) \<Rightarrow> Inl e
         | (None, _, rest') \<Rightarrow> Inr (pos + (length rest - length rest'), depth, rest'))
      else if wireType = 1 then Inr (pos + 8, depth, drop 8 rest)
      else if wireType = 2 then
        (case decodeVarint 0 (0 :: u64) rest of
           (Some e, _) \<Rightarrow> Inl e
         | (None, len, rest') \<Rightarrow>
             if sint len < 0 then Inl ErrInvalidLength
             else Inr (pos + (length rest - length rest') + unat len, depth, drop (unat len) rest'))
      else if wireType = 3 then Inr (pos, depth + 1, rest)
      else if wireType = 4 then if depth = 0 then Inl ErrUnexpectedEndOfGroup else Inr (pos, depth - 1, rest)
      else if wireType = 5 then Inr (pos + 4, depth, drop 4 rest)
      else Inl ErrWireType)"

lemma skipField_shorter: "skipField w pos d rest = Inr (pos', d', rest') \<Longrightarrow> length rest' \<le> length rest \<and> pos \<le> pos'"
  by (auto simp: skipField_def split: if_splits prod.splits option.splits dest: decodeVarint_shorter)

text \<open>An index of \<open>2 ^ 63\<close> or more would have wrapped around to a negative one.\<close>

function skipLoop :: "nat \<Rightarrow> nat \<Rightarrow> bytes \<Rightarrow> pbErr + nat" where
  "skipLoop pos depth bs =
     (if bs = [] then Inl ErrUnexpectedEOF
      else case decodeVarint 0 (0 :: u64) bs of
          (Some e, _) \<Rightarrow> Inl e
        | (None, wire, rest) \<Rightarrow>
            (case skipField (unat (wire AND 7)) (pos + (length bs - length rest)) depth rest of
               Inl e \<Rightarrow> Inl e
             | Inr (pos', depth', rest') \<Rightarrow>
                 if pos' \<ge> 2 ^ 63 then Inl ErrInvalidLength
                 else if depth' = 0 then Inr pos' else skipLoop pos' depth' rest'))"
  by pat_completeness auto
termination
  by (relation "measure (\<lambda>(pos, depth, bs). length bs)") (auto dest!: decodeVarint_shorter [OF sym] skipField_shorter)

declare skipLoop.simps [simp del]

definition skipRpccheckmsg :: "bytes \<Rightarrow> pbErr + nat" where
  "skipRpccheckmsg bs = skipLoop 0 0 bs"

lemma skipLoop_pos: "skipLoop pos depth bs = Inr k \<Longrightarrow> pos < k"
proof (induction pos depth bs rule: skipLoop.induct)
  case (1 pos depth bs)
  obtain wire rest where d: "bs \<noteq> []" "decodeVarint 0 (0 :: u64) bs = (None, wire, rest)"
    using 1(2) by (subst (asm) skipLoop.simps) (auto split: if_splits prod.splits option.splits)
  obtain pos' depth' rest' where f: "skipField (unat (wire AND 7)) (pos + (length bs - length rest)) depth rest = Inr (pos', depth', rest')"
    using 1(2) d by (subst (asm) skipLoop.simps) (auto split: sum.splits)
  have "pos < pos'" using decodeVarint_shorter [OF d(2)] skipField_shorter [OF f] by auto
  moreover have "skipLoop pos depth bs =
      (if pos' \<ge> 2 ^ 63 then Inl ErrInvalidLength else if depth' = 0 then Inr pos' else skipLoop pos' depth' rest')"
    by (subst skipLoop.simps) (simp add: d f)
  moreover have "\<not> 2 ^ 63 \<le> pos' \<Longrightarrow> depth' \<noteq> 0 \<Longrightarrow> skipLoop pos' depth' rest' = Inr k \<Longrightarrow> pos' < k"
    using 1(1) d f by force
  ultimately show ?case using 1(2) by (cases "2 ^ 63 \<le> pos'"; cases "depth' = 0") simp_all
qed

section \<open>Reading the message\<close>

text \<open>\<open>l\<close> is the length of the whole input. The message is returned with an error too: the fields read
  before the error, and the one it occurred in, are overwritten.\<close>

function unmarshalLoop :: "nat \<Rightarrow> MsgSetUp \<Rightarrow> bytes \<Rightarrow> pbErr option \<times> MsgSetUp" where
  "unmarshalLoop l m bs =
     (if bs = [] then (None, m)
      else case decodeVarint 0 (0 :: u64) bs of
          (Some e, _) \<Rightarrow> (Some e, m)
        | (None, wire, rest) \<Rightarrow>
            let fieldNum = sint (ucast (drop_bit 3 wire) :: 32 word); wireType = unat (wire AND 7) in
            if wireType = 4 then (Some ErrWireType, m)
            else if fieldNum \<le> 0 then (Some ErrIllegalTag, m)
            else if fieldNum = 1 then
              if wireType \<noteq> 0 then (Some ErrWireType, m)
              else (case decodeVarint 0 0 rest of
                  (Some e, v, _) \<Rightarrow> (Some e, m\<lparr>Sign := v\<rparr>)
                | (None, v, rest) \<Rightarrow> unmarshalLoop l (m\<lparr>Sign := v\<rparr>) rest)
            else if fieldNum = 2 then
              if wireType \<noteq> 0 then (Some ErrWireType, m)
              else (case decodeVarint 0 (0 :: 32 word) rest of
                  (Some e, v, _) \<Rightarrow> (Some e, m\<lparr>ID := sint v\<rparr>)
                | (None, v, rest) \<Rightarrow> unmarshalLoop l (m\<lparr>ID := sint v\<rparr>) rest)
            else if fieldNum = 3 then
              if wireType \<noteq> 2 then (Some ErrWireType, m)
              else (case decodeVarint 0 (0 :: u64) rest of
                  (Some e, _) \<Rightarrow> (Some e, m)
                | (None, stringLen, rest) \<Rightarrow>
                    if sint stringLen < 0 then (Some ErrInvalidLength, m)
                    else if l - length rest + unat stringLen \<ge> 2 ^ 63 then (Some ErrInvalidLength, m)
                    else if unat stringLen > length rest then (Some ErrUnexpectedEOF, m)
                    else unmarshalLoop l (m\<lparr>Name := bytes_str (take (unat stringLen) rest)\<rparr>) (drop (unat stringLen) rest))
            else
              (case skipRpccheckmsg bs of
                 Inl e \<Rightarrow> (Some e, m)
               | Inr skippy \<Rightarrow>
                   if l - length bs + skippy \<ge> 2 ^ 63 then (Some ErrInvalidLength, m)
                   else if skippy > length bs then (Some ErrUnexpectedEOF, m)
                   else unmarshalLoop l m (drop skippy bs)))"
  by pat_completeness auto
termination
  by (relation "measure (\<lambda>(l, m, bs). length bs)")
    (auto simp: skipRpccheckmsg_def dest!: decodeVarint_shorter [OF sym] skipLoop_pos)

declare unmarshalLoop.simps [simp del]

definition MsgSetUp_Unmarshal :: "MsgSetUp \<Rightarrow> bytes \<Rightarrow> pbErr option \<times> MsgSetUp" where
  "MsgSetUp_Unmarshal m dAtA = unmarshalLoop (length dAtA) m dAtA"

text \<open>Reading one field that \<open>Marshal\<close> wrote. Reading starts on the tag.\<close>

lemma tag_decodes: "b < 0x80 \<Longrightarrow> decodeVarint 0 (0 :: u64) (b # bs) = (None, ucast b, bs)"
proof -
  assume "b < 0x80"
  then have "unat b < 128" by (simp add: word_less_nat_alt)
  then have "unat (b AND 0x7F) = unat b"
    by (simp only: low7 unsigned_take_bit_eq) (simp add: take_bit_eq_mod)
  then have "b AND 0x7F = b" by (simp only: word_unat_eq_iff)
  with \<open>b < 0x80\<close> show ?thesis by (simp add: Let_def)
qed

lemma tags [simp]: "decodeVarint 0 (0 :: u64) (0x8 # bs) = (None, 8, bs)" "decodeVarint 0 (0 :: u64) (0x10 # bs) = (None, 16, bs)"
  "decodeVarint 0 (0 :: u64) (0x1a # bs) = (None, 26, bs)"
  by (simp_all add: tag_decodes)

lemma decode_word: "decodeVarint 0 0 (varint (unat (v :: u64)) @ rest) = (None, ucast v :: 'a::len word, rest)"
  using decodeVarint_varint [of "unat v" 0 "0 :: 'a word" rest] unsigned_less [of v] by simp

lemma unmarshal_sign: "unmarshalLoop l m (0x8 # varint (unat v) @ rest) = unmarshalLoop l (m\<lparr>Sign := v\<rparr>) rest"
  by (subst unmarshalLoop.simps) (simp add: decode_word Let_def)

lemma unmarshal_ID:
  assumes "- (2 ^ 31) \<le> i" "i < 2 ^ 31"
  shows "unmarshalLoop l m (0x10 # varint (unat (word_of_int i :: u64)) @ rest) = unmarshalLoop l (m\<lparr>ID := i\<rparr>) rest"
proof -
  have "sint (ucast (word_of_int i :: u64) :: 32 word) = i"
  proof -
    have "(ucast (word_of_int i :: u64) :: 32 word) = word_of_int (take_bit 64 i)" by (simp add: unsigned_of_int)
    then have "sint (ucast (word_of_int i :: u64) :: 32 word) = signed_take_bit 31 (take_bit 64 i)"
      by (simp only: sint_sbintrunc') simp
    also have "\<dots> = signed_take_bit 31 i" by (simp add: signed_take_bit_take_bit)
    also have "\<dots> = i" using assms by (simp add: signed_take_bit_int_eq_self)
    finally show ?thesis .
  qed
  then show ?thesis by (subst unmarshalLoop.simps) (simp add: decode_word Let_def)
qed

lemma unmarshal_Name:
  assumes "l < 2 ^ 63" "length s \<le> l"
  shows "unmarshalLoop l m (0x1a # varint (unat (of_nat (length s) :: u64)) @ str_bytes s @ rest) = unmarshalLoop l (m\<lparr>Name := s\<rparr>) rest"
proof -
  let ?v = "of_nat (length s) :: u64"
  have u: "unat ?v = length s" using assms by (simp add: unat_of_nat_fits)
  have "\<not> sint ?v < 0" using assms by (simp add: signed_of_nat signed_take_bit_int_eq_self)
  moreover have "decodeVarint 0 (0 :: u64) (varint (length s) @ x) = (None, ?v, x)" for x
    using decode_word [of ?v x, where 'a = 64] by (simp add: u)
  moreover have "\<not> 2 ^ 63 \<le> l - length (str_bytes s @ rest) + length s" using assms by simp
  ultimately show ?thesis by (subst unmarshalLoop.simps) (simp add: Let_def u)
qed

section \<open>What reading gives back\<close>

text \<open>The fields of \<open>m\<close> that are not zero, on top of a message that is there already.\<close>

definition merge_msg :: "MsgSetUp \<Rightarrow> MsgSetUp \<Rightarrow> MsgSetUp" where
  "merge_msg m0 m = \<lparr>Sign = (if Sign m \<noteq> 0 then Sign m else Sign m0), ID = (if ID m \<noteq> 0 then ID m else ID m0),
     Name = (if Name m \<noteq> [] then Name m else Name m0)\<rparr>"

definition int32_ok :: "int \<Rightarrow> bool" where
  "int32_ok i \<longleftrightarrow> - (2 ^ 31) \<le> i \<and> i < 2 ^ 31"

lemma unmarshal_end [simp]: "unmarshalLoop l m [] = (None, m)"
  by (subst unmarshalLoop.simps) simp

lemma Unmarshal_setup_bytes:
  assumes "int32_ok (ID m)" "length (setup_bytes m) < 2 ^ 63"
  shows "MsgSetUp_Unmarshal m0 (setup_bytes m) = (None, merge_msg m0 m)"
proof -
  let ?l = "length (setup_bytes m)"
  have n: "length (Name m) \<le> ?l" by (simp add: setup_bytes_def)
  have name: "unmarshalLoop ?l m1 (if Name m \<noteq> [] then 0x1a # varint (unat (of_nat (length (Name m)) :: u64)) @ str_bytes (Name m) else []) =
      (None, if Name m \<noteq> [] then m1\<lparr>Name := Name m\<rparr> else m1)" for m1
    using unmarshal_Name [OF assms(2) n, of m1 "[]"] by simp
  have ids: "unmarshalLoop ?l m1 ((if ID m \<noteq> 0 then 0x10 # varint (unat (word_of_int (ID m) :: u64)) else []) @ r) =
      unmarshalLoop ?l (if ID m \<noteq> 0 then m1\<lparr>ID := ID m\<rparr> else m1) r" for m1 r
    using unmarshal_ID [of "ID m" ?l m1 r] assms(1) by (simp add: int32_ok_def)
  have sign: "unmarshalLoop ?l m1 ((if Sign m \<noteq> 0 then 0x8 # varint (unat (Sign m)) else []) @ r) =
      unmarshalLoop ?l (if Sign m \<noteq> 0 then m1\<lparr>Sign := Sign m\<rparr> else m1) r" for m1 r
    using unmarshal_sign [of ?l m1 "Sign m" r] by simp
  have "MsgSetUp_Unmarshal m0 (setup_bytes m) =
      unmarshalLoop ?l m0 ((if Sign m \<noteq> 0 then 0x8 # varint (unat (Sign m)) else []) @
        ((if ID m \<noteq> 0 then 0x10 # varint (unat (word_of_int (ID m) :: u64)) else []) @
        (if Name m \<noteq> [] then 0x1a # varint (unat (of_nat (length (Name m)) :: u64)) @ str_bytes (Name m) else [])))"
    by (simp only: MsgSetUp_Unmarshal_def) (simp only: setup_bytes_def)
  then show ?thesis unfolding sign ids name by (simp add: merge_msg_def)
qed

lemma bitLen_le: "n < 2 ^ k \<Longrightarrow> bitLen n \<le> k"
proof (induction k arbitrary: n)
  case (Suc k)
  then show ?case by (subst bitLen.simps) (auto simp: less_mult_imp_div_less)
qed (simp add: bitLen.simps)

lemma sov_le: "sov x \<le> 10"
proof -
  have "bitLen (unat (x OR 1)) \<le> 64" by (rule bitLen_le) (use unsigned_less [of "x OR 1"] in simp)
  then show ?thesis unfolding sov_def by simp
qed

lemma length_setup_bytes: "length (setup_bytes m) \<le> length (Name m) + 33"
  using sov_le [of "Sign m"] sov_le [of "word_of_int (ID m)"] sov_le [of "of_nat (length (Name m))"]
  by (auto simp: setup_bytes_def length_varint_sov)




lemma LinkSignature_nonzero [simp]: "LinkSignature \<noteq> 0"
  by (simp add: LinkSignature_def)

section \<open>Properties\<close>

text \<open>C30: \<open>Marshal\<close> fills its buffer exactly and never writes outside it, and \<open>Unmarshal\<close> reads every
  message back: the fields that are not zero replace those of the message read into, the others are
  left as they were. Into an empty message this is the message itself.\<close>

theorem setup_message_roundtrip:
  assumes "int32_ok (ID m)" "length (Name m) < 2 ^ 62"
  shows "\<exists>b. MsgSetUp_Marshal m = Some b \<and> length b = MsgSetUp_Size m \<and>
    MsgSetUp_Unmarshal m0 b = (None, merge_msg m0 m) \<and>
    MsgSetUp_Unmarshal \<lparr>Sign = 0, ID = 0, Name = []\<rparr> b = (None, m)"
proof -
  have "length (setup_bytes m) < 2 ^ 63" using length_setup_bytes [of m] assms(2) by simp
  then have r: "MsgSetUp_Unmarshal m1 (setup_bytes m) = (None, merge_msg m1 m)" for m1
    by (rule Unmarshal_setup_bytes [OF assms(1)])
  have "merge_msg \<lparr>Sign = 0, ID = 0, Name = []\<rparr> m = m" by (cases m) (simp add: merge_msg_def)
  then show ?thesis by (simp add: Marshal_spec MsgSetUp_Size_bytes r)
qed

definition demo_msg :: MsgSetUp where
  "demo_msg = \<lparr>Sign = LinkSignature, ID = - 7, Name = ''game''\<rparr>"

theorem setup_message_roundtrip_witness:
  "\<exists>b. MsgSetUp_Marshal demo_msg = Some b \<and> length b = 27 \<and> MsgSetUp_Unmarshal \<lparr>Sign = 0, ID = 0, Name = []\<rparr> b = (None, demo_msg)"
proof -
  have size: "MsgSetUp_Size demo_msg = 27"
    by (simp add: MsgSetUp_Size_def demo_msg_def LinkSignature_def sov_def bitLen.simps)
  have ok: "int32_ok (ID demo_msg)" "length (Name demo_msg) < 2 ^ 62" by (simp_all add: demo_msg_def int32_ok_def)
  show ?thesis using setup_message_roundtrip [OF ok, of demo_msg] unfolding size by blast
qed







end
