(* ===== verification/Check_Message.thy ===== *)
theory Check_Message
  imports Setup_Message
begin

text \<open>
  The second message of the generated code in \<open>xnet/baserpcpb/rpccheckmsg.pb.go\<close>, \<open>MsgCheck\<close>, over the varints
  and the skipping of fields of \<open>Setup_Message\<close>; and reading both messages whatever the fields look like: what
  a peer of a later version appends is skipped.
\<close>

section \<open>The message\<close>

record MsgCheck =
  Succ :: bool
  Timeout :: u64 \<comment> \<open>an \<open>int64\<close>, two's complement\<close>

definition MsgCheck_Size :: "MsgCheck \<Rightarrow> nat" where
  "MsgCheck_Size m = (if Succ m then 2 else 0) + (if Timeout m \<noteq> 0 then 1 + sov (Timeout m) else 0)"

definition MsgCheck_MarshalToSizedBuffer :: "MsgCheck \<Rightarrow> bytes \<Rightarrow> (nat \<times> bytes) option" where
  "MsgCheck_MarshalToSizedBuffer m buf = do {
     (i, buf) \<leftarrow>
       (let i = length buf in
        if Timeout m \<noteq> 0 then do { (i, buf) \<leftarrow> encodeVarint buf i (Timeout m); putTag 0x10 (i, buf) } else Some (i, buf));
     if Succ m then do { (i, buf) \<leftarrow> putTag (if Succ m then 1 else 0) (i, buf); putTag 0x8 (i, buf) } else Some (i, buf) }"

definition MsgCheck_Marshal :: "MsgCheck \<Rightarrow> bytes option" where
  "MsgCheck_Marshal m = do {
     (i, buf) \<leftarrow> MsgCheck_MarshalToSizedBuffer m (replicate (MsgCheck_Size m) 0);
     Some (take (length buf - i) buf) }"

definition MsgCheck_MarshalTo :: "MsgCheck \<Rightarrow> bytes \<Rightarrow> (nat \<times> bytes) option" where
  "MsgCheck_MarshalTo m dAtA =
     (let size = MsgCheck_Size m in
      if length dAtA < size then None
      else do { (i, buf) \<leftarrow> MsgCheck_MarshalToSizedBuffer m (take size dAtA); Some (size - i, buf @ drop size dAtA) })"

definition MsgSetUp_MarshalTo :: "MsgSetUp \<Rightarrow> bytes \<Rightarrow> (nat \<times> bytes) option" where
  "MsgSetUp_MarshalTo m dAtA =
     (let size = MsgSetUp_Size m in
      if length dAtA < size then None
      else do { (i, buf) \<leftarrow> MsgSetUp_MarshalToSizedBuffer m (take size dAtA); Some (size - i, buf @ drop size dAtA) })"

function check_unmarshalLoop :: "nat \<Rightarrow> MsgCheck \<Rightarrow> bytes \<Rightarrow> pbErr option \<times> MsgCheck" where
  "check_unmarshalLoop l m bs =
     (if bs = [] then (None, m)
      else case decodeVarint 0 (0 :: u64) bs of
          (Some e, _) \<Rightarrow> (Some e, m)
        | (None, wire, rest) \<Rightarrow>
            let fieldNum = sint (ucast (drop_bit 3 wire) :: 32 word); wireType = unat (wire AND 7) in
            if wireType = 4 then (Some ErrWireType, m)
            else if fieldNum \<le> 0 then (Some ErrIllegalTag, m)
            else if fieldNum = 1 then
              if wireType \<noteq> 0 then (Some ErrWireType, m)
              else (case decodeVarint 0 (0 :: u64) rest of
                  (Some e, _, _) \<Rightarrow> (Some e, m)
                | (None, v, rest) \<Rightarrow> check_unmarshalLoop l (m\<lparr>Succ := v \<noteq> 0\<rparr>) rest)
            else if fieldNum = 2 then
              if wireType \<noteq> 0 then (Some ErrWireType, m)
              else (case decodeVarint 0 0 rest of
                  (Some e, v, _) \<Rightarrow> (Some e, m\<lparr>Timeout := v\<rparr>)
                | (None, v, rest) \<Rightarrow> check_unmarshalLoop l (m\<lparr>Timeout := v\<rparr>) rest)
            else
              (case skipRpccheckmsg bs of
                 Inl e \<Rightarrow> (Some e, m)
               | Inr skippy \<Rightarrow>
                   if l - length bs + skippy \<ge> 2 ^ 63 then (Some ErrInvalidLength, m)
                   else if skippy > length bs then (Some ErrUnexpectedEOF, m)
                   else check_unmarshalLoop l m (drop skippy bs)))"
  by pat_completeness auto
termination
  by (relation "measure (\<lambda>(l, m, bs). length bs)")
    (auto simp: skipRpccheckmsg_def dest!: decodeVarint_shorter [OF sym] skipLoop_pos)

declare check_unmarshalLoop.simps [simp del]

definition MsgCheck_Unmarshal :: "MsgCheck \<Rightarrow> bytes \<Rightarrow> pbErr option \<times> MsgCheck" where
  "MsgCheck_Unmarshal m dAtA = check_unmarshalLoop (length dAtA) m dAtA"

section \<open>The round trip\<close>

definition check_bytes :: "MsgCheck \<Rightarrow> bytes" where
  "check_bytes m = (if Succ m then [0x8, 1] else []) @ (if Timeout m \<noteq> 0 then 0x10 # varint (unat (Timeout m)) else [])"

lemma MsgCheck_Size_bytes: "MsgCheck_Size m = length (check_bytes m)"
  by (simp add: MsgCheck_Size_def check_bytes_def length_varint_sov)

lemma putTag_take: "0 < n \<Longrightarrow> n \<le> length buf \<Longrightarrow> putTag t (n, take n buf @ suf) = Some (n - 1, take (n - 1) buf @ t # suf)"
  by (cases n) (auto simp: putTag_def take_Suc_conv_app_nth list_update_append min_def)

lemma check_Marshal_sized:
  assumes "length buf = length (check_bytes m)"
  shows "MsgCheck_MarshalToSizedBuffer m buf = Some (0, check_bytes m)"
proof -
  let ?f1 = "if Succ m then [0x8, 1] else [] :: bytes"
  let ?f2 = "if Timeout m \<noteq> 0 then 0x10 # varint (unat (Timeout m)) else []"
  have len: "length buf = length ?f1 + length ?f2" using assms by (simp add: check_bytes_def)
  have "(if Timeout m \<noteq> 0 then do { (i, buf) \<leftarrow> encodeVarint (take (length buf) buf @ []) (length buf) (Timeout m); putTag 0x10 (i, buf) }
      else Some (length buf, take (length buf) buf @ [])) = Some (length ?f1, take (length ?f1) buf @ ?f2 @ [])"
    by (rule optional_field) (use len in simp_all)
  then have s2: "(let i = length buf in if Timeout m \<noteq> 0 then do { (i, buf) \<leftarrow> encodeVarint buf i (Timeout m); putTag 0x10 (i, buf) }
      else Some (i, buf)) = Some (length ?f1, take (length ?f1) buf @ ?f2)"
    by (simp only: Let_def take_all order_refl append_Nil2)
  have "2 \<le> length buf" if "Succ m" using len that by simp
  then show ?thesis
    unfolding MsgCheck_MarshalToSizedBuffer_def s2
    using putTag_take [of 2 buf 1 ?f2] putTag_take [of 1 buf "0x8" "1 # ?f2"]
    by (cases "Succ m") (simp_all add: check_bytes_def numeral_2_eq_2)
qed

lemma check_one [simp]: "decodeVarint 0 (0 :: u64) (1 # bs) = (None, 1, bs)"
  by (simp add: tag_decodes)

lemma check_message_roundtrip:
  "\<exists>b. MsgCheck_Marshal m = Some b \<and> length b = MsgCheck_Size m \<and> MsgCheck_Unmarshal \<lparr>Succ = False, Timeout = 0\<rparr> b = (None, m)"
proof -
  have "check_unmarshalLoop l m1 [] = (None, m1)" for l m1 by (subst check_unmarshalLoop.simps) simp
  moreover have "check_unmarshalLoop l m1 (0x8 # 1 # bs) = check_unmarshalLoop l (m1\<lparr>Succ := True\<rparr>) bs" for l m1 bs
    by (subst check_unmarshalLoop.simps) (simp add: Let_def)
  moreover have "check_unmarshalLoop l m1 (0x10 # varint (unat v) @ bs) = check_unmarshalLoop l (m1\<lparr>Timeout := v\<rparr>) bs" for l m1 v bs
    by (subst check_unmarshalLoop.simps) (simp add: decode_word Let_def)
  note this [of _ _ _ "[]", simplified]
  ultimately have "MsgCheck_Unmarshal \<lparr>Succ = False, Timeout = 0\<rparr> (check_bytes m) = (None, m)"
    by (cases m) (simp add: MsgCheck_Unmarshal_def check_bytes_def)
  then show ?thesis by (simp add: MsgCheck_Marshal_def check_Marshal_sized MsgCheck_Size_bytes)
qed

text \<open>\<open>MarshalTo\<close> writes the same bytes at the front of a longer buffer and panics on a shorter one.\<close>

lemma MarshalTo_spec:
  "MsgSetUp_Size m \<le> length dAtA \<Longrightarrow> MsgSetUp_MarshalTo m dAtA = Some (MsgSetUp_Size m, setup_bytes m @ drop (MsgSetUp_Size m) dAtA)"
  "MsgCheck_Size c \<le> length dAtA \<Longrightarrow> MsgCheck_MarshalTo c dAtA = Some (MsgCheck_Size c, check_bytes c @ drop (MsgCheck_Size c) dAtA)"
  by (simp_all add: MsgSetUp_MarshalTo_def MsgCheck_MarshalTo_def Let_def MarshalToSizedBuffer_spec check_Marshal_sized
      MsgSetUp_Size_bytes MsgCheck_Size_bytes)

section \<open>Fields of a later version\<close>

text \<open>A field with a number that is not known is skipped, here one that holds a varint or bytes.\<close>

lemma skip_varint:
  assumes "b < 0x80" "b AND 7 = 0"
  shows "skipRpccheckmsg (b # varint (unat (v :: u64)) @ rest) = Inr (1 + sov v)"
proof -
  have "ucast b AND (7 :: u64) = 0"
    using arg_cong [OF assms(2), of "\<lambda>x. ucast x :: u64"] by (simp add: unsigned_and_eq)
  then show ?thesis
    using sov_le [of v] unfolding skipRpccheckmsg_def
    by (subst skipLoop.simps) (simp add: tag_decodes [OF assms(1)] skipField_def decode_word length_varint_sov del: decodeVarint.simps)
qed

lemma unknown_field_skipped:
  assumes "l < 2 ^ 63" "length rest + 1 + sov v \<le> l" "b < 0x80" "b AND 7 = 0" "unat b \<ge> 32"
  shows "unmarshalLoop l m (b # varint (unat (v :: u64)) @ rest) = unmarshalLoop l m rest"
proof -
  have w: "ucast b AND (7 :: u64) = 0"
    using arg_cong [OF assms(4), of "\<lambda>x. ucast x :: u64"] by (simp add: unsigned_and_eq)
  have b: "unat b < 128" using assms(3) by (simp add: word_less_nat_alt)
  have "unat (ucast (drop_bit 3 (ucast b :: u64)) :: 32 word) = unat b div 8"
    using b by (simp add: unsigned_ucast_eq unsigned_drop_bit_eq drop_bit_eq_div take_bit_nat_eq_self unat_div)
  then have "uint (ucast (drop_bit 3 (ucast b :: u64)) :: 32 word) = int (unat b div 8)" by (metis uint_nat)
  then have f: "sint (ucast (drop_bit 3 (ucast b :: u64)) :: 32 word) = int (unat b div 8)"
    using b by (simp add: sint_uint signed_take_bit_int_eq_self)
  have "int (unat b div 8) \<ge> 4" using assms(5) by linarith
  then show ?thesis
    using assms(1,2) skip_varint [OF assms(3,4), of v rest]
    by (subst unmarshalLoop.simps) (simp add: tag_decodes [OF assms(3)] Let_def w f length_varint_sov del: decodeVarint.simps, linarith)
qed

end
