(* ===== verification/Safelink_Listen.thy ===== *)
theory Safelink_Listen
  imports Safelink_Context
begin

text \<open>
  The rest of \<open>xnet/safelink_context.go\<close>: listening for other processes with its accept goroutine, and the answer
  to heartbeats, which the read thread hands to the send thread as a closure over its own buffer. Here the
  buffer is shared memory: both threads see its contents.
\<close>

section \<open>Listening\<close>

text \<open>\<open>split\<close> is the port of \<open>net.SplitHostPort\<close>, \<open>listen\<close> the address a socket is bound to, or an error.\<close>

definition Context_Listen :: "(string \<Rightarrow> string option) \<Rightarrow> (string \<Rightarrow> string option) \<Rightarrow> string \<Rightarrow> 'pk Context \<Rightarrow> bool \<times> 'pk Context" where
  "Context_Listen split listen addr ctx =
     (let ctx = ctx\<lparr>cx_isstop := False\<rparr>;
          addr = (case split addr of Some port \<Rightarrow> '':'' @ port | None \<Rightarrow> addr) in
      case listen addr of
        None \<Rightarrow> (False, ctx)
      | Some bound \<Rightarrow> (True, ctx\<lparr>cx_binds := bound # removeAll bound (cx_binds ctx)\<rparr>))"

text \<open>A round of the accept goroutine: an error of \<open>Accept\<close>, or a connection from \<open>peer\<close>, which becomes link \<open>i\<close>. The
  flag says whether the goroutine has ended, the number which link to set up.\<close>

definition accept_round :: "string \<Rightarrow> int \<Rightarrow> string \<Rightarrow> nat \<Rightarrow> string option \<Rightarrow> 'pk Context \<Rightarrow> bool \<times> nat option \<times> 'pk Context" where
  "accept_round bound routeID name i peer ctx =
     (case peer of
        None \<Rightarrow> (True, None, ctx\<lparr>cx_ev := cx_ev ctx @ [EvCloseBind bound]\<rparr>)
      | Some p \<Rightarrow>
          if cx_isstop ctx then (True, None, ctx)
          else (False, Some i, ctx\<lparr>cx_lk := (cx_lk ctx)(i := newLink p routeID name False)\<rparr>))"

text \<open>\<open>SafeLinkMetric.Pull\<close>.\<close>

definition SafeLinkMetric_Pull :: "'pk Context \<Rightarrow> nat" where
  "SafeLinkMetric_Pull ctx = length (cx_ev ctx) + ExpandQueue_Len (cx_evCache ctx)"

text \<open>A listener gets every connection until the context stops, and its entry goes with it.\<close>

lemma listen_accepts:
  assumes "Context_Listen split listen addr ctx = (True, ctx')"
  shows "\<exists>bound. bound \<in> set (cx_binds ctx') \<and>
    (\<forall>routeID name i p. \<exists>c. accept_round bound routeID name i (Some p) ctx' = (False, Some i, c) \<and>
       l_addr (cx_lk c i) = p \<and> \<not> l_isdial (cx_lk c i) \<and> \<not> redialIfDisconnect (cx_lk c i)) \<and>
    (\<forall>c i p routeID name. cx_isstop c \<longrightarrow> accept_round bound routeID name i (Some p) c = (True, None, c))"
  using assms by (auto simp: Context_Listen_def accept_round_def newLink_def redialIfDisconnect_def Let_def split: option.splits)

text \<open>\<open>Listen\<close> replaces the host by nothing and enters the address the socket reports: \<open>CloseListen\<close> with the address that
  was given closes nothing.\<close>

lemma CloseListen_misses:
  assumes "Context_Listen split listen addr ctx = (True, ctx')" "addr \<notin> set (cx_binds ctx)" "\<And>a. listen a \<noteq> Some addr"
  shows "CloseListen ctx' addr = ctx'"
  using assms by (auto simp: Context_Listen_def CloseListen_def Let_def split: option.splits)

text \<open>Stopping and listening again: the event of the old listener removes the entry of the new one, which can then
  no longer be closed.\<close>

lemma fold_close_binds: "cx_binds (fold (\<lambda>i. upd_link i f) is c) = cx_binds c"
  by (induction "is" arbitrary: c) (simp_all add: upd_link_def)

lemma StopAll_binds: "cx_binds (StopAll ctx) = []"
  by (simp add: StopAll_def fold_close_binds Let_def)

lemma stop_listen_loses_bind:
  assumes "Context_Listen split listen addr ctx = (True, ctx1)"
  shows "\<exists>bound. let old = snd (snd (accept_round bound routeID name i None (StopAll ctx1)));
      ctx2 = snd (Context_Listen split listen addr old) in
    cx_binds ctx2 = [bound] \<and> EvCloseBind bound \<in> set (cx_ev ctx2) \<and>
    (\<exists>c. dealEvent w ctx2 (EvCloseBind bound) = Some c \<and> cx_binds c = [] \<and> CloseListen c bound = c)"
proof -
  let ?addr = "case split addr of Some port \<Rightarrow> '':'' @ port | None \<Rightarrow> addr"
  obtain bound where "listen ?addr = Some bound" using assms by (auto simp: Context_Listen_def Let_def split: option.splits)
  then have "Context_Listen split listen addr c = (True, c\<lparr>cx_isstop := False, cx_binds := bound # removeAll bound (cx_binds c)\<rparr>)" for c :: "'a Context"
    by (simp add: Context_Listen_def Let_def)
  then show ?thesis
    by (intro exI [of _ bound]) (simp add: accept_round_def StopAll_binds dealEvent_def CloseListen_def Let_def)
qed

section \<open>The channel between read and send thread\<close>

text \<open>\<open>read2WriteSingleUpdate\<close> on a channel of capacity one: the receiver may take the old value in between (\<open>taken\<close>).\<close>

definition read2WriteSingleUpdate :: "bool \<Rightarrow> 'f \<Rightarrow> 'f option \<Rightarrow> 'f list \<times> 'f option" where
  "read2WriteSingleUpdate taken fn ch =
     (case ch of
        None \<Rightarrow> ([], Some fn)
      | Some old \<Rightarrow> if taken then ([old], Some fn) else ([], Some fn))"

section \<open>Answering heartbeats\<close>

definition bufferSize :: nat where "bufferSize = 4096"

text \<open>A closure refers to the front of the read buffer, or to an array of its own when the frame did not fit.\<close>

datatype heartRef = InBuf nat | OwnBuf bytes

record heart =
  ht_buf :: bytes
  ht_chan :: "heartRef option"
  ht_wire :: "bytes list" \<comment> \<open>bodies of the heartbeats sent back\<close>

definition deref :: "heart \<Rightarrow> heartRef \<Rightarrow> bytes" where
  "deref s r = (case r of InBuf n \<Rightarrow> take n (ht_buf s) | OwnBuf b \<Rightarrow> b)"

text \<open>The head of the next frame has been read: it lies in the buffer.\<close>

definition heart_head :: "bytes \<Rightarrow> heart \<Rightarrow> heart" where
  "heart_head head s = s\<lparr>ht_buf := put_at 0 head (ht_buf s)\<rparr>"

text \<open>The body has been read, of a heartbeat or of a packet.\<close>

definition heart_body :: "bool \<Rightarrow> bytes \<Rightarrow> heart \<Rightarrow> heart" where
  "heart_body isHeart body s =
     (let (ref, s) = (if length (ht_buf s) < length body then (OwnBuf body, s) else (InBuf (length body), s\<lparr>ht_buf := put_at 0 body (ht_buf s)\<rparr>)) in
      if isHeart then s\<lparr>ht_chan := snd (read2WriteSingleUpdate False ref (ht_chan s))\<rparr> else s)"

text \<open>The send thread takes the closure and runs it.\<close>

definition heart_echo :: "heart \<Rightarrow> heart" where
  "heart_echo s = (case ht_chan s of None \<Rightarrow> s | Some r \<Rightarrow> s\<lparr>ht_chan := None, ht_wire := ht_wire s @ [deref s r]\<rparr>)"

text \<open>A heartbeat that is answered before the next frame comes in goes back as it came, and the other side has the
  time it took.\<close>

lemma heart_prompt:
  assumes "length (ht_buf s) = bufferSize"
  shows "ht_wire (heart_echo (heart_body True (heartSerialize t) s)) = ht_wire s @ [heartSerialize t]"
  using assms
  by (cases "ht_chan s")
    (simp_all add: heart_echo_def heart_body_def read2WriteSingleUpdate_def deref_def heartSerialize_def put_at_def bufferSize_def Let_def)

lemma heart_rtt:
  assumes "0 \<le> sint (now - t)" "sint (now - t) \<le> 600000000000"
  shows "heartDeserialize now (heartSerialize t) = now - t"
  using assms le_word_bytes [of 8 t] by (simp add: heartDeserialize_def heartSerialize_def heartSize_def Let_def)

text \<open>When the head of the next frame arrives first, the heartbeat goes back with the length and the number of that
  frame in place of the time.\<close>

lemma heart_overwritten:
  assumes "length (ht_buf s) = bufferSize" "length head = headSize"
  shows "ht_wire (heart_echo (heart_head head (heart_body True (heartSerialize t) s))) = ht_wire s @ [take 8 head]"
  using assms
  by (cases "ht_chan s")
    (simp_all add: heart_echo_def heart_head_def heart_body_def read2WriteSingleUpdate_def deref_def heartSerialize_def put_at_def
      bufferSize_def headSize_def Let_def)

end
