(* ===== verification/Rdp_Endpoint.thy ===== *)
theory Rdp_Endpoint
  imports Rdp_Dispatcher
begin

text \<open>
  The two ends of the reliable protocol as they are put together: \<open>Listen\<close> with its listener
  (\<open>rdp/listener.go\<close>), \<open>DialContext\<close> with the goroutine that sends the dial packet (\<open>rdp/dial.go\<close>), the
  read and send goroutines of both dispatchers (\<open>rdp/dispatcher.go\<close>), and the batching connection of systems
  without batches (\<open>rdp/xconn_generic.go\<close>). Which system calls succeed is a parameter; \<open>None\<close> is a panic.
\<close>

section \<open>Opening a socket\<close>

record sockEnv =
  sk_resolve :: bool
  sk_listen :: bool
  sk_readBuffer :: bool
  sk_writeBuffer :: bool
  sk_deadline :: bool
  sk_local :: bool \<comment> \<open>whether \<open>NewXConn\<close> can resolve the local address\<close>

text \<open>\<open>NewXConn\<close> gives nil when it cannot resolve the local address, which \<open>newCrcConn\<close> then dereferences.\<close>

definition NewXConn :: "sockEnv \<Rightarrow> Metric \<Rightarrow> XConnBatch option" where
  "NewXConn e m = (if sk_local e then Some \<lparr>SendQ = [], wire = [], x_metrics = m\<rparr> else None)"

definition newCrcConn :: "sockEnv \<Rightarrow> Metric \<Rightarrow> XConnBatch option" where
  "newCrcConn e m = do { x \<leftarrow> NewXConn e m; Some x }"

definition newServerDispatcher :: "sockEnv \<Rightarrow> Metric \<Rightarrow> serverDispatcher option" where
  "newServerDispatcher e m = do {
     x \<leftarrow> newCrcConn e m;
     Some \<lparr>sd_clients = [], sd_conns = (\<lambda>_. NewRdpConn \<lparr>IP = [], Port = 0\<rparr> 0 m), sd_next = 0, sd_closed = False, sd_accept = [], sd_x = x\<rparr> }"

section \<open>The listener\<close>

text \<open>\<open>l_open\<close>: the socket; \<open>l_closeSig\<close>: the channel is closed.\<close>

record Listener =
  ln_dispatcher :: serverDispatcher
  ln_timeout :: "int option"
  ln_open :: bool
  ln_closeSig :: bool

text \<open>The listener, if there is one, and whether a socket has been left open.\<close>

definition Listen :: "sockEnv \<Rightarrow> Metric \<Rightarrow> (Listener option \<times> bool) option" where
  "Listen e m =
     (if \<not> sk_resolve e then Some (None, False)
      else if \<not> sk_listen e then Some (None, False)
      else if \<not> sk_readBuffer e then Some (None, True)
      else if \<not> sk_writeBuffer e then Some (None, True)
      else do {
        d \<leftarrow> newServerDispatcher e m;
        Some (Some \<lparr>ln_dispatcher = d, ln_timeout = None, ln_open = True, ln_closeSig = False\<rparr>, True) })"

definition SetClientTimeout :: "int \<Rightarrow> Listener \<Rightarrow> Listener option" where
  "SetClientTimeout t l = (if ln_timeout l \<noteq> None then None else Some (l\<lparr>ln_timeout := Some t\<rparr>))"

text \<open>A round of the goroutine that \<open>SetClientTimeout\<close> starts: a tick, or the end.\<close>

definition timeout_step :: "int \<Rightarrow> Listener \<Rightarrow> (bool \<times> Listener) option" where
  "timeout_step now l =
     (if ln_closeSig l then Some (True, l)
      else case ln_timeout l of
          None \<Rightarrow> Some (True, l)
        | Some t \<Rightarrow> do { d \<leftarrow> server_timeout now t (ln_dispatcher l); Some (False, l\<lparr>ln_dispatcher := d\<rparr>) })"

definition Listener_Close :: "Listener \<Rightarrow> Listener option" where
  "Listener_Close l = (if ln_closeSig l then None else Some (l\<lparr>ln_closeSig := True, ln_open := False\<rparr>))"

text \<open>A round of \<open>serverDispatcher.sender\<close>: the tick with what the socket answers, or the signal.\<close>

definition server_sender :: "nat option list option \<Rightarrow> Listener \<Rightarrow> bool \<times> Listener" where
  "server_sender ev l =
     (case ev of
        None \<Rightarrow> (ln_closeSig l, l)
      | Some answers \<Rightarrow>
          let d = ln_dispatcher l in
          if sd_closed d then (True, l)
          else (case uncork answers (sd_x d) of (_, _, x) \<Rightarrow> (False, l\<lparr>ln_dispatcher := d\<lparr>sd_x := x\<rparr>\<rparr>)))"

section \<open>The client\<close>

definition newClientDispatcher :: "sockEnv \<Rightarrow> RdpConn \<Rightarrow> Metric \<Rightarrow> clientDispatcher option" where
  "newClientDispatcher e c m = do { x \<leftarrow> newCrcConn e m; Some \<lparr>cd_client = c, cd_closeSig = False, cd_x = x\<rparr> }"

definition client_recvCrcData :: "bytes \<Rightarrow> clientDispatcher \<Rightarrow> bytes \<Rightarrow> UDPAddr \<Rightarrow> clientDispatcher option" where
  "client_recvCrcData buf d data addr = do {
     n \<leftarrow> checkPacket data (length data);
     if n < 1
     then (let x = cd_x d; m = x_metrics x in Some (d\<lparr>cd_x := x\<lparr>x_metrics := m\<lparr>CheckSumErr := CheckSumErr m + 1\<rparr>\<rparr>\<rparr>))
     else Some (client_readLogic buf d (take n data) addr) }"

fun client_recvAll :: "bytes \<Rightarrow> clientDispatcher \<Rightarrow> (bytes \<times> UDPAddr) list \<Rightarrow> clientDispatcher option" where
  "client_recvAll buf d [] = Some d"
| "client_recvAll buf d ((data, addr) # ms) = do { d' \<leftarrow> client_recvCrcData buf d data addr; client_recvAll buf d' ms }"

text \<open>\<open>clientDispatcher.read\<close>: the loop ends with a network error, and the deferred call closes the connection. The
  flag says whether it has ended.\<close>

fun client_read :: "bytes \<Rightarrow> read_event list \<Rightarrow> clientDispatcher \<Rightarrow> (bool \<times> clientDispatcher) option" where
  "client_read buf [] d = Some (False, d)"
| "client_read buf (RdBatch ms # evs) d = do { d' \<leftarrow> client_recvAll buf d ms; client_read buf evs d' }"
| "client_read buf (RdNetErr # evs) d = Some (True, d\<lparr>cd_client := snd (safeCloseRead (cd_client d))\<rparr>)"
| "client_read buf (_ # evs) d = client_read buf evs d"

definition client_sender :: "nat option list option \<Rightarrow> clientDispatcher \<Rightarrow> bool \<times> clientDispatcher" where
  "client_sender ev d =
     (case ev of
        None \<Rightarrow> (cd_closeSig d, d)
      | Some answers \<Rightarrow> (case uncork answers (cd_x d) of (_, _, x) \<Rightarrow> (False, d\<lparr>cd_x := x\<rparr>)))"

section \<open>Dialling\<close>

text \<open>What a call of \<open>DialContext\<close> leaves behind: the connection, the socket, and whether \<open>done\<close> is closed, which ends
  the goroutine that sends the dial packet, where it was started.\<close>

record dialEnd =
  de_result :: "dial_result option" \<comment> \<open>\<open>None\<close>: failed before the dialling\<close>
  de_conn :: "clientDispatcher option"
  de_sockOpen :: bool
  de_sender :: bool
  de_done :: bool

definition dialFailed :: "bool \<Rightarrow> dialEnd" where
  "dialFailed open = \<lparr>de_result = None, de_conn = None, de_sockOpen = open, de_sender = False, de_done = False\<rparr>"

definition DialContext :: "sockEnv \<Rightarrow> bool \<Rightarrow> UDPAddr \<Rightarrow> int \<Rightarrow> Metric \<Rightarrow> dial_event list \<Rightarrow> dialEnd option" where
  "DialContext e hasDeadline remote now m evs =
     (if \<not> sk_resolve e then Some (dialFailed False)
      else if \<not> sk_listen e then Some (dialFailed False)
      else if \<not> sk_readBuffer e then Some (dialFailed False)
      else if \<not> sk_writeBuffer e then Some (dialFailed False)
      else if hasDeadline \<and> \<not> sk_deadline e then Some (dialFailed False)
      else do {
        d \<leftarrow> newClientDispatcher e (NewRdpConn remote now m) m;
        Some (case fst (dialLoop remote evs) of
            DialOk \<Rightarrow> \<lparr>de_result = Some DialOk, de_conn = Some d, de_sockOpen = True, de_sender = True, de_done = True\<rparr>
          | DialDone \<Rightarrow> \<lparr>de_result = Some DialDone, de_conn = None, de_sockOpen = True, de_sender = True, de_done = False\<rparr>
          | DialBlocked \<Rightarrow> \<lparr>de_result = Some DialBlocked, de_conn = None, de_sockOpen = True, de_sender = True, de_done = False\<rparr>
          | r \<Rightarrow> \<lparr>de_result = Some r, de_conn = None, de_sockOpen = False, de_sender = True, de_done = False\<rparr>) })"

text \<open>The goroutine: a round sends the packet and looks whether the context or \<open>done\<close> has ended. The list has, for
  each round, what the socket answers and whether the context has ended.\<close>

fun dialSender :: "bytes \<Rightarrow> UDPAddr \<Rightarrow> bool \<Rightarrow> (nat option list \<times> bool) list \<Rightarrow> XConnBatch \<Rightarrow> bool \<times> XConnBatch" where
  "dialSender buf remote done [] x = (False, x)"
| "dialSender buf remote done ((answers, ctxDone) # rs) x =
     (case sendDial buf answers x remote of
        (_, _, x') \<Rightarrow> if ctxDone \<or> done then (True, x') else dialSender buf remote done rs x')"

section \<open>Systems without batches\<close>

text \<open>\<open>WriteBatch\<close> sends one datagram after the other and stops at the first error; \<open>ReadBatch\<close> reads one.\<close>

fun WriteBatch_each :: "bool list \<Rightarrow> nat \<Rightarrow> (bytes \<times> UDPAddr) list \<Rightarrow> XConnBatch \<Rightarrow> bool outcome \<times> bool list \<times> XConnBatch" where
  "WriteBatch_each answers npkts [] x =
     (let m = x_metrics x in
      (Done True, answers, x\<lparr>x_metrics := m\<lparr>UDPSendBytes := UDPSendBytes m + of_nat npkts, UDPSendPackets := UDPSendPackets m + of_nat npkts\<rparr>\<rparr>))"
| "WriteBatch_each [] npkts (p # ps) x = (Blocked, [], x)"
| "WriteBatch_each (True # as) npkts (p # ps) x = WriteBatch_each as (npkts + 1) ps (x\<lparr>wire := wire x @ [p]\<rparr>)"
| "WriteBatch_each (False # as) npkts (p # ps) x = (Done False, as, x)"

definition WriteBatch_generic :: "bool list \<Rightarrow> XConnBatch \<Rightarrow> bool outcome \<times> bool list \<times> XConnBatch" where
  "WriteBatch_generic answers x = WriteBatch_each answers 0 (SendQ x) x"

definition ReadBatch_generic :: "bytes \<Rightarrow> serverDispatcher \<Rightarrow> bytes \<times> UDPAddr \<Rightarrow> serverDispatcher option" where
  "ReadBatch_generic buf d = (\<lambda>(data, from).
     let x = sd_x d; m = x_metrics x in
     server_recvCrcData buf (d\<lparr>sd_x := x\<lparr>x_metrics := m\<lparr>UDPRecvBytes := UDPRecvBytes m + of_nat (length data),
       UDPRecvPackets := UDPRecvPackets m + 1\<rparr>\<rparr>\<rparr>) data from)"

section \<open>What holds\<close>

text \<open>Sending one by one is sending in batches of one: the same datagrams in the same order, the same figures.\<close>

abbreviation ones :: "bool list \<Rightarrow> nat option list" where
  "ones \<equiv> map (\<lambda>ok. if ok then Some 1 else None)"

lemma WriteBatch_cases:
  "SendQ y = [] \<Longrightarrow> WriteBatch as k y = (Done True, as, y\<lparr>x_metrics := (x_metrics y)\<lparr>UDPSendBytes := UDPSendBytes (x_metrics y) + of_nat k,
     UDPSendPackets := UDPSendPackets (x_metrics y) + of_nat k\<rparr>\<rparr>)"
  "SendQ y = p # ps \<Longrightarrow> WriteBatch [] k y = (Blocked, [], y)"
  "SendQ y = p # ps \<Longrightarrow> WriteBatch (None # as) k y = (Done False, as, y)"
  "SendQ y = p # ps \<Longrightarrow> WriteBatch (Some (Suc 0) # as) k y = WriteBatch as (Suc k) (y\<lparr>wire := wire y @ [p], SendQ := ps\<rparr>)"
  by (subst WriteBatch.simps, simp add: Let_def)+

lemma WriteBatch_each_is_batch:
  assumes "WriteBatch_each answers k ps x = (r, as, x')" "SendQ y = ps" "wire y = wire x" "x_metrics y = x_metrics x"
  shows "\<exists>y'. WriteBatch (ones answers) k y = (r, ones as, y') \<and> wire y' = wire x' \<and> x_metrics y' = x_metrics x'"
  using assms
proof (induction answers k ps x arbitrary: y rule: WriteBatch_each.induct)
  case (3 as' k p ps x)
  then show ?case using 3(1) [of "y\<lparr>wire := wire y @ [p], SendQ := ps\<rparr>"] by (simp add: WriteBatch_cases)
qed (auto simp: WriteBatch_cases Let_def)

lemma generic_is_batch:
  assumes "WriteBatch_generic answers x = (r, as, x')"
  shows "\<exists>y'. WriteBatch (ones answers) 0 x = (r, ones as, y') \<and> wire y' = wire x' \<and> x_metrics y' = x_metrics x'"
  by (rule WriteBatch_each_is_batch [OF assms [unfolded WriteBatch_generic_def]]) simp_all

text \<open>Whatever the connections of a server have queued is on the wire after the next tick of its sender, in
  order, unless the socket fails.\<close>

lemma sender_flushes:
  assumes "\<not> sd_closed (ln_dispatcher l)" "uncork answers (sd_x (ln_dispatcher l)) = (Done True, as, x)"
  shows "\<exists>l'. server_sender (Some answers) l = (False, l') \<and> SendQ (sd_x (ln_dispatcher l')) = [] \<and>
    wire (sd_x (ln_dispatcher l')) = wire (sd_x (ln_dispatcher l)) @ SendQ (sd_x (ln_dispatcher l)) \<and>
    sd_clients (ln_dispatcher l') = sd_clients (ln_dispatcher l)"
  using assms uncork_ok [OF assms(2)] by (auto simp: server_sender_def Let_def)

text \<open>A new listener satisfies the invariant of the server, and the time-outs keep it.\<close>

lemma Listen_ok:
  assumes "Listen e m = Some (Some l, b)" "ConnectionNum m = 0"
  shows "server_inv (ln_dispatcher l) \<and> ln_open l \<and> \<not> ln_closeSig l"
  using assms by (auto simp: Listen_def newServerDispatcher_def newCrcConn_def NewXConn_def server_inv_def bind_eq_Some_conv split: if_splits)

lemma timeout_step_ok:
  assumes "server_inv (ln_dispatcher l)"
  shows "\<exists>fin l'. timeout_step now l = Some (fin, l') \<and> server_inv (ln_dispatcher l') \<and> (fin \<longleftrightarrow> ln_closeSig l \<or> ln_timeout l = None)"
proof -
  have d: "distinct (map snd (sd_clients (ln_dispatcher l)))" using assms by (simp add: server_inv_def)
  have s: "set (map snd (sd_clients (ln_dispatcher l))) \<subseteq> snd ` set (sd_clients (ln_dispatcher l))" by simp
  have t: "\<exists>d'. server_timeout now t (ln_dispatcher l) = Some d' \<and> server_inv d'" for t
    unfolding server_timeout_def
    by (rule exE [OF closeClients_spec [OF assms d s, of "\<lambda>c. now - c_lastSeen c > t"]]) blast
  show ?thesis
  proof (cases "ln_timeout l")
    case None
    then show ?thesis using assms by (auto simp: timeout_step_def)
  next
    case (Some t)
    obtain d' where "server_timeout now t (ln_dispatcher l) = Some d'" "server_inv d'" using t by blast
    then show ?thesis using assms Some by (simp add: timeout_step_def)
  qed
qed

text \<open>When the buffers of the socket cannot be set, \<open>Listen\<close> leaves the socket open and \<open>DialContext\<close> closes it.\<close>

lemma listen_leaks_socket:
  assumes "sk_resolve e" "sk_listen e" "\<not> sk_readBuffer e"
  shows "Listen e m = Some (None, True) \<and> DialContext e hasDeadline remote now m evs = Some (dialFailed False)"
  using assms by (simp add: Listen_def DialContext_def)

text \<open>A successful dial ends its sender at the end of the round and has a fresh connection.\<close>

lemma dial_ok:
  assumes "sk_resolve e" "sk_listen e" "sk_readBuffer e" "sk_writeBuffer e" "sk_deadline e" "sk_local e" "dialLoop remote evs = (DialOk, rest)"
  shows "\<exists>d. DialContext e hasDeadline remote now m evs = Some d \<and> de_done d \<and> de_sockOpen d \<and>
    (\<exists>c. de_conn d = Some c \<and> cd_client c = NewRdpConn remote now m \<and> \<not> isClosed (cd_client c)) \<and>
    (\<forall>round rs x. fst (dialSender buf remote (de_done d) (round # rs) x))"
  using assms by (auto simp: DialContext_def newClientDispatcher_def newCrcConn_def NewXConn_def NewRdpConn_def isClosed_def split: prod.splits)

text \<open>A dial that fails leaves \<open>done\<close> open: without a deadline the goroutine sends on the closed socket for ever. A
  dial whose context ends leaves the socket open.\<close>

lemma dial_sender_forever:
  assumes "DialContext e hasDeadline remote now m evs = Some d" "de_result d = Some DialChecksum \<or> de_result d = Some DialErr"
  shows "de_sender d \<and> \<not> de_sockOpen d \<and> (\<forall>rs x. (\<forall>r \<in> set rs. \<not> snd r) \<longrightarrow> \<not> fst (dialSender buf remote (de_done d) rs x))"
proof -
  have d: "de_sender d \<and> \<not> de_sockOpen d \<and> \<not> de_done d"
    using assms by (cases "fst (dialLoop remote evs)") (auto simp: DialContext_def dialFailed_def bind_eq_Some_conv split: if_splits)
  have "\<not> fst (dialSender buf remote False rs x)" if "\<forall>r \<in> set rs. \<not> snd r" for rs x
    using that by (induction rs arbitrary: x) (auto split: prod.splits)
  then show ?thesis using d by simp
qed

lemma dial_done_leaks:
  assumes "DialContext e hasDeadline remote now m evs = Some d" "de_result d = Some DialDone"
  shows "de_sockOpen d \<and> de_conn d = None"
  using assms by (cases "fst (dialLoop remote evs)") (auto simp: DialContext_def dialFailed_def bind_eq_Some_conv split: if_splits)

text \<open>A datagram with a wrong checksum from anywhere ends the dial: the checksum is looked at before the address.\<close>

lemma dial_stranger_aborts:
  assumes "checkPacket packet (length packet) = Some 0"
  shows "fst (dialLoop remote (DialDatagram packet stranger # evs)) = DialChecksum"
  using assms by simp

text \<open>The read goroutine of a client never panics on what arrives, ends only with the socket, and leaves the
  connection closed; closing the client a second time panics.\<close>

lemma checkPacket_total: "\<exists>n. checkPacket data (length data) = Some n"
  by (simp add: checkPacket_def Let_def)

lemma client_readLogic_sel:
  "cd_closeSig (client_readLogic buf d data addr) = cd_closeSig d" "c_remote (cd_client (client_readLogic buf d data addr)) = c_remote (cd_client d)"
  by (simp_all add: client_readLogic_def Let_def split: prod.splits)

lemma client_recvAll_total: "\<exists>d'. client_recvAll buf d ms = Some d' \<and> cd_closeSig d' = cd_closeSig d \<and> c_remote (cd_client d') = c_remote (cd_client d)"
proof (induction ms arbitrary: d)
  case (Cons p ms)
  obtain data addr where p: "p = (data, addr)" by fastforce
  obtain n where n: "checkPacket data (length data) = Some n" using checkPacket_total by blast
  obtain d1 where d1: "client_recvCrcData buf d data addr = Some d1"
    "cd_closeSig d1 = cd_closeSig d" "c_remote (cd_client d1) = c_remote (cd_client d)"
    by (cases "n < 1") (auto simp: client_recvCrcData_def n client_readLogic_sel Let_def)
  then show ?case using Cons.IH [of d1] p by auto
qed simp

lemma client_read_total:
  "\<exists>fin d'. client_read buf evs d = Some (fin, d') \<and> (fin \<longleftrightarrow> RdNetErr \<in> set evs) \<and> (fin \<longrightarrow> isClosed (cd_client d')) \<and> cd_closeSig d' = cd_closeSig d"
proof (induction buf evs d rule: client_read.induct)
  case (2 buf ms evs d)
  obtain d1 where "client_recvAll buf d ms = Some d1" "cd_closeSig d1 = cd_closeSig d" using client_recvAll_total by blast
  then show ?case using 2 [of d1] by auto
qed (auto simp: safeCloseRead_sel)

lemma close_twice_panics: "Listener_Close l = Some l' \<Longrightarrow> Listener_Close l' = None" "client_close d = Some d' \<Longrightarrow> client_close d' = None"
  by (auto simp: Listener_Close_def client_close_def split: if_splits)

end
