(* ===== verification/Stream_Factory.thy ===== *)
theory Stream_Factory
  imports Tlv_Stream
begin

text \<open>
  How the streams of \<open>Tlv_Stream\<close> are made and what compresses them: \<open>TLVStreamFactory\<close> (\<open>xnet/tlvstream.go\<close>) and the
  binding to lz4 (\<open>xnet/codec/lz4_c.go\<close>). The two functions of lz4 itself are parameters; \<open>None\<close> is a panic.
\<close>

section \<open>The factory\<close>

record TLVStreamFactory =
  tf_timeout :: int
  tf_headLen :: nat
  tf_headsize :: nat \<comment> \<open>of the body formatter\<close>
  tf_encoding :: string

definition NewTLVStreamFactory :: "int \<Rightarrow> nat \<Rightarrow> nat \<Rightarrow> string \<Rightarrow> TLVStreamFactory" where
  "NewTLVStreamFactory timeout headLen headsize encoding =
     \<lparr>tf_timeout = timeout, tf_headLen = headLen, tf_headsize = headsize, tf_encoding = encoding\<rparr>"

text \<open>Where a stream reads from and writes to: the connection itself, or for datagrams a buffered reader and the
  writer that cuts into pieces.\<close>

datatype streamReader = ReadConn | ReadBuffered nat
datatype streamWriter = WriteConn | WritePieces rdpWriter

record TLVStream =
  ts_rheadBuf :: bytes
  ts_writeBuf :: bytes
  ts_headLen :: nat
  ts_timeout :: int
  ts_body :: PBFormater
  ts_reader :: streamReader
  ts_writer :: streamWriter
  ts_deadline :: "int option" \<comment> \<open>deadline of the connection\<close>

definition NewStream :: "int \<Rightarrow> TLVStreamFactory \<Rightarrow> TLVStream" where
  "NewStream now f =
     \<lparr>ts_rheadBuf = replicate (tf_headLen f) 0, ts_writeBuf = replicate (tf_headLen f) 0, ts_headLen = tf_headLen f,
      ts_timeout = tf_timeout f, ts_body = NewPBFormater (tf_headsize f) (tf_encoding f), ts_reader = ReadConn, ts_writer = WriteConn,
      ts_deadline = (if tf_timeout f \<noteq> 0 then Some (now + tf_timeout f) else None)\<rparr>"

definition NewStreamWithDatagramConn :: "int \<Rightarrow> nat \<Rightarrow> TLVStreamFactory \<Rightarrow> TLVStream" where
  "NewStreamWithDatagramConn now maxPacketSize f =
     (NewStream now f)\<lparr>ts_reader := ReadBuffered maxPacketSize, ts_writer := WritePieces (newRdpWriter maxPacketSize)\<rparr>"

text \<open>A write through the stream's writer: the pieces that reach the connection, when it takes them all.\<close>

definition stream_write :: "TLVStream \<Rightarrow> bytes \<Rightarrow> bytes list" where
  "stream_write s p =
     (case ts_writer s of
        WriteConn \<Rightarrow> [p]
      | WritePieces w \<Rightarrow> (case rdpWriter_Write w (replicate (length p) None) p of (_, ds, _) \<Rightarrow> ds))"

section \<open>Compression\<close>

text \<open>\<open>lz_compress src n\<close> is what \<open>LZ4_compress_fast_extState_fastReset\<close> leaves in a buffer of \<open>n\<close> bytes, empty when it does
  not fit; \<open>lz_decompress\<close> gives \<open>None\<close> for a negative result.\<close>

record lz4Lib =
  lz_compress :: "bytes \<Rightarrow> nat \<Rightarrow> bytes"
  lz_decompress :: "bytes \<Rightarrow> nat \<Rightarrow> bytes option"

text \<open>Both take the address of the first byte of their slices, which panics when there is none.\<close>

definition LZ4C_Encode :: "lz4Lib \<Rightarrow> nat \<Rightarrow> bytes \<Rightarrow> (bytes \<times> bool) option" where
  "LZ4C_Encode lz dst src =
     (if src = [] \<or> dst = 0 then None
      else let c = lz_compress lz src dst; n = length c in
        if n = 0 \<or> n \<ge> length src then Some (src, False) else Some (c, True))"

definition LZ4C_Decode :: "lz4Lib \<Rightarrow> nat \<Rightarrow> bytes \<Rightarrow> (bytes option) option" where
  "LZ4C_Decode lz dst src =
     (if src = [] \<or> dst = 0 then None
      else Some (case lz_decompress lz src dst of None \<Rightarrow> None | Some d \<Rightarrow> if d = [] then None else Some d))"

text \<open>As the formatter uses it: a destination of the length of the body, and of the largest load.\<close>

definition lz4_codec :: "lz4Lib \<Rightarrow> Codec" where
  "lz4_codec lz =
     \<lparr>cd_Encode = (\<lambda>src. case LZ4C_Encode lz (length src) src of Some (c, True) \<Rightarrow> Some c | _ \<Rightarrow> None),
      cd_Decode = (\<lambda>src. case LZ4C_Decode lz maxPBLoadSize src of Some (Some d) \<Rightarrow> Some d | _ \<Rightarrow> None)\<rparr>"

text \<open>What lz4 documents: decompressing what was compressed, into a buffer that is large enough, gives it back.\<close>

definition lz4_ok :: "lz4Lib \<Rightarrow> bool" where
  "lz4_ok lz \<longleftrightarrow> (\<forall>src n m. lz_compress lz src n \<noteq> [] \<longrightarrow> length src \<le> m \<longrightarrow> lz_decompress lz (lz_compress lz src n) m = Some src)"

section \<open>What holds\<close>

text \<open>Every stream of a factory starts with a formatter of its own, fit for sending and receiving.\<close>

lemma new_stream_ok:
  "tf_headsize f = BE4_HeadLen \<Longrightarrow> formater_ok (codec_New (tf_encoding f)) (ts_body (NewStream now f))"
  "tf_headsize f = BE4_HeadLen \<Longrightarrow> formater_ok (codec_New (tf_encoding f)) (ts_body (NewStreamWithDatagramConn now n f))"
  by (simp_all add: formater_ok_def NewStream_def NewStreamWithDatagramConn_def NewPBFormater_def)

text \<open>Over datagrams a write reaches the connection in pieces that make up the bytes in order, over a stream in one.\<close>

lemma stream_write_concat:
  "concat (stream_write (NewStream now f) p) = p"
  "0 < n \<Longrightarrow> concat (stream_write (NewStreamWithDatagramConn now n f) p) = p \<and>
     (\<forall>d \<in> set (stream_write (NewStreamWithDatagramConn now n f) p). length d \<le> n)"
proof -
  show "concat (stream_write (NewStream now f) p) = p" by (simp add: stream_write_def NewStream_def)
  assume n: "0 < n"
  note pc = pieces_ok [OF n, of p]
  have "length (pieces n p) \<le> length (concat (pieces n p))"
  proof -
    have "\<forall>d \<in> set ds. 0 < length d \<Longrightarrow> length ds \<le> length (concat ds)" for ds :: "bytes list"
    proof (induction ds)
      case (Cons d ds)
      then have "0 < length d" "length ds \<le> length (concat ds)" by auto
      then show ?case unfolding list.size concat.simps length_append by linarith
    qed simp
    then show ?thesis using pc by blast
  qed
  then have "length (pieces n p) \<le> length p" using pc by simp
  then have r: "replicate (length p) (None :: nat option) = replicate (length (pieces n p)) None @ replicate (length p - length (pieces n p)) None"
    by (simp flip: replicate_add)
  have "stream_write (NewStreamWithDatagramConn now n f) p = pieces n p"
    using datagram_all [OF n, of p "replicate (length p - length (pieces n p)) None"]
    by (simp add: stream_write_def NewStreamWithDatagramConn_def newRdpWriter_def rdpWriter_Write_def r)
  then show "concat (stream_write (NewStreamWithDatagramConn now n f) p) = p \<and>
      (\<forall>d \<in> set (stream_write (NewStreamWithDatagramConn now n f) p). length d \<le> n)"
    using pc by simp
qed

text \<open>The codec gives back every body it compressed, and never makes one longer: what the streams ask of it.\<close>

lemma lz4_codec_ok:
  assumes "lz4_ok lz" "cd_Encode (lz4_codec lz) bs = Some z" "length bs \<le> maxPBLoadSize"
  shows "length z \<le> length bs \<and> cd_Decode (lz4_codec lz) z = Some bs"
proof -
  have z: "bs \<noteq> []" "z = lz_compress lz bs (length bs)" "z \<noteq> []" "length z < length bs"
    using assms(2) by (auto simp: lz4_codec_def LZ4C_Encode_def Let_def split: if_splits option.splits prod.splits bool.splits)
  have "lz_decompress lz (lz_compress lz bs (length bs)) maxPBLoadSize = Some bs"
    using assms(1,3) z(2,3) unfolding lz4_ok_def by blast
  then show ?thesis using z by (simp add: lz4_codec_def LZ4C_Decode_def maxPBLoadSize_def)
qed

lemma lz4_sendable:
  assumes "lz4_ok lz" "sendable_packet pl pf None msg"
  shows "sendable_packet pl pf (Some (lz4_codec lz)) msg"
proof -
  obtain p where p: "msg = Some p" using assms(2) by (cases msg) (auto simp: sendable_packet_def)
  obtain bs where bs: "bodyBytes pl p = Some bs" using assms(2) p by (auto simp: sendable_packet_def split: option.splits)
  have "int (BE4_HeadLen + minPacketSize + length bs) \<le> packetSizeLimit" using assms(2) p bs by (simp add: sendable_packet_def)
  then have "length bs \<le> maxPBLoadSize" by (simp add: packetSizeLimit_def maxPBLoadSize_def)
  then have "case cd_Encode (lz4_codec lz) bs of None \<Rightarrow> True | Some z \<Rightarrow> length z \<le> length bs \<and> cd_Decode (lz4_codec lz) z = Some bs"
    using lz4_codec_ok [OF assms(1)] by (simp split: option.split)
  then show ?thesis using assms(2) p bs by (simp add: sendable_packet_def)
qed

text \<open>A packet that claims to be compressed and has no body makes the binding panic.\<close>

lemma lz4_empty_panics: "LZ4C_Decode lz maxPBLoadSize [] = None"
  by (simp add: LZ4C_Decode_def)

end
