(* ===== verification/Creators.thy ===== *)
theory Creators
  imports Memory Tlv_Stream
begin

text \<open>
  The other allocators of the program, over the chunk allocators of \<open>Memory\<close>: the generated creators of a package
  (\<open>xnet/gen_xnet.go\<close>, \<open>xnet/baserpcpb/gen_baserpcpb.go\<close>, \<open>xcontainer/timer/gen_timer.go\<close>), which share the heap; the
  creators of single objects that give up their mutex (\<open>xnet/session.go\<close>, \<open>pbcommon.go\<close>); the pool of packets
  (\<open>pbserialize.go\<close>); and the history of a link (\<open>xnet/safelink_history.go\<close>), whose slices are written to.
\<close>

section \<open>The creators of the packages\<close>

text \<open>The remaining creators of \<open>xmemory/creator.go\<close> have the bodies of \<open>Memory\<close>; elements are cells of any type.\<close>

definition ByteSlicePtrCreator_Create :: "nat \<Rightarrow> nat \<times> Creator \<Rightarrow> (Slice \<times> nat \<times> Creator) option" where
  "ByteSlicePtrCreator_Create chunk = creator_Item_create chunk"

definition ByteSlicePtrSliceCreator_Create :: "nat \<Rightarrow> nat \<Rightarrow> nat \<Rightarrow> nat \<times> Creator \<Rightarrow> (Slice \<times> nat \<times> Creator) option" where
  "ByteSlicePtrSliceCreator_Create slen scap chunk = ByteSliceCreator_Create slen scap chunk"

definition StringCreator_Create :: "nat \<Rightarrow> nat \<Rightarrow> nat \<Rightarrow> nat \<times> Creator \<Rightarrow> (Slice \<times> nat \<times> Creator) option" where
  "StringCreator_Create slen scap chunk = ByteSliceCreator_Create slen scap chunk"

text \<open>For each type a package has a creator of objects, one of slices and one of slices of pointers.\<close>

datatype objType = TypeItem | TypePBPacket | TypeMsgSetUp | TypeMsgCheck

datatype creatorKey = CreatorObj objType | CreatorSlice objType | CreatorPtr objType

type_synonym smallObjCreator = "creatorKey \<Rightarrow> Creator"

text \<open>Running a creator of the table on the heap.\<close>

definition at_creator :: "creatorKey \<Rightarrow> (nat \<times> Creator \<Rightarrow> (Slice \<times> nat \<times> Creator) option) \<Rightarrow>
    nat \<times> smallObjCreator \<Rightarrow> (Slice \<times> nat \<times> smallObjCreator) option" where
  "at_creator k create = (\<lambda>(h, f). do { (sl, h', cr) \<leftarrow> create (h, f k); Some (sl, h', f(k := cr)) })"

text \<open>The generated code repeats the bodies for every type.\<close>

definition creatorSlice_Item_create :: "nat \<Rightarrow> nat \<Rightarrow> nat \<Rightarrow> nat \<times> Creator \<Rightarrow> (Slice \<times> nat \<times> Creator) option" where
  "creatorSlice_Item_create slen scap chunk = ByteSliceCreator_Create slen scap chunk"

definition creatorPtr_Item_create :: "nat \<Rightarrow> nat \<Rightarrow> nat \<Rightarrow> nat \<times> Creator \<Rightarrow> (Slice \<times> nat \<times> Creator) option" where
  "creatorPtr_Item_create slen scap chunk = ByteSliceCreator_Create slen scap chunk"

definition creator_PBPacket_create :: "nat \<Rightarrow> nat \<times> Creator \<Rightarrow> (Slice \<times> nat \<times> Creator) option" where
  "creator_PBPacket_create chunk = creator_Item_create chunk"

definition creatorSlice_PBPacket_create :: "nat \<Rightarrow> nat \<Rightarrow> nat \<Rightarrow> nat \<times> Creator \<Rightarrow> (Slice \<times> nat \<times> Creator) option" where
  "creatorSlice_PBPacket_create slen scap chunk = ByteSliceCreator_Create slen scap chunk"

definition creatorPtr_PBPacket_create :: "nat \<Rightarrow> nat \<Rightarrow> nat \<Rightarrow> nat \<times> Creator \<Rightarrow> (Slice \<times> nat \<times> Creator) option" where
  "creatorPtr_PBPacket_create slen scap chunk = ByteSliceCreator_Create slen scap chunk"

definition creator_MsgSetUp_create :: "nat \<Rightarrow> nat \<times> Creator \<Rightarrow> (Slice \<times> nat \<times> Creator) option" where
  "creator_MsgSetUp_create chunk = creator_Item_create chunk"

definition creatorSlice_MsgSetUp_create :: "nat \<Rightarrow> nat \<Rightarrow> nat \<Rightarrow> nat \<times> Creator \<Rightarrow> (Slice \<times> nat \<times> Creator) option" where
  "creatorSlice_MsgSetUp_create slen scap chunk = ByteSliceCreator_Create slen scap chunk"

definition creatorPtr_MsgSetUp_create :: "nat \<Rightarrow> nat \<Rightarrow> nat \<Rightarrow> nat \<times> Creator \<Rightarrow> (Slice \<times> nat \<times> Creator) option" where
  "creatorPtr_MsgSetUp_create slen scap chunk = ByteSliceCreator_Create slen scap chunk"

definition creator_MsgCheck_create :: "nat \<Rightarrow> nat \<times> Creator \<Rightarrow> (Slice \<times> nat \<times> Creator) option" where
  "creator_MsgCheck_create chunk = creator_Item_create chunk"

definition creatorSlice_MsgCheck_create :: "nat \<Rightarrow> nat \<Rightarrow> nat \<Rightarrow> nat \<times> Creator \<Rightarrow> (Slice \<times> nat \<times> Creator) option" where
  "creatorSlice_MsgCheck_create slen scap chunk = ByteSliceCreator_Create slen scap chunk"

definition creatorPtr_MsgCheck_create :: "nat \<Rightarrow> nat \<Rightarrow> nat \<Rightarrow> nat \<times> Creator \<Rightarrow> (Slice \<times> nat \<times> Creator) option" where
  "creatorPtr_MsgCheck_create slen scap chunk = ByteSliceCreator_Create slen scap chunk"

lemmas generated_creators =
  creator_PBPacket_create_def creator_MsgSetUp_create_def creator_MsgCheck_create_def creatorSlice_Item_create_def
  creatorPtr_Item_create_def creatorSlice_PBPacket_create_def creatorPtr_PBPacket_create_def creatorSlice_MsgSetUp_create_def
  creatorPtr_MsgSetUp_create_def creatorSlice_MsgCheck_create_def creatorPtr_MsgCheck_create_def

definition small_New_Item :: "nat \<times> smallObjCreator \<Rightarrow> (Slice \<times> nat \<times> smallObjCreator) option" where
  "small_New_Item = at_creator (CreatorObj TypeItem) (creator_Item_create 256)"

definition NewSlice_Item :: "nat \<Rightarrow> nat \<Rightarrow> nat \<times> smallObjCreator \<Rightarrow> (Slice \<times> nat \<times> smallObjCreator) option" where
  "NewSlice_Item slen scap = at_creator (CreatorSlice TypeItem) (creatorSlice_Item_create slen scap 4096)"

definition NewPtrSlice_Item :: "nat \<Rightarrow> nat \<Rightarrow> nat \<times> smallObjCreator \<Rightarrow> (Slice \<times> nat \<times> smallObjCreator) option" where
  "NewPtrSlice_Item slen scap = at_creator (CreatorPtr TypeItem) (creatorPtr_Item_create slen scap 4096)"

definition New_PBPacket :: "nat \<times> smallObjCreator \<Rightarrow> (Slice \<times> nat \<times> smallObjCreator) option" where
  "New_PBPacket = at_creator (CreatorObj TypePBPacket) (creator_PBPacket_create 256)"

definition NewSlice_PBPacket :: "nat \<Rightarrow> nat \<Rightarrow> nat \<times> smallObjCreator \<Rightarrow> (Slice \<times> nat \<times> smallObjCreator) option" where
  "NewSlice_PBPacket slen scap = at_creator (CreatorSlice TypePBPacket) (creatorSlice_PBPacket_create slen scap 4096)"

definition NewPtrSlice_PBPacket :: "nat \<Rightarrow> nat \<Rightarrow> nat \<times> smallObjCreator \<Rightarrow> (Slice \<times> nat \<times> smallObjCreator) option" where
  "NewPtrSlice_PBPacket slen scap = at_creator (CreatorPtr TypePBPacket) (creatorPtr_PBPacket_create slen scap 4096)"

definition New_MsgSetUp :: "nat \<times> smallObjCreator \<Rightarrow> (Slice \<times> nat \<times> smallObjCreator) option" where
  "New_MsgSetUp = at_creator (CreatorObj TypeMsgSetUp) (creator_MsgSetUp_create 256)"

definition NewSlice_MsgSetUp :: "nat \<Rightarrow> nat \<Rightarrow> nat \<times> smallObjCreator \<Rightarrow> (Slice \<times> nat \<times> smallObjCreator) option" where
  "NewSlice_MsgSetUp slen scap = at_creator (CreatorSlice TypeMsgSetUp) (creatorSlice_MsgSetUp_create slen scap 4096)"

definition NewPtrSlice_MsgSetUp :: "nat \<Rightarrow> nat \<Rightarrow> nat \<times> smallObjCreator \<Rightarrow> (Slice \<times> nat \<times> smallObjCreator) option" where
  "NewPtrSlice_MsgSetUp slen scap = at_creator (CreatorPtr TypeMsgSetUp) (creatorPtr_MsgSetUp_create slen scap 4096)"

definition New_MsgCheck :: "nat \<times> smallObjCreator \<Rightarrow> (Slice \<times> nat \<times> smallObjCreator) option" where
  "New_MsgCheck = at_creator (CreatorObj TypeMsgCheck) (creator_MsgCheck_create 256)"

definition NewSlice_MsgCheck :: "nat \<Rightarrow> nat \<Rightarrow> nat \<times> smallObjCreator \<Rightarrow> (Slice \<times> nat \<times> smallObjCreator) option" where
  "NewSlice_MsgCheck slen scap = at_creator (CreatorSlice TypeMsgCheck) (creatorSlice_MsgCheck_create slen scap 4096)"

definition NewPtrSlice_MsgCheck :: "nat \<Rightarrow> nat \<Rightarrow> nat \<times> smallObjCreator \<Rightarrow> (Slice \<times> nat \<times> smallObjCreator) option" where
  "NewPtrSlice_MsgCheck slen scap = at_creator (CreatorPtr TypeMsgCheck) (creatorPtr_MsgCheck_create slen scap 4096)"

text \<open>What the calls on the table can be.\<close>

definition obj_calls :: "(nat \<times> smallObjCreator \<Rightarrow> (Slice \<times> nat \<times> smallObjCreator) option) set" where
  "obj_calls = {small_New_Item, New_PBPacket, New_MsgSetUp, New_MsgCheck} \<union>
     (\<Union>slen scap. {NewSlice_Item slen scap, NewPtrSlice_Item slen scap, NewSlice_PBPacket slen scap, NewPtrSlice_PBPacket slen scap, NewSlice_MsgSetUp slen scap, NewPtrSlice_MsgSetUp slen scap, NewSlice_MsgCheck slen scap, NewPtrSlice_MsgCheck slen scap})"

lemma obj_calls_creators:
  "f \<in> obj_calls \<Longrightarrow> \<exists>k. f = at_creator k (creator_Item_create 256) \<or> (\<exists>slen scap. f = at_creator k (ByteSliceCreator_Create slen scap 4096))"
  unfolding obj_calls_def small_New_Item_def New_PBPacket_def New_MsgSetUp_def New_MsgCheck_def
    NewSlice_Item_def NewPtrSlice_Item_def NewSlice_PBPacket_def NewPtrSlice_PBPacket_def NewSlice_MsgSetUp_def NewPtrSlice_MsgSetUp_def NewSlice_MsgCheck_def NewPtrSlice_MsgCheck_def generated_creators
  by blast

section \<open>They are one allocator\<close>

text \<open>What a creator hands out lies in its own array or in one made by this call, and so does its next array.\<close>

definition own_or_fresh :: "nat \<times> Creator \<Rightarrow> Slice \<times> nat \<times> Creator \<Rightarrow> bool" where
  "own_or_fresh = (\<lambda>(h, cr) (sl, h', cr'). h \<le> h' \<and>
     (cr_len cr' > 0 \<longrightarrow> cr_len cr > 0 \<and> cr_buf cr' = cr_buf cr \<or> h \<le> cr_buf cr') \<and>
     (s_cap sl > 0 \<longrightarrow> cr_len cr > 0 \<and> s_arr sl = cr_buf cr \<or> h \<le> s_arr sl))"

lemma own_or_fresh_Create: "ByteSliceCreator_Create slen scap chunk s = Some r \<Longrightarrow> own_or_fresh s r"
  by (cases s) (auto simp: ByteSliceCreator_Create_def own_or_fresh_def go_make_def carve_def refill_def Let_def bind_eq_Some_conv split: if_splits)

lemma own_or_fresh_Item: "creator_Item_create chunk s = Some r \<Longrightarrow> own_or_fresh s r"
  by (cases s) (auto simp: creator_Item_create_def own_or_fresh_def refill_def Let_def split: if_splits)

definition creators_ok :: "nat \<times> smallObjCreator \<Rightarrow> Slice list \<Rightarrow> bool" where
  "creators_ok = (\<lambda>(h, f) R. (\<forall>k. creator_ok (h, f k) R) \<and>
     (\<forall>k k'. k \<noteq> k' \<longrightarrow> cr_len (f k) > 0 \<longrightarrow> cr_len (f k') > 0 \<longrightarrow> cr_buf (f k) \<noteq> cr_buf (f k')))"

lemma creator_ok_other:
  assumes "creator_ok (h, cr) R" "h \<le> h'" "s_cap sl > 0 \<Longrightarrow> s_arr sl < h' \<and> (cr_len cr > 0 \<longrightarrow> s_arr sl \<noteq> cr_buf cr)"
  shows "creator_ok (h', cr) (sl # R)"
  using assms by (fastforce simp: creator_ok_def)

lemma at_creator_ok:
  assumes ok: "creators_ok (h, f) R" and run: "at_creator k create (h, f) = Some (sl, s')"
    and create: "\<And>R r. creator_ok (h, f k) R \<Longrightarrow> create (h, f k) = Some (sl, r) \<Longrightarrow> creator_ok r (sl # R) \<and> (\<forall>r \<in> set R. region r \<inter> region sl = {})"
    and own: "\<And>r. create (h, f k) = Some r \<Longrightarrow> own_or_fresh (h, f k) r"
  shows "creators_ok s' (sl # R) \<and> (\<forall>r \<in> set R. region r \<inter> region sl = {})"
proof -
  obtain h' cr where c: "create (h, f k) = Some (sl, h', cr)" "s' = (h', f(k := cr))"
    using run by (auto simp: at_creator_def bind_eq_Some_conv)
  have k: "creator_ok (h', cr) (sl # R) \<and> (\<forall>r \<in> set R. region r \<inter> region sl = {})"
    using create [of R] ok c(1) by (simp add: creators_ok_def)
  note o = own [OF c(1), unfolded own_or_fresh_def, simplified]
  have below: "cr_len (f j) > 0 \<Longrightarrow> cr_buf (f j) < h" for j using ok by (simp add: creators_ok_def creator_ok_def)
  have other: "creator_ok (h', f j) (sl # R)" if "j \<noteq> k" for j
  proof (rule creator_ok_other)
    show "creator_ok (h, f j) R" using ok by (simp add: creators_ok_def)
    show "h \<le> h'" using o by simp
    assume "s_cap sl > 0"
    moreover have "s_cap sl > 0 \<longrightarrow> s_arr sl < h'" using k by (simp add: creator_ok_def)
    ultimately show "s_arr sl < h' \<and> (cr_len (f j) > 0 \<longrightarrow> s_arr sl \<noteq> cr_buf (f j))"
      using o ok that below [of j] by (auto simp: creators_ok_def)
  qed
  have "cr_buf cr \<noteq> cr_buf (f j)" if "j \<noteq> k" "cr_len cr > 0" "cr_len (f j) > 0" for j
    using o ok that below [of j] by (auto simp: creators_ok_def)
  then show ?thesis using k other ok unfolding c(2) by (force simp: creators_ok_def)
qed

lemma obj_call_ok:
  assumes "creators_ok s R" "f \<in> obj_calls" "f s = Some (sl, s')"
  shows "creators_ok s' (sl # R) \<and> (\<forall>r \<in> set R. region r \<inter> region sl = {})"
proof -
  obtain h g where s: "s = (h, g)" by fastforce
  note run = assms(3) [unfolded s] and ok = assms(1) [unfolded s]
  from obj_calls_creators [OF assms(2)] consider k where "f = at_creator k (creator_Item_create 256)"
    | k slen scap where "f = at_creator k (ByteSliceCreator_Create slen scap 4096)" by blast
  then show ?thesis
  proof cases
    case 1
    show ?thesis by (rule at_creator_ok [OF ok run [unfolded 1] creator_Item_ok own_or_fresh_Item])
  next
    case 2
    show ?thesis by (rule at_creator_ok [OF ok run [unfolded 2] Create_ok own_or_fresh_Create])
  qed
qed

interpretation packages: allocator "(0, \<lambda>_. Creator_zero)" "creates obj_calls" creators_ok
proof unfold_locales
  show "creators_ok (0, \<lambda>_. Creator_zero) []" using creator_ok_zero by (simp add: creators_ok_def Creator_zero_def)
  show "creates obj_calls s None s' \<Longrightarrow> creators_ok s' R" for s s' R by (simp add: creates_def)
  show "creators_ok s R \<Longrightarrow> creates obj_calls s (Some sl) s' \<Longrightarrow>
      creators_ok s' (sl # R) \<and> (\<forall>r \<in> set R. region r \<inter> region sl = {})" for s R sl s'
    using obj_call_ok unfolding creates_def by blast
qed

section \<open>Single objects under a mutex\<close>

text \<open>\<open>protoCreator.syncNew\<close> and \<open>sessionEventSyncCreator.NewSync_SessionEvent\<close>: as the byte allocator with a mutex, for one
  cell and with a fixed chunk. A waiting call has made its array.\<close>

definition cellOf :: "Creator \<Rightarrow> Slice" where
  "cellOf cr = \<lparr>s_arr = cr_buf cr, s_off = cr_idx cr, s_len = 1, s_cap = 1\<rparr>"

inductive syncNew_step :: "nat \<Rightarrow> SyncCreator \<Rightarrow> Slice option \<Rightarrow> SyncCreator \<Rightarrow> bool" for chunk where
  new_fits: "cr_idx (sy_cr s) < cr_len (sy_cr s) \<Longrightarrow>
    syncNew_step chunk s (Some (cellOf (sy_cr s))) (s\<lparr>sy_cr := (sy_cr s)\<lparr>cr_idx := cr_idx (sy_cr s) + 1\<rparr>\<rparr>)"
| new_unlock: "cr_idx (sy_cr s) \<ge> cr_len (sy_cr s) \<Longrightarrow>
    syncNew_step chunk s None (s\<lparr>sy_next := sy_next s + 1, sy_wait := (1, 1, chunk, sy_next s) # sy_wait s\<rparr>)"
| new_relock: "sy_wait s = ws @ (1, 1, chunk, newSlice) # ws' \<Longrightarrow>
    cr = (if cr_idx (sy_cr s) \<ge> cr_len (sy_cr s) then refill newSlice chunk else sy_cr s) \<Longrightarrow> cr_idx cr < cr_len cr \<Longrightarrow>
    syncNew_step chunk s (Some (cellOf cr)) (s\<lparr>sy_cr := cr\<lparr>cr_idx := cr_idx cr + 1\<rparr>, sy_wait := ws @ ws'\<rparr>)"

definition protoCreator_syncNew :: "SyncCreator \<Rightarrow> Slice option \<Rightarrow> SyncCreator \<Rightarrow> bool" where
  "protoCreator_syncNew = syncNew_step 1024"

definition NewSync_SessionEvent :: "SyncCreator \<Rightarrow> Slice option \<Rightarrow> SyncCreator \<Rightarrow> bool" where
  "NewSync_SessionEvent = syncNew_step 4096"

lemma syncNew_is_sync:
  assumes "syncNew_step chunk s r s'" "1 \<le> chunk" shows "sync_step s r s'"
  using assms(1)
proof cases
  case new_fits
  then show ?thesis using sync_fits [of 1 chunk s 1] assms(2) by (auto simp: carve_def cellOf_def)
next
  case new_unlock
  then show ?thesis using sync_unlock [of 1 chunk s 1] assms(2) by auto
next
  case (new_relock ws newSlice ws' cr)
  then show ?thesis using sync_relock [of s ws 1 1 chunk newSlice ws'] by (auto simp: carve_def cellOf_def Suc_le_eq split: if_splits)
qed

text \<open>A call never fails: either it has an object, or its new array gives it one.\<close>

lemma syncNew_serves:
  assumes "1 \<le> chunk" "sync_ok s R"
  shows "(\<exists>sl s'. syncNew_step chunk s (Some sl) s') \<or> (\<exists>s' sl s''. syncNew_step chunk s None s' \<and> syncNew_step chunk s' (Some sl) s'')"
proof (cases "cr_idx (sy_cr s) < cr_len (sy_cr s)")
  case True
  then show ?thesis using new_fits by blast
next
  case False
  let ?s = "s\<lparr>sy_next := sy_next s + 1, sy_wait := (1, 1, chunk, sy_next s) # sy_wait s\<rparr>"
  have "syncNew_step chunk s None ?s" using False by (intro new_unlock) simp
  moreover have "\<exists>sl s''. syncNew_step chunk ?s (Some sl) s''"
    using new_relock [of ?s "[]" chunk "sy_next s" "sy_wait s"] False assms(1) by (auto simp: refill_def)
  ultimately show ?thesis by blast
qed

lemma syncNew_allocator: "1 \<le> chunk \<Longrightarrow> allocator SyncCreator_zero (syncNew_step chunk) sync_ok"
  using syncslice.ok_start sync_none_ok sync_some_ok syncNew_is_sync by unfold_locales blast+

interpretation protos: allocator SyncCreator_zero protoCreator_syncNew sync_ok
  unfolding protoCreator_syncNew_def by (rule syncNew_allocator) simp

interpretation events: allocator SyncCreator_zero NewSync_SessionEvent sync_ok
  unfolding NewSync_SessionEvent_def by (rule syncNew_allocator) simp

section \<open>The pool of packets\<close>

text \<open>\<open>SyncCreator_PBPacket\<close> over \<open>sync.Pool\<close>, which may hand out any packet that was put back, or none. Packets are
  addresses with contents; \<open>pp_held\<close> are those in the hands of callers.\<close>

record 'm packetPool =
  pp_pool :: "nat list"
  pp_held :: "nat list"
  pp_next :: nat
  pp_store :: "nat \<Rightarrow> 'm PBPacket"

definition PBPacket_zero :: "'m PBPacket" where
  "PBPacket_zero = \<lparr>ConnID = 0, Seq = 0, MsgID = 0, Flag = 0, Body = None\<rparr>"

text \<open>\<open>choice\<close>: which packet of the pool \<open>sync.Pool\<close> gives, if any.\<close>

definition SyncCreator_Get :: "nat option \<Rightarrow> 'm packetPool \<Rightarrow> nat \<times> 'm packetPool" where
  "SyncCreator_Get choice s =
     (case choice of
        Some a \<Rightarrow>
          if a \<in> set (pp_pool s)
          then (a, s\<lparr>pp_pool := remove1 a (pp_pool s), pp_held := a # pp_held s, pp_store := (pp_store s)(a := PBPacket_zero)\<rparr>)
          else (pp_next s, s\<lparr>pp_next := pp_next s + 1, pp_held := pp_next s # pp_held s, pp_store := (pp_store s)(pp_next s := PBPacket_zero)\<rparr>)
      | None \<Rightarrow> (pp_next s, s\<lparr>pp_next := pp_next s + 1, pp_held := pp_next s # pp_held s, pp_store := (pp_store s)(pp_next s := PBPacket_zero)\<rparr>))"

definition SyncCreator_Put :: "nat \<Rightarrow> 'm packetPool \<Rightarrow> 'm packetPool" where
  "SyncCreator_Put a s = s\<lparr>pp_pool := a # pp_pool s, pp_held := remove1 a (pp_held s)\<rparr>"

definition freePacket :: "nat \<Rightarrow> 'm packetPool \<Rightarrow> 'm packetPool" where
  "freePacket a s = SyncCreator_Put a (s\<lparr>pp_store := (pp_store s)(a := (pp_store s a)\<lparr>Body := None\<rparr>)\<rparr>)"

text \<open>Callers fill in the packets they hold and free each of them at most once.\<close>

inductive pool_run :: "'m packetPool \<Rightarrow> bool" where
  pool_new: "pool_run \<lparr>pp_pool = [], pp_held = [], pp_next = 0, pp_store = st\<rparr>"
| pool_get: "pool_run s \<Longrightarrow> pool_run (snd (SyncCreator_Get choice s))"
| pool_fill: "pool_run s \<Longrightarrow> a \<in> set (pp_held s) \<Longrightarrow> pool_run (s\<lparr>pp_store := (pp_store s)(a := m)\<rparr>)"
| pool_free: "pool_run s \<Longrightarrow> a \<in> set (pp_held s) \<Longrightarrow> pool_run (freePacket a s)"

lemma pool_inv: "pool_run s \<Longrightarrow> distinct (pp_held s @ pp_pool s) \<and> (\<forall>a \<in> set (pp_held s @ pp_pool s). a < pp_next s)"
proof (induction rule: pool_run.induct)
  case (pool_get s choice)
  have "pp_next s \<notin> set (pp_held s @ pp_pool s)" using pool_get(2) by blast
  then show ?case using pool_get(2)
    by (auto simp: SyncCreator_Get_def less_Suc_eq set_remove1_eq split: option.splits)
next
  case (pool_free s a)
  then show ?case by (auto simp: freePacket_def SyncCreator_Put_def set_remove1_eq)
qed auto

text \<open>A packet handed out is empty, nobody else holds it, and no packet in use changes.\<close>

lemma pool_hands_out:
  assumes "pool_run s" "SyncCreator_Get choice s = (a, s')"
  shows "a \<notin> set (pp_held s) \<and> pp_store s' a = PBPacket_zero \<and> (\<forall>b \<in> set (pp_held s). pp_store s' b = pp_store s b) \<and>
    pp_held s' = a # pp_held s"
  using pool_inv [OF assms(1)] assms(2) by (auto simp: SyncCreator_Get_def split: option.splits if_splits)

text \<open>A packet that is freed twice is handed out twice.\<close>

lemma pool_double_free:
  "pool_run s \<Longrightarrow> a \<in> set (pp_held s) \<Longrightarrow>
   \<exists>s1. fst (SyncCreator_Get (Some a) (freePacket a (freePacket a s))) = a \<and> s1 = snd (SyncCreator_Get (Some a) (freePacket a (freePacket a s))) \<and>
     fst (SyncCreator_Get (Some a) s1) = a"
  by (auto simp: SyncCreator_Get_def freePacket_def SyncCreator_Put_def)

section \<open>The history of a link\<close>

text \<open>\<open>LinkHistory.Append\<close> copies every packet into a slice of its own allocator. The memory maps cells to bytes.\<close>

type_synonym memory = "nat \<times> nat \<Rightarrow> byte"

definition read_slice :: "memory \<Rightarrow> Slice \<Rightarrow> bytes" where
  "read_slice mem sl = map (\<lambda>i. mem (s_arr sl, s_off sl + i)) [0..<s_len sl]"

definition write_slice :: "Slice \<Rightarrow> bytes \<Rightarrow> memory \<Rightarrow> memory" where
  "write_slice sl bs mem = (\<lambda>(arr, i).
     if arr = s_arr sl \<and> s_off sl \<le> i \<and> i < s_off sl + min (s_len sl) (length bs) then bs ! (i - s_off sl) else mem (arr, i))"

record LinkHistory =
  lh_localAck :: int
  lh_maxSerial :: int
  lh_back :: "(int \<times> Slice) list"
  lh_creator :: Creator
  lh_remoteID :: int
  lh_remoteName :: string

definition newLinkHistory :: LinkHistory where
  "newLinkHistory = \<lparr>lh_localAck = 0, lh_maxSerial = 0, lh_back = [], lh_creator = Creator_zero, lh_remoteID = 0, lh_remoteName = []\<rparr>"

definition LinkHistory_Append :: "int \<Rightarrow> bytes \<Rightarrow> nat \<times> memory \<times> LinkHistory \<Rightarrow> (nat \<times> memory \<times> LinkHistory) option" where
  "LinkHistory_Append ser buf = (\<lambda>(h, mem, his). do {
     (sl, h, cr) \<leftarrow> ByteSliceCreator_Create (length buf) (length buf) (2 ^ 16) (h, lh_creator his);
     Some (h, write_slice sl buf mem, his\<lparr>lh_creator := cr, lh_back := lh_back his @ [(ser, sl)]\<rparr>) })"

fun append_all :: "(int \<times> bytes) list \<Rightarrow> nat \<times> memory \<times> LinkHistory \<Rightarrow> (nat \<times> memory \<times> LinkHistory) option" where
  "append_all [] s = Some s"
| "append_all ((ser, buf) # xs) s = do { s \<leftarrow> LinkHistory_Append ser buf s; append_all xs s }"

lemma read_write_same: "s_len sl = length bs \<Longrightarrow> read_slice (write_slice sl bs mem) sl = bs"
  by (rule nth_equalityI) (simp_all add: read_slice_def write_slice_def)

lemma read_write_other:
  assumes "region r \<inter> region sl = {}" "s_len r \<le> s_cap r" "s_len sl \<le> s_cap sl"
  shows "read_slice (write_slice sl bs mem) r = read_slice mem r"
proof -
  have "\<not> (s_arr r = s_arr sl \<and> s_off sl \<le> s_off r + i \<and> s_off r + i < s_off sl + min (s_len sl) (length bs))" if "i < s_len r" for i
  proof
    assume "s_arr r = s_arr sl \<and> s_off sl \<le> s_off r + i \<and> s_off r + i < s_off sl + min (s_len sl) (length bs)"
    then have "(s_arr r, s_off r + i) \<in> region r \<inter> region sl" using that assms(2,3) by (auto simp: region_def)
    then show False using assms(1) by blast
  qed
  then show ?thesis by (auto simp: read_slice_def write_slice_def)
qed

text \<open>The history is what was appended: serial numbers and bytes, read through the memory, in order. It holds
  its slices within their capacity and apart from each other.\<close>

definition history_ok :: "(int \<times> bytes) list \<Rightarrow> nat \<times> memory \<times> LinkHistory \<Rightarrow> bool" where
  "history_ok xs = (\<lambda>(h, mem, his).
     creator_ok (h, lh_creator his) (map snd (lh_back his)) \<and>
     map (\<lambda>(ser, sl). (ser, read_slice mem sl)) (lh_back his) = xs \<and>
     (\<forall>(ser, sl) \<in> set (lh_back his). s_len sl = s_cap sl))"

lemma Create_total: "\<exists>sl s'. ByteSliceCreator_Create n n chunk s = Some (sl, s') \<and> s_len sl = n \<and> s_cap sl = n"
  by (cases s) (simp add: ByteSliceCreator_Create_def go_make_def carve_def refill_def Let_def)

lemma creator_ok_set: "creator_ok s R \<Longrightarrow> set R' = set R \<Longrightarrow> creator_ok s R'"
  by (auto simp: creator_ok_def)

lemma LinkHistory_Append_ok:
  assumes "history_ok xs s"
  shows "\<exists>s'. LinkHistory_Append ser buf s = Some s' \<and> history_ok (xs @ [(ser, buf)]) s'"
proof -
  obtain h mem his where s: "s = (h, mem, his)" by (cases s) auto
  obtain sl h' cr where c: "ByteSliceCreator_Create (length buf) (length buf) (2 ^ 16) (h, lh_creator his) = Some (sl, h', cr)"
    and len: "s_len sl = length buf" "s_cap sl = length buf"
    using Create_total by (metis surj_pair)
  have ok: "creator_ok (h, lh_creator his) (map snd (lh_back his))" using assms s by (simp add: history_ok_def)
  note new = Create_ok [OF ok c]
  have "read_slice (write_slice sl buf mem) r = read_slice mem r" if "(n, r) \<in> set (lh_back his)" for n r
  proof (rule read_write_other)
    show "region r \<inter> region sl = {}" using new that by force
    show "s_len r \<le> s_cap r" using assms s that by (auto simp: history_ok_def)
  qed (simp add: len)
  then have "map (\<lambda>(n, r). (n, read_slice (write_slice sl buf mem) r)) (lh_back his) = xs"
    using assms s by (auto simp: history_ok_def)
  moreover have "creator_ok (h', cr) (map snd (lh_back his) @ [sl])" using new creator_ok_set by fastforce
  ultimately show ?thesis using c len assms s
    by (auto simp: LinkHistory_Append_def history_ok_def read_write_same)
qed

lemma history_kept:
  "\<exists>h mem' his. append_all xs (0, mem, newLinkHistory) = Some (h, mem', his) \<and>
     map (\<lambda>(ser, sl). (ser, read_slice mem' sl)) (lh_back his) = xs"
proof -
  have "history_ok ys s \<Longrightarrow> \<exists>s'. append_all xs s = Some s' \<and> history_ok (ys @ xs) s'" for ys s
  proof (induction xs arbitrary: ys s)
    case (Cons x xs)
    obtain ser buf where x: "x = (ser, buf)" by fastforce
    obtain s1 where "LinkHistory_Append ser buf s = Some s1" "history_ok (ys @ [x]) s1"
      using LinkHistory_Append_ok [OF Cons(2)] x by metis
    then show ?case using Cons(1) [of "ys @ [x]" s1] x by simp
  qed simp
  moreover have "history_ok [] (0, mem, newLinkHistory)" using creator_ok_zero by (simp add: history_ok_def newLinkHistory_def)
  ultimately obtain s' where "append_all xs (0, mem, newLinkHistory) = Some s'" "history_ok xs s'" by fastforce
  then show ?thesis by (cases s') (auto simp: history_ok_def)
qed

end
