(* ===== verification/Consul.thy ===== *)
theory Consul
  imports Prelude "HOL-Library.Multiset"
begin

text \<open>
  Service discovery (\<open>xconsul/consulclient.go\<close>) and the lobby node (\<open>xlobby/lobby.go\<close>): building the health
  checks from a map of strings, the cached configuration and client, registering in a loop and
  deregistering at the end. The agent of consul is known by the set of services registered with it; whether
  a request to it succeeds is a parameter. \<open>None\<close> is a panic. A Go map is the list of its entries in the
  order of the visit.
\<close>

section \<open>Health checks\<close>

record serviceCheck =
  ck_CheckID :: string
  ck_Name :: string
  ck_DockerContainerID :: string
  ck_Shell :: string
  ck_Interval :: string
  ck_Timeout :: string
  ck_TTL :: string
  ck_HTTP :: string
  ck_TCP :: string
  ck_Status :: string
  ck_Notes :: string
  ck_GRPC :: string
  ck_DeregisterCriticalServiceAfter :: string

definition emptyCheck :: serviceCheck where
  "emptyCheck = \<lparr>ck_CheckID = [], ck_Name = [], ck_DockerContainerID = [], ck_Shell = [], ck_Interval = [], ck_Timeout = [],
     ck_TTL = [], ck_HTTP = [], ck_TCP = [], ck_Status = [], ck_Notes = [], ck_GRPC = [], ck_DeregisterCriticalServiceAfter = []\<rparr>"

definition setCheck :: "string \<times> string \<Rightarrow> serviceCheck \<Rightarrow> serviceCheck" where
  "setCheck = (\<lambda>(k, v) c.
     if k = ''CheckID'' then c\<lparr>ck_CheckID := v\<rparr>
     else if k = ''Name'' then c\<lparr>ck_Name := v\<rparr>
     else if k = ''DockerContainerID'' then c\<lparr>ck_DockerContainerID := v\<rparr>
     else if k = ''Shell'' then c\<lparr>ck_Shell := v\<rparr>
     else if k = ''Interval'' then c\<lparr>ck_Interval := v\<rparr>
     else if k = ''TimeOut'' then c\<lparr>ck_Timeout := v\<rparr>
     else if k = ''TTL'' then c\<lparr>ck_TTL := v\<rparr>
     else if k = ''HTTP'' then c\<lparr>ck_HTTP := v\<rparr>
     else if k = ''TCP'' then c\<lparr>ck_TCP := v\<rparr>
     else if k = ''Status'' then c\<lparr>ck_Status := v\<rparr>
     else if k = ''Notes'' then c\<lparr>ck_Notes := v\<rparr>
     else if k = ''GRPC'' then c\<lparr>ck_GRPC := v\<rparr>
     else if k = ''DeregisterCriticalServiceAfter'' then c\<lparr>ck_DeregisterCriticalServiceAfter := v\<rparr>
     else c)"

definition AgentServiceCheckString :: "serviceCheck option \<Rightarrow> (string \<times> string) list \<Rightarrow> serviceCheck option" where
  "AgentServiceCheckString check kv =
     (if kv = [] then None
      else Some (fold setCheck kv (case check of None \<Rightarrow> emptyCheck | Some c \<Rightarrow> c)))"

definition AgentServiceChecksString :: "serviceCheck option list \<Rightarrow> serviceCheck option list" where
  "AgentServiceChecksString checks = [] @ checks"

section \<open>The client\<close>

record ConsulClient =
  cc_HTTPConfig :: "string option" \<comment> \<open>the address, unless the pointer is nil\<close>
  cc_Addr :: string
  cc_Port :: int
  cc_ServiceID :: string
  cc_ServiceName :: string
  cc_Tags :: "string list"
  cc_Check :: "serviceCheck option"
  cc_Checks :: "serviceCheck option list"
  cc_Client :: "string option" \<comment> \<open>the address the client was made for\<close>
  cc_Cfg :: "string option"

definition newConfig :: "ConsulClient \<Rightarrow> (string \<times> ConsulClient) option" where
  "newConfig p = do { addr \<leftarrow> cc_HTTPConfig p; Some (addr, p\<lparr>cc_Cfg := Some addr\<rparr>) }"

definition getConfig :: "ConsulClient \<Rightarrow> (string \<times> ConsulClient) option" where
  "getConfig p = (case cc_Cfg p of Some c \<Rightarrow> Some (c, p) | None \<Rightarrow> newConfig p)"

text \<open>The client, or \<open>None\<close> inside for an error of \<open>api.NewClient\<close>.\<close>

definition getClient :: "(string \<Rightarrow> bool) \<Rightarrow> ConsulClient \<Rightarrow> (string option \<times> ConsulClient) option" where
  "getClient newClient p =
     (case cc_Client p of
        Some c \<Rightarrow> Some (Some c, p)
      | None \<Rightarrow> do {
          (cfg, p) \<leftarrow> getConfig p;
          Some (if newClient cfg then (Some cfg, p\<lparr>cc_Client := Some cfg\<rparr>) else (None, p)) })"

definition SetServiceID :: "string \<Rightarrow> ConsulClient \<Rightarrow> ConsulClient" where
  "SetServiceID sid p = p\<lparr>cc_ServiceID := sid\<rparr>"

text \<open>\<open>ok\<close>: whether the agent accepts; \<open>services\<close>: what is registered with it.\<close>

definition Consul_Register :: "(string \<Rightarrow> bool) \<Rightarrow> bool \<Rightarrow> ConsulClient \<Rightarrow> string set \<Rightarrow> (bool \<times> ConsulClient \<times> string set) option" where
  "Consul_Register newClient ok p services = do {
     (c, p) \<leftarrow> getClient newClient p;
     Some (if c = None then (False, p, services)
       else if \<not> ok then (False, p, services)
       else (True, p, insert (cc_ServiceID p) services)) }"

definition Consul_DeRegister :: "(string \<Rightarrow> bool) \<Rightarrow> bool \<Rightarrow> ConsulClient \<Rightarrow> string set \<Rightarrow> (ConsulClient \<times> string set) option" where
  "Consul_DeRegister newClient ok p services = do {
     (c, p) \<leftarrow> getClient newClient p;
     Some (p, if c \<noteq> None \<and> ok then services - {cc_ServiceID p} else services) }"

text \<open>The answer of the agent to the query is a parameter.\<close>

definition CateLogService :: "(string \<Rightarrow> bool) \<Rightarrow> 'e list option \<Rightarrow> ConsulClient \<Rightarrow> ('e list option \<times> ConsulClient) option" where
  "CateLogService newClient answer p = do {
     (c, p) \<leftarrow> getClient newClient p;
     Some (if c = None then None else answer, p) }"

section \<open>The lobby node\<close>

record LobbyManager =
  lm_program :: string
  lm_worldID :: int
  lm_requestInfo :: bool \<comment> \<open>whether one is set\<close>
  lm_project :: string
  lm_nodetype :: string
  lm_consul :: ConsulClient

text \<open>\<open>url\<close> and \<open>world\<close> are the formatted address of the health check and the formatted number.\<close>

definition NewLobbyManager :: "string \<Rightarrow> bool \<Rightarrow> string \<Rightarrow> int \<Rightarrow> string \<Rightarrow> string \<Rightarrow> int \<Rightarrow> string option \<Rightarrow> string \<Rightarrow> string \<Rightarrow> LobbyManager" where
  "NewLobbyManager program req project worldID nodetype addr port cfg url world =
     \<lparr>lm_program = program, lm_worldID = worldID, lm_requestInfo = req, lm_project = project, lm_nodetype = nodetype,
      lm_consul = \<lparr>cc_HTTPConfig = cfg, cc_Addr = addr, cc_Port = port, cc_ServiceID = ''lobbyhost_'' @ addr @ ''_'' @ program,
        cc_ServiceName = ''lobby'', cc_Tags = [''v1'', project, world],
        cc_Check = AgentServiceCheckString None [(''Interval'', ''10s''), (''HTTP'', url), (''Timeout'', ''2s'')],
        cc_Checks = [], cc_Client = None, cc_Cfg = None\<rparr>\<rparr>"

record JLobbyNodeInfo =
  Project :: string
  Program :: string
  WorldID :: int
  NodeType :: string
  NodeData :: string

text \<open>The command \<open>/lobby\<close>: \<open>marshal\<close> is \<open>json.MarshalIndent\<close>, \<open>info\<close> the answer of \<open>RequestInfo\<close>.\<close>

definition lobbyCmd :: "(JLobbyNodeInfo \<Rightarrow> string option) \<Rightarrow> string \<Rightarrow> LobbyManager \<Rightarrow> string" where
  "lobbyCmd marshal info mgr =
     (if \<not> lm_requestInfo mgr then []
      else case marshal \<lparr>Project = lm_project mgr, Program = lm_program mgr, WorldID = lm_worldID mgr, NodeType = lm_nodetype mgr, NodeData = info\<rparr> of
          None \<Rightarrow> [] | Some data \<Rightarrow> data)"

text \<open>The goroutine that \<open>Init\<close> starts, here and in the metrics, and \<open>Destroy\<close> on the main thread. The goroutine is
  trying to register, has registered and not said so yet, or is over.\<close>

datatype regAt = RegTrying | RegDone | RegOver

record registration =
  rg_client :: ConsulClient
  rg_at :: regAt
  rg_initOK :: bool
  rg_services :: "string set"

definition reg_step :: "(string \<Rightarrow> bool) \<Rightarrow> bool \<Rightarrow> registration \<Rightarrow> registration option" where
  "reg_step newClient ok r =
     (case rg_at r of
        RegTrying \<Rightarrow> do {
          (done, p, services) \<leftarrow> Consul_Register newClient ok (rg_client r) (rg_services r);
          Some (r\<lparr>rg_client := p, rg_services := services, rg_at := if done then RegDone else RegTrying\<rparr>) }
      | RegDone \<Rightarrow> Some (r\<lparr>rg_initOK := True, rg_at := RegOver\<rparr>)
      | RegOver \<Rightarrow> Some r)"

definition reg_Destroy :: "(string \<Rightarrow> bool) \<Rightarrow> bool \<Rightarrow> registration \<Rightarrow> registration option" where
  "reg_Destroy newClient ok r =
     (if rg_initOK r
      then do { (p, services) \<leftarrow> Consul_DeRegister newClient ok (rg_client r) (rg_services r); Some (r\<lparr>rg_client := p, rg_services := services\<rparr>) }
      else Some r)"

section \<open>What holds\<close>

text \<open>The check does not depend on the order in which the map is visited.\<close>

lemma setCheck_sel:
  "ck_CheckID (setCheck (k, v) c) = (if k = ''CheckID'' then v else ck_CheckID c)"
  "ck_Name (setCheck (k, v) c) = (if k = ''Name'' then v else ck_Name c)"
  "ck_DockerContainerID (setCheck (k, v) c) = (if k = ''DockerContainerID'' then v else ck_DockerContainerID c)"
  "ck_Shell (setCheck (k, v) c) = (if k = ''Shell'' then v else ck_Shell c)"
  "ck_Interval (setCheck (k, v) c) = (if k = ''Interval'' then v else ck_Interval c)"
  "ck_Timeout (setCheck (k, v) c) = (if k = ''TimeOut'' then v else ck_Timeout c)"
  "ck_TTL (setCheck (k, v) c) = (if k = ''TTL'' then v else ck_TTL c)"
  "ck_HTTP (setCheck (k, v) c) = (if k = ''HTTP'' then v else ck_HTTP c)"
  "ck_TCP (setCheck (k, v) c) = (if k = ''TCP'' then v else ck_TCP c)"
  "ck_Status (setCheck (k, v) c) = (if k = ''Status'' then v else ck_Status c)"
  "ck_Notes (setCheck (k, v) c) = (if k = ''Notes'' then v else ck_Notes c)"
  "ck_GRPC (setCheck (k, v) c) = (if k = ''GRPC'' then v else ck_GRPC c)"
  "ck_DeregisterCriticalServiceAfter (setCheck (k, v) c) = (if k = ''DeregisterCriticalServiceAfter'' then v else ck_DeregisterCriticalServiceAfter c)"
  by (auto simp: setCheck_def)

lemma setCheck_commute:
  assumes "k \<noteq> k'" shows "setCheck (k, v) (setCheck (k', v') c) = setCheck (k', v') (setCheck (k, v) c)"
  using assms by (intro serviceCheck.equality) (simp_all add: setCheck_sel, blast+)

lemma AgentServiceCheck_order:
  assumes "distinct (map fst kv)" "mset kv' = mset kv"
  shows "AgentServiceCheckString check kv' = AgentServiceCheckString check kv"
proof -
  have "fold setCheck kv' = fold setCheck kv"
  proof (rule fold_multiset_equiv [OF _ assms(2)])
    fix x y assume "x \<in> set kv'" "y \<in> set kv'"
    then have xy: "x \<in> set kv" "y \<in> set kv" using assms(2) by (metis set_mset_mset)+
    show "setCheck x \<circ> setCheck y = setCheck y \<circ> setCheck x"
    proof (cases "fst x = fst y")
      case True
      then have "x = y" using xy assms(1) by (metis distinct_map inj_onD)
      then show ?thesis by simp
    next
      case False
      then show ?thesis using setCheck_commute [of "fst x" "fst y" "snd x" "snd y"] by (simp add: fun_eq_iff)
    qed
  qed
  moreover have "kv' = [] \<longleftrightarrow> kv = []" using assms(2) by auto
  ultimately show ?thesis by (simp add: AgentServiceCheckString_def)
qed

text \<open>The lobby's time-out of the health check is lost: it writes the key \<open>Timeout\<close>, the check reads
  \<open>TimeOut\<close>.\<close>

lemma lobby_timeout_lost:
  "\<exists>c. cc_Check (lm_consul (NewLobbyManager program req project worldID nodetype addr port cfg url world)) = Some c \<and>
     ck_Timeout c = [] \<and> ck_HTTP c = url \<and> ck_Interval c = ''10s''"
  by (simp add: NewLobbyManager_def AgentServiceCheckString_def setCheck_def emptyCheck_def)

text \<open>A client without configuration panics at its first request.\<close>

lemma register_without_config:
  "cc_HTTPConfig p = None \<Longrightarrow> cc_Cfg p = None \<Longrightarrow> cc_Client p = None \<Longrightarrow> Consul_Register newClient ok p services = None"
  by (simp add: Consul_Register_def getClient_def getConfig_def newConfig_def)

text \<open>With a configuration the loop never panics; a round with a working agent registers, the next one
  says so, and \<open>Destroy\<close> then removes the service.\<close>

lemma getClient_ok:
  assumes "cc_HTTPConfig p = Some a"
  shows "\<exists>c p'. getClient newClient p = Some (c, p') \<and> cc_ServiceID p' = cc_ServiceID p \<and> cc_HTTPConfig p' = Some a \<and>
    ((\<forall>x. newClient x) \<longrightarrow> c \<noteq> None)"
  using assms by (auto simp: getClient_def getConfig_def newConfig_def split: option.splits)

lemma registers_and_leaves:
  assumes "cc_HTTPConfig (rg_client r) = Some a" "rg_at r = RegTrying" "\<forall>x. newClient x"
  shows "\<exists>r1 r2 r3. reg_step newClient True r = Some r1 \<and> cc_ServiceID (rg_client r) \<in> rg_services r1 \<and>
    reg_step newClient ok r1 = Some r2 \<and> rg_initOK r2 \<and>
    reg_Destroy newClient True r2 = Some r3 \<and> cc_ServiceID (rg_client r) \<notin> rg_services r3"
proof -
  obtain c p where 1: "getClient newClient (rg_client r) = Some (Some c, p)" "cc_ServiceID p = cc_ServiceID (rg_client r)" "cc_HTTPConfig p = Some a"
    using getClient_ok [OF assms(1), of newClient] assms(3) by auto
  obtain c' p' where 2: "getClient newClient p = Some (Some c', p')" "cc_ServiceID p' = cc_ServiceID p"
    using getClient_ok [OF 1(3), of newClient] assms(3) by auto
  show ?thesis using assms(2) 1 2
    by (simp add: reg_step_def Consul_Register_def reg_Destroy_def Consul_DeRegister_def)
qed

text \<open>A \<open>Destroy\<close> that comes before the registration is acknowledged leaves the service registered for ever.\<close>

lemma destroyed_then_registered:
  assumes "cc_HTTPConfig (rg_client r) = Some a" "rg_at r = RegTrying" "\<not> rg_initOK r" "\<forall>x. newClient x"
  shows "\<exists>r1. reg_Destroy newClient ok r = Some r \<and> reg_step newClient True r = Some r1 \<and> cc_ServiceID (rg_client r) \<in> rg_services r1"
proof -
  obtain c p where "getClient newClient (rg_client r) = Some (Some c, p)" "cc_ServiceID p = cc_ServiceID (rg_client r)"
    using getClient_ok [OF assms(1), of newClient] assms(4) by auto
  then show ?thesis using assms by (simp add: reg_step_def Consul_Register_def reg_Destroy_def)
qed

end
