(* ===== verification/Metrics.thy ===== *)
theory Metrics
  imports App_Start Consul "HOL-Library.AList"
begin

text \<open>
  Collecting metrics (\<open>xmetric/collector.go\<close>, \<open>dummycollector.go\<close>): the labels, the registration of the service, the
  cache of descriptors, and the way a job goes from a collecting goroutine to the main thread and back. Prometheus itself is a parameter:
  whether a metric with these label values can be made.
\<close>

section \<open>Labels\<close>

text \<open>The package has its own \<open>getLocalAddr\<close>, whose second loop repeats the condition of the first.\<close>

definition metric_getLocalAddr :: "ipnet list option \<Rightarrow> string" where
  "metric_getLocalAddr addrs =
     (case addrs of
        None \<Rightarrow> unKnown
      | Some ns \<Rightarrow>
          (case find (\<lambda>n. \<not> in_loopback n \<and> in_v4 n) ns of
             Some n \<Rightarrow> in_text n
           | None \<Rightarrow>
               (case find (\<lambda>n. \<not> in_loopback n \<and> in_v4 n) ns of Some n \<Rightarrow> in_text n | None \<Rightarrow> unKnown)))"

definition getHostName :: "string option \<Rightarrow> string" where
  "getHostName hostname = (case hostname of None \<Rightarrow> unKnown | Some h \<Rightarrow> h)"

record labelConfig =
  lc_host :: string
  lc_alias :: string
  lc_program :: string
  lc_localip :: string

definition defaultLabels :: "string \<Rightarrow> string option \<Rightarrow> ipnet list option \<Rightarrow> labelConfig \<Rightarrow> labelConfig" where
  "defaultLabels exe hostname addrs g =
     (let g = if lc_program g = [] then g\<lparr>lc_program := exe\<rparr> else g;
          g = if lc_host g = []
              then let h = metric_getLocalAddr addrs in g\<lparr>lc_host := if h = unKnown then getHostName hostname else h\<rparr>
              else g;
          g = if lc_alias g = [] then g\<lparr>lc_alias := unKnown\<rparr> else g in
      if lc_localip g = [] then g\<lparr>lc_localip := metric_getLocalAddr addrs\<rparr> else g)"

definition Gather_Host :: "string \<Rightarrow> labelConfig \<Rightarrow> labelConfig" where "Gather_Host h g = g\<lparr>lc_host := h\<rparr>"
definition Gather_Alias :: "string \<Rightarrow> labelConfig \<Rightarrow> labelConfig" where "Gather_Alias a g = g\<lparr>lc_alias := a\<rparr>"
definition Gather_Program :: "string \<Rightarrow> labelConfig \<Rightarrow> labelConfig" where "Gather_Program p g = g\<lparr>lc_program := p\<rparr>"

section \<open>The registered service\<close>

text \<open>\<open>NewGather\<close> makes the labels and the client of consul; \<open>url\<close> is the formatted address of the health check. The
  registry, the multiplexer and the type of the job are prometheus and reflection.\<close>

definition NewGather :: "string \<Rightarrow> string option \<Rightarrow> ipnet list option \<Rightarrow> string \<Rightarrow> int \<Rightarrow> string \<Rightarrow> labelConfig \<times> ConsulClient" where
  "NewGather exe hostname addrs addr port url =
     (defaultLabels exe hostname addrs \<lparr>lc_host = [], lc_alias = [], lc_program = [], lc_localip = []\<rparr>,
      \<lparr>cc_HTTPConfig = None, cc_Addr = addr, cc_Port = port, cc_ServiceID = [], cc_ServiceName = ''gamemetric'', cc_Tags = [''v1''],
       cc_Check = None,
       cc_Checks = AgentServiceChecksString
         [AgentServiceCheckString None [(''TTL'', ''20s'')],
          AgentServiceCheckString None [(''Interval'', ''10s''), (''HTTP'', url), (''DeregisterCriticalServiceAfter'', ''30s'')]],
       cc_Client = None, cc_Cfg = None\<rparr>)"

definition SetConsulCfg :: "string option \<Rightarrow> labelConfig \<times> ConsulClient \<Rightarrow> labelConfig \<times> ConsulClient" where
  "SetConsulCfg cfg = (\<lambda>(g, p). (g, p\<lparr>cc_HTTPConfig := cfg\<rparr>))"

text \<open>The goroutine of \<open>Init\<close> names the service and then registers as the lobby's does (\<open>reg_step\<close>); \<open>Destroy\<close> also closes
  \<open>closeChan\<close>, and closing it again panics.\<close>

definition Gather_register :: "labelConfig \<times> ConsulClient \<Rightarrow> string set \<Rightarrow> registration" where
  "Gather_register = (\<lambda>(g, p) services.
     \<lparr>rg_client = SetServiceID (''host_'' @ lc_localip g @ ''_'' @ lc_program g) p, rg_at = RegTrying, rg_initOK = False,
      rg_services = services\<rparr>)"

definition Gather_Destroy :: "(string \<Rightarrow> bool) \<Rightarrow> bool \<Rightarrow> registration \<times> bool \<Rightarrow> (registration \<times> bool) option" where
  "Gather_Destroy newClient ok = (\<lambda>(r, closeChan_closed). do {
     r \<leftarrow> reg_Destroy newClient ok r;
     if closeChan_closed then None else Some (r, True) })"

section \<open>Descriptors\<close>

text \<open>A descriptor is known by its name and its labels.\<close>

type_synonym desc = "string \<times> string list"

definition nameKey :: "string \<Rightarrow> string list \<Rightarrow> string" where
  "nameKey name labels = name @ concat (map (\<lambda>v. ''_'' @ v) labels)"

definition modGetDesc :: "string \<Rightarrow> string list \<Rightarrow> (string \<times> desc) list \<Rightarrow> desc \<times> (string \<times> desc) list" where
  "modGetDesc name labels descs =
     (case map_of descs (nameKey name labels) of
        Some d \<Rightarrow> (d, descs)
      | None \<Rightarrow> ((name, labels), AList.update (nameKey name labels) (name, labels) descs))"

datatype metricKind = GaugeValue | CounterValue

type_synonym pushed = "desc \<times> metricKind \<times> string list"

text \<open>\<open>prometheus.NewConstMetric\<close> refuses a number of label values that is not the descriptor's.\<close>

definition pushMetric :: "metricKind \<Rightarrow> string \<Rightarrow> string list \<Rightarrow> string list \<Rightarrow> (string \<times> desc) list \<Rightarrow> pushed option \<times> (string \<times> desc) list" where
  "pushMetric kind name labels vals descs =
     (let (d, descs) = modGetDesc name labels descs in
      (if length vals = length (snd d) then Some (d, kind, vals) else None, descs))"

definition PushGaugeMetric :: "string \<Rightarrow> string list \<Rightarrow> string list \<Rightarrow> (string \<times> desc) list \<Rightarrow> pushed option \<times> (string \<times> desc) list" where
  "PushGaugeMetric = pushMetric GaugeValue"

definition PushCounterMetric :: "string \<Rightarrow> string list \<Rightarrow> string list \<Rightarrow> (string \<times> desc) list \<Rightarrow> pushed option \<times> (string \<times> desc) list" where
  "PushCounterMetric = pushMetric CounterValue"

section \<open>Collecting\<close>

text \<open>A collecting goroutine offers its job on \<open>pullChan\<close>, which has no buffer, until it gives up after two
  seconds; once the job is taken it waits on \<open>pushChan\<close>. The main thread's \<open>Run\<close> takes an offered job, pulls it and
  puts it into \<open>pushChan\<close>, or throws it away when four are there. A job carries the number of its goroutine.\<close>

record gather =
  ga_offering :: "nat list"
  ga_waiting :: "nat list"
  ga_pushChan :: "nat list"
  ga_dropped :: "nat list"
  ga_pushed :: "(nat \<times> nat) list" \<comment> \<open>collector, job it was given\<close>

definition Gather_Init :: gather where
  "Gather_Init = \<lparr>ga_offering = [], ga_waiting = [], ga_pushChan = [], ga_dropped = [], ga_pushed = []\<rparr>"

text \<open>\<open>Run\<close>, with the offering goroutine that the channel pairs it with, if there is one.\<close>

definition Gather_Run :: "nat \<Rightarrow> gather \<Rightarrow> gather" where
  "Gather_Run c g =
     (if c \<notin> set (ga_offering g) then g
      else let g = g\<lparr>ga_offering := remove1 c (ga_offering g), ga_waiting := c # ga_waiting g\<rparr> in
        if length (ga_pushChan g) < 4 then g\<lparr>ga_pushChan := ga_pushChan g @ [c]\<rparr> else g\<lparr>ga_dropped := c # ga_dropped g\<rparr>)"

definition Collect_take :: "nat \<Rightarrow> gather \<Rightarrow> gather" where
  "Collect_take c g =
     (case ga_pushChan g of
        [] \<Rightarrow> g
      | j # js \<Rightarrow> if c \<in> set (ga_waiting g)
          then g\<lparr>ga_waiting := remove1 c (ga_waiting g), ga_pushChan := js, ga_pushed := (c, j) # ga_pushed g\<rparr> else g)"

inductive gather_run :: "nat \<Rightarrow> gather \<Rightarrow> bool" for most where
  gr_new: "gather_run most Gather_Init"
| gr_collect: "gather_run most g \<Longrightarrow> length (ga_offering g) + length (ga_waiting g) < most \<Longrightarrow> gather_run most (g\<lparr>ga_offering := c # ga_offering g\<rparr>)"
| gr_timeout: "gather_run most g \<Longrightarrow> gather_run most (g\<lparr>ga_offering := remove1 c (ga_offering g)\<rparr>)"
| gr_run: "gather_run most g \<Longrightarrow> gather_run most (Gather_Run c g)"
| gr_take: "gather_run most g \<Longrightarrow> gather_run most (Collect_take c g)"

section \<open>What holds\<close>

text \<open>Where a machine has an address that is not the loopback, the two packages agree on it; on a machine with
  the loopback alone only the application finds an address.\<close>

lemma getLocalAddr_agree:
  "\<exists>n \<in> set ns. \<not> in_loopback n \<and> in_v4 n \<Longrightarrow> metric_getLocalAddr (Some ns) = getLocalAddr (Some ns)"
  by (auto simp: metric_getLocalAddr_def getLocalAddr_def find_None_iff split: option.splits)

lemma getLocalAddr_loopback:
  assumes "in_loopback n" "in_v4 n"
  shows "getLocalAddr (Some [n]) = in_text n" "metric_getLocalAddr (Some [n]) = unKnown"
  using assms by (simp_all add: metric_getLocalAddr_def getLocalAddr_def)

text \<open>The key of the cache does not tell a label from a part of the name: the second metric gets the first
  one's descriptor and is dropped.\<close>

lemma desc_collision:
  "let (r1, descs) = PushGaugeMetric ''a_b'' [] [] [] in
   r1 = Some ((''a_b'', []), GaugeValue, []) \<and> fst (PushGaugeMetric ''a'' [''b''] [v] descs) = None"
  by (simp add: PushGaugeMetric_def pushMetric_def modGetDesc_def nameKey_def)

text \<open>Names without such clashes get their own descriptors.\<close>

definition descs_ok :: "(string \<times> desc) list \<Rightarrow> bool" where
  "descs_ok descs \<longleftrightarrow> (\<forall>k d. map_of descs k = Some d \<longrightarrow> k = nameKey (fst d) (snd d))"

lemma modGetDesc_ok:
  assumes "descs_ok descs" "modGetDesc name labels descs = (d, descs')"
    "\<forall>k d'. map_of descs k = Some d' \<longrightarrow> nameKey (fst d') (snd d') = nameKey name labels \<longrightarrow> d' = (name, labels)"
  shows "d = (name, labels) \<and> descs_ok descs'"
  using assms by (cases d) (auto simp: modGetDesc_def descs_ok_def AList.update_conv' split: option.splits if_splits)

text \<open>In every run the jobs waiting in the channel and those thrown away are as many as the goroutines that
  wait for one.\<close>

lemma gather_counts:
  "gather_run most g \<Longrightarrow> length (ga_pushChan g) + length (ga_dropped g) = length (ga_waiting g) \<and>
   length (ga_offering g) + length (ga_waiting g) \<le> most \<and> length (ga_pushChan g) \<le> 4 \<and> (most \<le> 4 \<longrightarrow> ga_dropped g = [])"
proof (induction rule: gather_run.induct)
  case (gr_timeout g c)
  then show ?case by (auto simp: length_remove1)
next
  case (gr_run g c)
  show ?case
  proof (cases "c \<in> set (ga_offering g)")
    case True
    then obtain n where "length (ga_offering g) = Suc n" by (cases "ga_offering g") auto
    then show ?thesis using gr_run True by (auto simp: Gather_Run_def Let_def length_remove1)
  qed (use gr_run in \<open>simp add: Gather_Run_def\<close>)
next
  case (gr_take g c)
  then show ?case by (auto simp: Collect_take_def length_remove1 split: list.splits dest: length_pos_if_in_set)
qed (auto simp: Gather_Init_def)

text \<open>With at most four collectors at a time none waits in vain: whenever one waits there is a job for it.\<close>

lemma collector_served:
  assumes "gather_run most g" "most \<le> 4" "c \<in> set (ga_waiting g)"
  shows "\<exists>j. Collect_take c g = g\<lparr>ga_waiting := remove1 c (ga_waiting g), ga_pushChan := tl (ga_pushChan g), ga_pushed := (c, j) # ga_pushed g\<rparr>"
proof -
  have "ga_pushChan g \<noteq> []" using gather_counts [OF assms(1)] assms(2,3) by (cases "ga_waiting g") auto
  then show ?thesis using assms(3) by (cases "ga_pushChan g") (auto simp: Collect_take_def)
qed

text \<open>With five of them one may be left waiting for ever: its job is thrown away.\<close>

definition demo_gather :: gather where
  "demo_gather = fold Gather_Run [0..<5] (Gather_Init\<lparr>ga_offering := [4, 3, 2, 1, 0]\<rparr>)"

lemma collector_stuck:
  "ga_dropped demo_gather = [4]" "length (ga_pushChan demo_gather) = 4" "length (ga_waiting demo_gather) = 5"
  by code_simp+

text \<open>Two programs of one name on machines whose address is unknown register under one and the same number, and
  the first that leaves takes the other's entry with it.\<close>

lemma service_id_shared:
  assumes "metric_getLocalAddr addrs = unKnown" "metric_getLocalAddr addrs' = unKnown"
  shows "cc_ServiceID (rg_client (Gather_register (SetConsulCfg cfg (NewGather exe h addrs a p u)) s)) =
    cc_ServiceID (rg_client (Gather_register (SetConsulCfg cfg (NewGather exe h' addrs' a' p' u')) s))"
  using assms by (simp add: Gather_register_def SetConsulCfg_def NewGather_def SetServiceID_def defaultLabels_def Let_def)

text \<open>A collector that was never given a configuration panics in its goroutine; with one and a working agent it
  registers, and leaves when destroyed once.\<close>

lemma gather_without_config: "reg_step newClient ok (Gather_register (NewGather exe h addrs a p u) s) = None"
  by (simp add: reg_step_def Gather_register_def NewGather_def SetServiceID_def Consul_Register_def getClient_def getConfig_def newConfig_def)

lemma gather_registers:
  assumes "\<forall>x. newClient x"
  shows "\<exists>r1 r2 r3. reg_step newClient True (Gather_register (SetConsulCfg (Some cfg) (NewGather exe h addrs a p u)) s) = Some r1 \<and>
    reg_step newClient ok r1 = Some r2 \<and> Gather_Destroy newClient True (r2, False) = Some (r3, True) \<and>
    cc_ServiceID (rg_client r1) \<in> rg_services r1 \<and> cc_ServiceID (rg_client r1) \<notin> rg_services r3 \<and> Gather_Destroy newClient ok (r3, True) = None"
  using assms
  by (simp add: reg_step_def Gather_register_def SetConsulCfg_def NewGather_def SetServiceID_def Consul_Register_def getClient_def
      getConfig_def newConfig_def Gather_Destroy_def reg_Destroy_def Consul_DeRegister_def)

end
