(* ===== verification/Profile.thy ===== *)
theory Profile
  imports Prelude
begin

text \<open>
  The profiler (\<open>xprofile/profile.go\<close>): starting profiles by a list of modes and stopping them again. Of the
  Go runtime the settings are kept that the profiles change, and the files that are open; which of the calls
  into it fail is a parameter. A closure that \<open>Stop\<close> is to call is the datum it captures.
\<close>

section \<open>The runtime and the profiler\<close>

datatype profMode = ModeCpu | ModeMem | ModeMutex | ModeBlock | ModeTrace

record rt =
  rt_cpu :: bool
  rt_memRate :: int
  rt_mutexFraction :: int
  rt_blockRate :: int
  rt_trace :: bool
  rt_open :: "profMode list" \<comment> \<open>files open, by what they are for\<close>

datatype closer = CloseCpu | CloseMem int | CloseMutex | CloseBlock | CloseTrace

record Profiler =
  pf_closer :: "closer list"
  pf_memProfileRate :: int
  pf_status :: u32

text \<open>\<open>pe_create\<close>: creating the file works; \<open>pe_start\<close>: starting the profile; \<open>pe_write\<close>: writing it at the end.\<close>

record profEnv =
  pe_create :: "profMode \<Rightarrow> bool"
  pe_start :: "profMode \<Rightarrow> bool"
  pe_write :: "profMode \<Rightarrow> bool"

definition addCloser :: "closer \<Rightarrow> Profiler \<Rightarrow> Profiler" where
  "addCloser c p = p\<lparr>pf_closer := pf_closer p @ [c]\<rparr>"

definition openFile :: "profMode \<Rightarrow> rt \<Rightarrow> rt" where
  "openFile m r = r\<lparr>rt_open := m # rt_open r\<rparr>"

definition closeFile :: "profMode \<Rightarrow> rt \<Rightarrow> rt" where
  "closeFile m r = r\<lparr>rt_open := remove1 m (rt_open r)\<rparr>"

definition cpuProfile :: "profEnv \<Rightarrow> Profiler \<times> rt \<Rightarrow> Profiler \<times> rt" where
  "cpuProfile e = (\<lambda>(p, r).
     if \<not> pe_create e ModeCpu then (p, r)
     else let r = openFile ModeCpu r in
       if rt_cpu r \<or> \<not> pe_start e ModeCpu then (p, r)
       else (addCloser CloseCpu p, r\<lparr>rt_cpu := True\<rparr>))"

definition memProfile :: "profEnv \<Rightarrow> Profiler \<times> rt \<Rightarrow> Profiler \<times> rt" where
  "memProfile e = (\<lambda>(p, r).
     if \<not> pe_create e ModeMem then (p, r)
     else let r = openFile ModeMem r; old = rt_memRate r in
       (addCloser (CloseMem old) p, r\<lparr>rt_memRate := pf_memProfileRate p\<rparr>))"

definition mutexProfile :: "profEnv \<Rightarrow> Profiler \<times> rt \<Rightarrow> Profiler \<times> rt" where
  "mutexProfile e = (\<lambda>(p, r).
     if \<not> pe_create e ModeMutex then (p, r)
     else (addCloser CloseMutex p, (openFile ModeMutex r)\<lparr>rt_mutexFraction := 1\<rparr>))"

definition blockProfile :: "profEnv \<Rightarrow> Profiler \<times> rt \<Rightarrow> Profiler \<times> rt" where
  "blockProfile e = (\<lambda>(p, r).
     if \<not> pe_create e ModeBlock then (p, r)
     else (addCloser CloseBlock p, (openFile ModeBlock r)\<lparr>rt_blockRate := 1\<rparr>))"

definition traceProfile :: "profEnv \<Rightarrow> Profiler \<times> rt \<Rightarrow> Profiler \<times> rt" where
  "traceProfile e = (\<lambda>(p, r).
     if \<not> pe_create e ModeTrace then (p, r)
     else let r = openFile ModeTrace r in
       if rt_trace r \<or> \<not> pe_start e ModeTrace then (p, r)
       else (addCloser CloseTrace p, r\<lparr>rt_trace := True\<rparr>))"

text \<open>The closures. Those that write a profile stop short when writing fails.\<close>

definition runCloser :: "profEnv \<Rightarrow> closer \<Rightarrow> rt \<Rightarrow> rt" where
  "runCloser e c r =
     (case c of
        CloseCpu \<Rightarrow> (closeFile ModeCpu r)\<lparr>rt_cpu := False\<rparr>
      | CloseMem old \<Rightarrow> if \<not> pe_write e ModeMem then r else (closeFile ModeMem r)\<lparr>rt_memRate := old\<rparr>
      | CloseMutex \<Rightarrow> if \<not> pe_write e ModeMutex then r else (closeFile ModeMutex r)\<lparr>rt_mutexFraction := 0\<rparr>
      | CloseBlock \<Rightarrow> if \<not> pe_write e ModeBlock then r else (closeFile ModeBlock r)\<lparr>rt_blockRate := 0\<rparr>
      | CloseTrace \<Rightarrow> r\<lparr>rt_trace := False\<rparr>)"

text \<open>\<open>strings.FieldsFunc\<close> at commas.\<close>

fun fieldsComma :: "string \<Rightarrow> string \<Rightarrow> string list" where
  "fieldsComma acc [] = (if acc = [] then [] else [rev acc])"
| "fieldsComma acc (c # s) =
     (if c = CHR '','' then (if acc = [] then [] else [rev acc]) @ fieldsComma [] s else fieldsComma (c # acc) s)"

definition modeOf :: "string \<Rightarrow> profMode option" where
  "modeOf s = (if s = ''cpu'' then Some ModeCpu else if s = ''mem'' then Some ModeMem else if s = ''mutex'' then Some ModeMutex
     else if s = ''block'' then Some ModeBlock else if s = ''trace'' then Some ModeTrace else None)"

definition startMode :: "profEnv \<Rightarrow> profMode \<Rightarrow> Profiler \<times> rt \<Rightarrow> Profiler \<times> rt" where
  "startMode e m =
     (case m of ModeCpu \<Rightarrow> cpuProfile e | ModeMem \<Rightarrow> memProfile e | ModeMutex \<Rightarrow> mutexProfile e | ModeBlock \<Rightarrow> blockProfile e | ModeTrace \<Rightarrow> traceProfile e)"

definition Profiler_Start :: "profEnv \<Rightarrow> string \<Rightarrow> Profiler \<times> rt \<Rightarrow> bool \<times> Profiler \<times> rt" where
  "Profiler_Start e pmode = (\<lambda>(p, r).
     if pmode = [] then (False, p, r)
     else let modes = map modeOf (fieldsComma [] pmode) in
       if None \<in> set modes then (False, p, r)
       else if pf_status p \<noteq> 0 then (False, p, r)
       else (True, fold (startMode e) (map the modes) (p\<lparr>pf_status := 1, pf_memProfileRate := 4096\<rparr>, r)))"

definition Profiler_Stop :: "profEnv \<Rightarrow> Profiler \<times> rt \<Rightarrow> Profiler \<times> rt" where
  "Profiler_Stop e = (\<lambda>(p, r).
     if pf_status p \<noteq> 1 then (p, r)
     else (p\<lparr>pf_status := 0, pf_closer := []\<rparr>, fold (runCloser e) (pf_closer p) r))"

section \<open>What holds\<close>

definition idle :: "Profiler \<Rightarrow> rt \<Rightarrow> bool" where
  "idle p r \<longleftrightarrow> pf_status p = 0 \<and> pf_closer p = [] \<and> \<not> rt_cpu r \<and> \<not> rt_trace r \<and> rt_mutexFraction r = 0 \<and> rt_blockRate r = 0"

definition all_ok :: "profEnv \<Rightarrow> bool" where
  "all_ok e \<longleftrightarrow> (\<forall>m. pe_create e m \<and> pe_start e m \<and> pe_write e m)"

text \<open>What the modes \<open>ms\<close> have done, when each was started once and nothing failed.\<close>

definition closerOf :: "int \<Rightarrow> profMode \<Rightarrow> closer" where
  "closerOf old m = (case m of ModeCpu \<Rightarrow> CloseCpu | ModeMem \<Rightarrow> CloseMem old | ModeMutex \<Rightarrow> CloseMutex | ModeBlock \<Rightarrow> CloseBlock | ModeTrace \<Rightarrow> CloseTrace)"

definition started :: "profMode list \<Rightarrow> Profiler \<Rightarrow> rt \<Rightarrow> Profiler \<times> rt" where
  "started ms p r = (p\<lparr>pf_closer := pf_closer p @ map (closerOf (rt_memRate r)) ms\<rparr>,
     r\<lparr>rt_cpu := rt_cpu r \<or> ModeCpu \<in> set ms, rt_trace := rt_trace r \<or> ModeTrace \<in> set ms,
       rt_memRate := if ModeMem \<in> set ms then pf_memProfileRate p else rt_memRate r,
       rt_mutexFraction := if ModeMutex \<in> set ms then 1 else rt_mutexFraction r,
       rt_blockRate := if ModeBlock \<in> set ms then 1 else rt_blockRate r, rt_open := rev ms @ rt_open r\<rparr>)"

lemma startMode_started:
  assumes "all_ok e" "\<not> rt_cpu r" "\<not> rt_trace r" "m \<notin> set ms"
  shows "startMode e m (started ms p r) = started (ms @ [m]) p r"
  using assms by (cases m)
    (auto simp: started_def startMode_def cpuProfile_def memProfile_def mutexProfile_def blockProfile_def traceProfile_def
      all_ok_def addCloser_def openFile_def closerOf_def Let_def)

lemma fold_startMode:
  assumes "all_ok e" "\<not> rt_cpu r" "\<not> rt_trace r"
  shows "distinct (ms @ ns) \<Longrightarrow> fold (startMode e) ns (started ms p r) = started (ms @ ns) p r"
proof (induction ns arbitrary: ms)
  case (Cons n ns)
  then show ?case using startMode_started [OF assms, of n ms p] by simp
qed simp

text \<open>The closures put everything back, except that the file of the trace stays open.\<close>

lemma runClosers_settings:
  assumes "all_ok e"
  shows "distinct ms \<Longrightarrow>
    fold (runCloser e) (map (closerOf old) ms) r =
      r\<lparr>rt_cpu := rt_cpu r \<and> ModeCpu \<notin> set ms, rt_trace := rt_trace r \<and> ModeTrace \<notin> set ms,
        rt_memRate := if ModeMem \<in> set ms then old else rt_memRate r,
        rt_mutexFraction := if ModeMutex \<in> set ms then 0 else rt_mutexFraction r,
        rt_blockRate := if ModeBlock \<in> set ms then 0 else rt_blockRate r,
        rt_open := fold remove1 (filter (\<lambda>m. m \<noteq> ModeTrace) ms) (rt_open r)\<rparr>"
proof (induction ms arbitrary: r)
  case (Cons m ms)
  then show ?case using assms
    by (cases m) (auto simp: runCloser_def closerOf_def closeFile_def all_ok_def)
qed simp

lemma remove_opened:
  "distinct ms \<Longrightarrow> ModeTrace \<notin> set ms \<Longrightarrow> fold remove1 (filter (\<lambda>m. m \<noteq> ModeTrace) ms) (rev ms @ xs) = xs"
proof (induction ms arbitrary: xs rule: rev_induct)
  case (snoc m ms)
  have "fold remove1 (filter (\<lambda>m. m \<noteq> ModeTrace) ms) (m # rev ms @ xs) = m # fold remove1 (filter (\<lambda>m. m \<noteq> ModeTrace) ms) (rev ms @ xs)"
  proof -
    have "m \<notin> set ns \<Longrightarrow> fold remove1 ns (m # ys) = m # fold remove1 ns ys" for ns ys
      by (induction ns arbitrary: ys) auto
    then show ?thesis using snoc.prems by auto
  qed
  then show ?case using snoc by auto
qed simp

text \<open>Starting different profiles without a trace and stopping them leaves runtime and profiler as they were
  found; an unknown mode starts nothing.\<close>

lemma profiler_start_stop:
  assumes "all_ok e" "idle p r" "pmode \<noteq> []" "map modeOf (fieldsComma [] pmode) = map Some ms" "distinct ms" "ModeTrace \<notin> set ms"
  shows "\<exists>p1 r1. Profiler_Start e pmode (p, r) = (True, p1, r1) \<and> pf_status p1 = 1 \<and>
    (\<exists>p2. Profiler_Stop e (p1, r1) = (p2, r) \<and> idle p2 r)"
proof -
  let ?p = "p\<lparr>pf_status := 1, pf_memProfileRate := 4096\<rparr>"
  have i: "\<not> rt_cpu r" "\<not> rt_trace r" "pf_status p = 0" "pf_closer p = []" "rt_mutexFraction r = 0" "rt_blockRate r = 0"
    using assms(2) by (simp_all add: idle_def)
  have "started [] ?p r = (?p, r)" by (simp add: started_def)
  then have "fold (startMode e) ms (?p, r) = started ms ?p r"
    using fold_startMode [OF assms(1) i(1,2), of "[]" ms ?p] assms(5) by simp
  then have start: "Profiler_Start e pmode (p, r) = (True, started ms ?p r)"
    using assms(3,4) i(3) by (simp add: Profiler_Start_def comp_def)
  have "Profiler_Stop e (started ms ?p r) = (p\<lparr>pf_memProfileRate := 4096, pf_status := 0, pf_closer := []\<rparr>, r)"
    using i assms(6) remove_opened [OF assms(5,6), of "rt_open r"]
    by (simp add: Profiler_Stop_def started_def runClosers_settings [OF assms(1,5)])
  then show ?thesis using start i by (cases "started ms ?p r") (auto simp: started_def idle_def)
qed

lemma profiler_unknown_mode:
  "None \<in> set (map modeOf (fieldsComma [] pmode)) \<Longrightarrow> Profiler_Start e pmode (p, r) = (False, p, r)"
  by (auto simp: Profiler_Start_def)

text \<open>A mode given twice: the second closure restores the profiling rate of the first.\<close>

lemma profiler_mem_twice:
  assumes "all_ok e" "idle p r"
  shows "rt_memRate (snd (Profiler_Stop e (snd (Profiler_Start e ''mem,mem'' (p, r))))) = 4096"
  using assms by (simp add: Profiler_Start_def Profiler_Stop_def modeOf_def startMode_def memProfile_def runCloser_def
      addCloser_def openFile_def closeFile_def idle_def all_ok_def Let_def)

text \<open>The file of a trace is never closed.\<close>

lemma profiler_trace_leaks:
  assumes "all_ok e" "idle p r"
  shows "ModeTrace \<in> set (rt_open (snd (Profiler_Stop e (snd (Profiler_Start e ''trace'' (p, r))))))"
  using assms by (simp add: Profiler_Start_def Profiler_Stop_def modeOf_def startMode_def traceProfile_def runCloser_def
      addCloser_def openFile_def closeFile_def idle_def all_ok_def Let_def)

end
