(* ===== verification/Debug.thy ===== *)
theory Debug
  imports Profile
begin

text \<open>
  The commands of a running process (\<open>xutil/debugcmd.go\<close>): sizes in readable units, the list of commands, starting
  and stopping profiles over HTTP, the figures of the memory; and the end of the application, which stops a
  profile that is still running. Figures of the runtime are arguments, printing a number with two digits is left
  as the fraction it prints.
\<close>

section \<open>Sizes\<close>

definition units :: "string list" where
  "units = [''bytes'', ''KB'', ''MB'', ''GB'', ''TB'', ''PB'']"

text \<open>A size is printed in bytes, or as a fraction with a unit and the number of bytes.\<close>

datatype sizeText = InBytes u64 | InUnit u64 u64 string

fun unitLoop :: "u64 \<Rightarrow> nat list \<Rightarrow> nat \<times> u64 \<Rightarrow> nat \<times> u64" where
  "unitLoop v [] r = r"
| "unitLoop v (i # is) r =
     (let target = push_bit (10 * (i + 1)) 1 in if v < target then (i, target) else unitLoop v is (i, target))"

definition formatBytes :: "u64 \<Rightarrow> sizeText" where
  "formatBytes val =
     (let (i, target) = unitLoop val [0..<length units] (0, 0) in
      if i > 0 then InUnit val (target div 1024) (units ! i) else InBytes val)"

section \<open>Commands\<close>

text \<open>\<open>strings.FieldsFunc\<close> at slashes, as \<open>HandleHttpCmd\<close> splits the address of the request.\<close>

fun fieldsSlash :: "string \<Rightarrow> string \<Rightarrow> string list" where
  "fieldsSlash acc [] = (if acc = [] then [] else [rev acc])"
| "fieldsSlash acc (c # s) =
     (if c = CHR ''/'' then (if acc = [] then [] else [rev acc]) @ fieldsSlash [] s else fieldsSlash (c # acc) s)"

definition helpCmd :: "string list \<Rightarrow> string" where
  "helpCmd httpCmds = concat (map (\<lambda>c. c @ [CHR 0x0A]) httpCmds)"

definition pprofStart :: "profEnv \<Rightarrow> string list \<Rightarrow> Profiler \<times> rt \<Rightarrow> string \<times> Profiler \<times> rt" where
  "pprofStart e args s =
     (if length args \<noteq> 3 then (''arg error, should be: /pprof/start/mode(cpu, memory, ...)'', s)
      else case Profiler_Start e (args ! 2) s of
          (True, s) \<Rightarrow> (args ! 2 @ '' profile started'', s)
        | (False, s) \<Rightarrow> (args ! 2 @ '' profile failed'', s))"

definition pprofStop :: "profEnv \<Rightarrow> string list \<Rightarrow> Profiler \<times> rt \<Rightarrow> string \<times> Profiler \<times> rt" where
  "pprofStop e args s =
     (if length args \<noteq> 2 then (''arg error, should be: /pprof/stop'', s) else (''profile stopped'', Profiler_Stop e s))"

section \<open>Figures of the memory\<close>

record MemStats =
  Alloc :: u64
  TotalAlloc :: u64
  Sys :: u64
  Lookups :: u64
  Mallocs :: u64
  Frees :: u64
  HeapAlloc :: u64
  HeapSys :: u64
  HeapIdle :: u64
  HeapInuse :: u64
  HeapReleased :: u64
  HeapObjects :: u64
  StackInuse :: u64
  StackSys :: u64
  MSpanInuse :: u64
  MSpanSys :: u64
  MCacheInuse :: u64
  MCacheSys :: u64
  OtherSys :: u64
  GCSys :: u64
  NextGC :: u64
  LastGC :: u64
  PauseTotalNs :: u64
  PauseNs :: "u64 list" \<comment> \<open>256 of them, a ring\<close>
  NumGC :: u32
  EnableGC :: bool
  DebugGC :: bool

text \<open>The lines with a size, in the order they are printed.\<close>

definition memLines :: "MemStats \<Rightarrow> (string \<times> sizeText) list" where
  "memLines s =
     [(''alloc'', formatBytes (Alloc s)), (''total-alloc'', formatBytes (TotalAlloc s)), (''sys'', formatBytes (Sys s)),
      (''lookups'', formatBytes (Lookups s)), (''mallocs'', formatBytes (Mallocs s)), (''frees'', formatBytes (Frees s)),
      (''heap-alloc'', formatBytes (HeapAlloc s)), (''heap-sys'', formatBytes (HeapSys s)), (''heap-idle'', formatBytes (HeapIdle s)),
      (''heap-in-use'', formatBytes (HeapInuse s)), (''heap-released'', formatBytes (HeapReleased s)), (''heap-object'', formatBytes (HeapObjects s)),
      (''stack-in-use'', formatBytes (StackInuse s)), (''stack-sys'', formatBytes (StackSys s)),
      (''stack-mspan-inuse'', formatBytes (MSpanInuse s)), (''stack-mspan-sys'', formatBytes (MSpanSys s)),
      (''stack-mcache-inuse'', formatBytes (MCacheInuse s)), (''stack-mcache-sys'', formatBytes (MCacheSys s)),
      (''other-sys'', formatBytes (OtherSys s)), (''gc-sys'', formatBytes (GCSys s)), (''next-gc: when heap-alloc >='', formatBytes (NextGC s))]"

text \<open>The pause of the last collection; \<open>NumGC\<close> wraps around. An index out of range panics.\<close>

definition gcPause :: "MemStats \<Rightarrow> u64 option" where
  "gcPause s = (let i = unat ((NumGC s + 255) mod 256) in if i < length (PauseNs s) then Some (PauseNs s ! i) else None)"

definition pausePeak :: "u64 list \<Rightarrow> u64" where
  "pausePeak pauses = fold (\<lambda>pause peak. if peak < pause then pause else peak) pauses 0"

text \<open>What the debug handlers print of the collector.\<close>

definition gcLines :: "MemStats \<Rightarrow> (bool \<times> u64 \<times> u64 option \<times> u64 \<times> u32 \<times> bool \<times> bool)" where
  "gcLines s = (LastGC s \<noteq> 0, PauseTotalNs s, gcPause s, pausePeak (PauseNs s), NumGC s, EnableGC s, DebugGC s)"

section \<open>The end of the application\<close>

datatype endAct = EndUser | EndSync | EndZapSync | EndLogClose

definition App_Destroy :: "profEnv \<Rightarrow> Profiler \<times> rt \<Rightarrow> endAct list \<times> Profiler \<times> rt" where
  "App_Destroy e s = ([EndUser, EndSync, EndZapSync, EndLogClose], Profiler_Stop e s)"

text \<open>The function that starts a profile with the process, by the flag \<open>prof.mode\<close>.\<close>

definition profile_Start :: "profEnv \<Rightarrow> string \<Rightarrow> rt \<Rightarrow> Profiler \<times> rt" where
  "profile_Start e mode r = snd (Profiler_Start e mode (\<lparr>pf_closer = [], pf_memProfileRate = 0, pf_status = 0\<rparr>, r))"

section \<open>What holds\<close>

text \<open>The number before the unit is at least one, and below 1024 but for the largest unit.\<close>

lemma formatBytes_eq:
  "formatBytes v =
     (if unat v < 2 ^ 10 then InBytes v else if unat v < 2 ^ 20 then InUnit v (2 ^ 10) ''KB'' else if unat v < 2 ^ 30 then InUnit v (2 ^ 20) ''MB''
      else if unat v < 2 ^ 40 then InUnit v (2 ^ 30) ''GB'' else if unat v < 2 ^ 50 then InUnit v (2 ^ 40) ''TB'' else InUnit v (2 ^ 50) ''PB'')"
  by (simp add: formatBytes_def units_def upt_rec word_less_nat_alt Let_def)

lemma formatBytes_unit:
  assumes "1024 \<le> unat v"
  shows "\<exists>d u. formatBytes v = InUnit v d u \<and> u \<in> set (tl units) \<and> 1 \<le> unat v div unat d \<and> (u = ''PB'' \<or> unat v div unat d < 1024)"
  using assms by (auto simp: formatBytes_eq units_def div_less_iff_less_mult)

text \<open>The index of the last pause is right across the wrap-around of the counter, and never out of range.\<close>

lemma gcPause_last:
  assumes "length (PauseNs s) = 256"
  shows "gcPause s = Some (PauseNs s ! ((unat (NumGC s) + 255) mod 256))"
proof -
  have "unat ((NumGC s + 255) mod 256) = ((unat (NumGC s) + 255) mod 2 ^ 32) mod 256"
    by (simp add: unat_mod unat_word_ariths)
  also have "\<dots> = (unat (NumGC s) + 255) mod 256" by (rule mod_mod_cancel) simp
  finally show ?thesis using assms by (simp add: gcPause_def Let_def)
qed

lemma pausePeak_max: "pausePeak ps = Max (insert 0 (set ps))"
proof -
  have "fold (\<lambda>pause peak. if peak < pause then pause else peak) ps m = Max (insert m (set ps))" for m :: u64
  proof (induction ps arbitrary: m)
    case (Cons p ps)
    have "Max (insert (max m p) (set ps)) = Max (insert m (insert p (set ps)))"
      by (cases "set ps = {}") (simp_all add: max.assoc max.commute max.left_commute)
    moreover have "(if m < p then p else m) = max m p" by (auto simp: max_def)
    ultimately show ?case using Cons.IH [of "max m p"] by simp
  qed simp
  then show ?thesis by (simp add: pausePeak_def)
qed

text \<open>The commands start and stop profiles, and the end of the application stops what still runs.\<close>

lemma pprof_commands:
  assumes "all_ok e" "idle p r" "fieldsSlash [] uri = [a, b, pmode]" "pmode \<noteq> []" "map modeOf (fieldsComma [] pmode) = map Some ms"
    "distinct ms" "ModeTrace \<notin> set ms"
  shows "\<exists>s. pprofStart e (fieldsSlash [] uri) (p, r) = (pmode @ '' profile started'', s) \<and>
    snd (snd (pprofStop e [''pprof'', ''stop''] s)) = r \<and> snd (snd (App_Destroy e s)) = r"
proof -
  obtain p1 r1 p2 where "Profiler_Start e pmode (p, r) = (True, p1, r1)" "Profiler_Stop e (p1, r1) = (p2, r)"
    using profiler_start_stop [OF assms(1,2,4-7)] by blast
  then show ?thesis by (intro exI [of _ "(p1, r1)"]) (simp add: assms(3) pprofStart_def pprofStop_def App_Destroy_def)
qed

lemma help_lists: "c \<in> set cmds \<Longrightarrow> \<exists>a b. helpCmd cmds = a @ c @ [CHR 0x0A] @ b"
proof -
  assume "c \<in> set cmds"
  then obtain ys zs where "cmds = ys @ c # zs" by (auto dest: split_list)
  then show ?thesis by (intro exI [of _ "helpCmd ys"] exI [of _ "helpCmd zs"]) (simp add: helpCmd_def)
qed

text \<open>The mode the error text proposes does not exist.\<close>

lemma memory_mode_unknown: "fst (pprofStart e (fieldsSlash [] ''/pprof/start/memory'') s) = ''memory profile failed''"
  by (cases s) (simp add: pprofStart_def Profiler_Start_def modeOf_def)

end
