(* ===== verification/Go_Collector.thy ===== *)
theory Go_Collector
  imports Debug
begin

text \<open>
  The collector of the Go runtime's figures (\<open>xmetric/go_collector.go\<close>). Reading the memory's figures may take long:
  a collector starts to read, waits a second, and then takes the figures of an earlier reading if that is less
  than five minutes old, or waits on. The readings and the waiting collectors are a step relation over a clock.
\<close>

section \<open>What is reported\<close>

definition memstatNamespace :: "string \<Rightarrow> string" where
  "memstatNamespace s = ''go_memstats_'' @ s"

text \<open>The metrics of the table; the last one is in nanoseconds where the code divides by \<open>1e9\<close>.\<close>

definition msMetrics :: "(string \<times> (MemStats \<Rightarrow> u64)) list" where
  "msMetrics =
     [(memstatNamespace ''sys_bytes'', Sys), (memstatNamespace ''heap_sys_bytes'', HeapSys), (memstatNamespace ''heap_inuse_bytes'', HeapInuse),
      (memstatNamespace ''heap_objects'', HeapObjects), (memstatNamespace ''stack_sys_bytes'', StackSys),
      (memstatNamespace ''stack_inuse_bytes'', StackInuse), (memstatNamespace ''next_gc_bytes'', NextGC),
      (memstatNamespace ''last_gc_time_seconds'', LastGC)]"

definition go_Describe :: "string list" where
  "go_Describe = [''go_goroutines'', ''go_gc_duration_seconds''] @ map fst msMetrics"

definition msCollect :: "MemStats \<Rightarrow> (string \<times> u64) list" where
  "msCollect ms = map (\<lambda>(desc, eval). (desc, eval ms)) msMetrics"

text \<open>The quantiles of the pauses: position \<open>idx\<close> of \<open>n\<close> values is the fraction \<open>idx / (n - 1)\<close>. An empty list panics.\<close>

definition gcQuantiles :: "int list \<Rightarrow> ((nat \<times> nat) \<times> int) list option" where
  "gcQuantiles pq =
     (case pq of [] \<Rightarrow> None
      | q # qs \<Rightarrow> Some (map (\<lambda>(idx, p). ((idx + 1, length pq - 1), p)) (enumerate 0 qs) @ [((0, length pq - 1), q)]))"

section \<open>Waiting for figures\<close>

definition msMaxAge :: int where "msMaxAge = 300000000000"

text \<open>A collector has just started, is past its timer and waits for its own reading only, or has reported.\<close>

datatype collectAt = CollectWait | CollectOwn | CollectDone

record goCollector =
  go_now :: int
  go_msLast :: "MemStats \<times> int" \<comment> \<open>\<open>msLast\<close> with \<open>msLastTimestamp\<close>\<close>
  go_at :: "nat \<Rightarrow> collectAt option"
  go_own :: "nat \<Rightarrow> MemStats option" \<comment> \<open>the finished reading of a collector\<close>
  go_read :: "(MemStats \<times> int) list" \<comment> \<open>all readings\<close>
  go_reports :: "(nat \<times> MemStats \<times> int) list"

text \<open>The zero time is further back than \<open>msMaxAge\<close>.\<close>

definition newGoCollector :: "int \<Rightarrow> MemStats \<Rightarrow> goCollector" where
  "newGoCollector now zero = \<lparr>go_now = now, go_msLast = (zero, 0), go_at = (\<lambda>_. None), go_own = (\<lambda>_. None), go_read = [], go_reports = []\<rparr>"

definition go_report :: "nat \<Rightarrow> MemStats \<Rightarrow> goCollector \<Rightarrow> goCollector" where
  "go_report i ms c = c\<lparr>go_at := (go_at c)(i \<mapsto> CollectDone), go_reports := (i, ms, go_now c) # go_reports c\<rparr>"

inductive collect_step :: "goCollector \<Rightarrow> goCollector \<Rightarrow> bool" where
  clock: "0 \<le> dt \<Longrightarrow> collect_step c (c\<lparr>go_now := go_now c + dt\<rparr>)"
| begin_collect: "go_at c i = None \<Longrightarrow> collect_step c (c\<lparr>go_at := (go_at c)(i \<mapsto> CollectWait)\<rparr>)"
| read_done: "go_at c i \<noteq> None \<Longrightarrow> go_own c i = None \<Longrightarrow>
    collect_step c (c\<lparr>go_msLast := (ms, go_now c), go_own := (go_own c)(i \<mapsto> ms), go_read := (ms, go_now c) # go_read c\<rparr>)"
| in_time: "go_at c i = Some CollectWait \<Longrightarrow> go_own c i = Some ms \<Longrightarrow> collect_step c (go_report i ms c)"
| late_recent: "go_at c i = Some CollectWait \<Longrightarrow> go_now c - snd (go_msLast c) < msMaxAge \<Longrightarrow>
    collect_step c (go_report i (fst (go_msLast c)) c)"
| late_old: "go_at c i = Some CollectWait \<Longrightarrow> go_now c - snd (go_msLast c) \<ge> msMaxAge \<Longrightarrow>
    collect_step c (c\<lparr>go_at := (go_at c)(i \<mapsto> CollectOwn)\<rparr>)"
| own_done: "go_at c i = Some CollectOwn \<Longrightarrow> go_own c i = Some ms \<Longrightarrow> collect_step c (go_report i ms c)"

inductive collect_run :: "goCollector \<Rightarrow> bool" where
  run_start: "msMaxAge \<le> now \<Longrightarrow> collect_run (newGoCollector now zero)"
| run_step: "collect_run c \<Longrightarrow> collect_step c c' \<Longrightarrow> collect_run c'"

section \<open>What holds\<close>

text \<open>A report is of real figures: of a reading the collector made itself, or of one that was less than five
  minutes old.\<close>

definition report_ok :: "goCollector \<Rightarrow> nat \<times> MemStats \<times> int \<Rightarrow> bool" where
  "report_ok c = (\<lambda>(i, ms, t). go_own c i = Some ms \<or> (\<exists>t0. (ms, t0) \<in> set (go_read c) \<and> 0 \<le> t - t0 \<and> t - t0 < msMaxAge))"

definition collect_inv :: "goCollector \<Rightarrow> bool" where
  "collect_inv c \<longleftrightarrow> msMaxAge \<le> go_now c \<and> (\<forall>r \<in> set (go_reports c). report_ok c r) \<and>
     (\<forall>(ms, t) \<in> set (go_read c). t \<le> go_now c) \<and>
     (go_msLast c \<in> set (go_read c) \<or> go_read c = [] \<and> snd (go_msLast c) = 0)"

lemma report_inv:
  assumes "collect_inv c" "report_ok c (i, ms, go_now c)"
  shows "collect_inv (go_report i ms c)"
  using assms by (auto simp: collect_inv_def go_report_def report_ok_def)

lemma collect_step_inv:
  assumes "collect_step c c'" "collect_inv c"
  shows "collect_inv c'"
  using assms(1)
proof cases
  case (clock dt)
  then show ?thesis using assms(2) by (fastforce simp: collect_inv_def report_ok_def)
next
  case (read_done i ms)
  have "report_ok c' r" if "report_ok c r" for r
    using that read_done by (auto simp: report_ok_def split: prod.splits)
  then show ?thesis using assms(2) read_done(1) by (auto simp: collect_inv_def)
next
  case (in_time i ms)
  then show ?thesis using report_inv [OF assms(2), of i ms] by (simp add: report_ok_def)
next
  case (late_recent i)
  have "go_msLast c \<in> set (go_read c)" using assms(2) late_recent(3) by (auto simp: collect_inv_def)
  then have "(fst (go_msLast c), snd (go_msLast c)) \<in> set (go_read c)" by simp
  moreover have "snd (go_msLast c) \<le> go_now c" using assms(2) calculation by (auto simp: collect_inv_def)
  ultimately have "report_ok c (i, fst (go_msLast c), go_now c)"
    using late_recent(3) unfolding report_ok_def by force
  then show ?thesis using report_inv [OF assms(2)] late_recent(1) by simp
next
  case (own_done i ms)
  then show ?thesis using report_inv [OF assms(2), of i ms] by (simp add: report_ok_def)
qed (use assms(2) in \<open>auto simp: collect_inv_def report_ok_def\<close>)

lemma collect_fresh: "collect_run c \<Longrightarrow> r \<in> set (go_reports c) \<Longrightarrow> report_ok c r"
proof -
  have "collect_run c \<Longrightarrow> collect_inv c"
  proof (induction rule: collect_run.induct)
    case (run_start now zero)
    then show ?case by (simp add: collect_inv_def newGoCollector_def)
  qed (blast intro: collect_step_inv)
  then show "collect_run c \<Longrightarrow> r \<in> set (go_reports c) \<Longrightarrow> report_ok c r" by (auto simp: collect_inv_def)
qed

text \<open>A collector whose reading is done can always report, whatever its timer did.\<close>

lemma collect_progress:
  assumes "go_at c i \<in> {Some CollectWait, Some CollectOwn}" "go_own c i = Some ms"
  shows "\<exists>c'. collect_step c c' \<and> go_at c' i = Some CollectDone \<and> (i, ms, go_now c) \<in> set (go_reports c')"
proof -
  have "collect_step c (go_report i ms c)" using assms in_time own_done by auto
  then show ?thesis by (auto simp: go_report_def)
qed

lemma msCollect_names: "map fst (msCollect ms) = drop 2 go_Describe" "distinct go_Describe"
  by (simp_all add: msCollect_def go_Describe_def msMetrics_def memstatNamespace_def)

end
