(* ===== verification/Spec2Isabelle.thy ===== *)
theory Spec2Isabelle
  imports Queue_Ring Expand_Queue Channels Rdp_Properties Rdp_Dispatcher Timer Safelink_Context Rpc Rpc_Cluster Client Servers Job App_Start Log
    Check_Message Safelink_Listen Rdp_Endpoint Stream_Factory Creators Consul Metrics Go_Collector
begin

text \<open>
  A verification library for xengine_core, a Go framework for game servers. The root theory only
  imports the others; every property stands in the theory of the component it is about.

  \<^bold>\<open>The program.\<close> Game processes form a cluster. A process reads the cluster file
  (\<open>xrpc/rpccluster.go\<close>) and learns where to listen and whom to dial; the link manager
  (\<open>xhlink/hlink.go\<close>, \<open>xnet/safelink*.go\<close>) keeps one TCP link to every other process, with one
  thread to read, one to send, and a queue of events for the main loop; on the links run remote
  procedure calls (\<open>xrpc/saferpc*.go\<close>). Players connect over RDP (\<open>rdp/\<close>), a reliable and ordered
  protocol on top of UDP: datagrams with checksums, windows of packets with selective
  acknowledgements, retransmission by \<open>flush\<close>, and dispatchers that share one socket between the
  connections. Below lie containers: a ring queue, unbounded channels, chunk allocators and a timer
  wheel on a binary heap (\<open>xcontainer/\<close>, \<open>xmemory/\<close>, \<open>xnet/expandqueue.go\<close>).

  \<^bold>\<open>Conventions.\<close> A Go panic is \<open>None\<close> of the option type, also in every operation that may index
  out of range; errors are values of a datatype; nil is \<open>None\<close>. Fixed-width integers are words
  where they can wrap around, lengths and counters that cannot are \<open>nat\<close> or \<open>int\<close>. Operations under
  one mutex are atomic; where the code gives the mutex up in between, or works without one, the
  parts are separate steps of a relation. A call that blocks takes the list of what happens to it
  and ends in \<open>Blocked\<close> when the list is used up. Sockets, clocks, protobuf, compression, reflection
  and file contents are parameters.

  \<^bold>\<open>Theories and sources.\<close>
  \<^item> \<open>Prelude\<close>: bytes in little and big endian, Go's \<open>copy\<close>, rings (a list seen through a circular
    buffer), serial-number arithmetic on words, the outcome of blocking calls.
  \<^item> \<open>Fifo\<close>: the locale \<open>fifo\<close>, what a client may expect of a queue; interpreted by
    \<open>Queue_Ring\<close> (\<open>xcontainer/queue/queue.go\<close>) and \<open>Expand_Queue\<close> (\<open>xnet/expandqueue.go\<close>, with the
    interleavings of the producer and the consumer of the two-queue packet buffer).
  \<^item> \<open>Channels\<close>: \<open>SliceChan\<close>, \<open>SwitchChan\<close> (\<open>xcontainer/channel/\<close>) and the packet queue of RDP
    (\<open>rdp/switchqueue.go\<close>) under the locale \<open>channel\<close>.
  \<^item> \<open>Rdp_Datagram\<close>, \<open>Rdp_Queue\<close>, \<open>Rdp_Window\<close>, \<open>Rdp_Conn\<close>: \<open>rdp/datagram.go\<close>, \<open>rdp.go\<close>,
    \<open>checksum.go\<close>, \<open>queue.go\<close>, \<open>window.go\<close>, \<open>conn.go\<close>, function by function, with the locales \<open>recv_window\<close>
    and \<open>send_window\<close>. \<open>Rdp_Packets\<close>: what the
    emitted datagrams contain. \<open>Rdp_Delivery\<close>: two connections and a network that loses, repeats
    and reorders, as a step relation with its invariant. \<open>Rdp_Messages\<close>: the blocking \<open>Read\<close> and
    \<open>Write\<close> as runs of these steps. \<open>Rdp_Properties\<close>: the properties of the protocol.
  \<^item> \<open>Rdp_Dispatcher\<close>: \<open>rdp/dispatcher.go\<close>, \<open>listener.go\<close>, \<open>dial.go\<close>, \<open>xconn.go\<close>, \<open>xconn_linux.go\<close>:
    the table of clients, accepting, closing, time-outs, the handshake. \<open>Rdp_Endpoint\<close>: how the two ends are
    opened and closed, their goroutines, and \<open>xconn_generic.go\<close>.
  \<^item> \<open>Memory\<close>: \<open>xmemory/creator.go\<close> and the generated creators, under the locale \<open>allocator\<close>; the
    creator that gives up its mutex while it allocates is a step relation. \<open>Creators\<close>: the creators of all packages on
    one heap (\<open>gen_xnet.go\<close>, \<open>gen_baserpcpb.go\<close>, \<open>gen_timer.go\<close>), those of single objects, the pool of packets, and the
    history of a link (\<open>safelink_history.go\<close>), over the same locale.
  \<^item> \<open>Timer\<close>: \<open>xcontainer/timer/timer.go\<close> with \<open>container/heap\<close> of the standard library written out;
    the locale \<open>prio_queue\<close>.
  \<^item> \<open>Safelink_Wire\<close>, \<open>Safelink_Context\<close>: \<open>xnet/util.go\<close>, \<open>safelink.go\<close>, \<open>safelink_handler.go\<close>,
    \<open>safelink_context.go\<close>: framing, heartbeats, send and read threads, events, handshake, dialling.
    The locale \<open>codec\<close> is the contract of a packet formatter, \<open>wakeup\<close> that of a queue whose consumer
    is woken by the producer that finds it empty.
    \<open>Safelink_Listen\<close>: listening, and the answer to heartbeats over the buffer the two threads share.
  \<^item> \<open>Setup_Message\<close>, \<open>Check_Message\<close>: \<open>xnet/baserpcpb/rpccheckmsg.pb.go\<close>, the generated code that writes and reads
    the messages of the handshake, and the handshake over it.
  \<^item> \<open>Rpc_Format\<close>, \<open>Rpc\<close>: \<open>xrpc/saferpcstatic.go\<close>, \<open>saferpcdynamic.go\<close>: the packet format (an
    interpretation of \<open>codec\<close>), services, calls, the pending table with its time-out heap.
  \<^item> \<open>Rpc_Cluster\<close>: \<open>xrpc/rpccluster.go\<close>, \<open>xhlink/hlink.go\<close>: who dials whom, and reloading.
  \<^item> \<open>Tlv_Stream\<close>: \<open>xnet/tlvstream.go\<close>, \<open>datagram.go\<close>, \<open>formater.go\<close>, \<open>pbformater.go\<close>,
    \<open>pbcommon.go\<close>, \<open>pbserialize.go\<close>, \<open>codec.go\<close>: how a session frames its messages on a byte stream
    and on datagrams; the locale \<open>tlv\<close> is the contract of a serializer, interpreted on \<open>pbSerializer\<close>. \<open>Stream_Factory\<close>:
    how streams are made, and the binding to lz4 (\<open>codec/lz4_c.go\<close>).
  \<^item> \<open>Session\<close>, \<open>Servers\<close>, \<open>Client\<close>: \<open>xnet/session.go\<close>, \<open>sessionmgr.go\<close>, \<open>tcpserver.go\<close>,
    \<open>udpserver.go\<close>, \<open>rdpserver.go\<close>, \<open>client.go\<close>, \<open>udpclient.go\<close>: the table of sessions, their life from
    accept to close with its events, the accept loops, and the client that dials over TCP, KCP or RDP.
    The threads are step relations.
  \<^item> \<open>Job\<close>: \<open>xcontainer/job/controller.go\<close>, the pool of workers between two channels.
  \<^item> \<open>App\<close>, \<open>App_Start\<close>: \<open>xmodule/dynamic.go\<close>, \<open>static.go\<close>, \<open>xutil/application.go\<close>: the tables of
    modules, the start of a process, the main loop with its frames, and the commands over HTTP.
  \<^item> \<open>Lumberjack\<close>, \<open>Log\<close>: \<open>xlog/lumberjack-2.0/\<close>, \<open>xlog/logger.go\<close>, \<open>stdlog.go\<close>: the rotating log file in a
    directory whose system calls may fail, the goroutine that writes to it, and the levels.
  \<^item> \<open>Consul\<close>, \<open>Metrics\<close>, \<open>Go_Collector\<close>, \<open>Profile\<close>, \<open>Debug\<close>: \<open>xconsul/consulclient.go\<close>, \<open>xlobby/lobby.go\<close>, \<open>xmetric/\<close>,
    \<open>xprofile/profile.go\<close>, \<open>xutil/debugcmd.go\<close>: health checks, registering and leaving, labels and descriptors, the
    way of a job between a collector and the main thread, waiting for the figures of the runtime, starting
    and stopping profiles, the debug commands.

  \<^bold>\<open>What is shown.\<close> RDP delivers in order, without loss or repetition, message by message, and
  \<open>flush\<close> repairs losses; its datagrams parse back and corrupted ones are dropped; its windows work
  across the wrap-around of the sequence numbers, except for \<open>Ack\<close>, whose failure at the
  wrap-around is a theorem. The server table holds exactly the open connections. Queues, channels
  and allocators meet their contracts, also under interleaving. Timers fire exactly when due, in
  order. Links deliver what the formatter wrote however the stream is cut into pieces, and no queue
  is left without a wake-up. Every call with a callback is settled exactly once. Of two servers
  exactly one dials the other, and a reload amounts to a restart, except when a server moves. A
  session's stream delivers the messages written to it, its events come in the order open, data,
  close, and the client goes through its life without a panic. No result of a job is lost or
  returned twice. The main loop hands its frames the whole of the time that passes between them. Log
  lines reach the files in order and completely, no log file outgrows its limit whatever call fails,
  and exactly the backups beyond the limits of age and number are deleted. The message of the
  handshake fills its buffer exactly and is read back, and two links learn each other's number and name
  from it, but a message without a signature is accepted too. A health check does not depend on the
  order in which a map is visited, up to four collectors at a time are served, the figures reported of the
  runtime are less than five minutes old, and starting and stopping profiles leaves the runtime as it
  was. A heartbeat that is answered at once brings back its time, a late one may bring back bytes of the
  next frame. A failed dial leaves its sending goroutine behind.

  \<^bold>\<open>Termination.\<close> Loops that need no fuel are recursive functions with a measure. Loops that run as
  long as events arrive (\<open>tickEvents\<close>, \<open>tickLoop\<close>, \<open>runTimeouts\<close>) are partial functions to option
  and their return is proved; no model has fuel. The only bounds are those of the code: 65536 events
  in one pass, 64 packets to one window, and runs of fewer than \<open>2 ^ 64\<close> calls.

  \<^bold>\<open>Not modelled.\<close> The wrapper around zap (\<open>xlog/zaplog.go\<close>), the descriptors and printing in the generated
  protobuf code, the lock file and the flags are I/O or third-party code and only called from the parts
  above; \<open>rdp/buffer.go\<close> is a pool whose buffers are values here. Of the modelled files, what only logs,
  counts, opens sockets or starts threads is left out.
\<close>

end
